(* ===== verification/Prelude.thy ===== *)
theory Prelude
  imports Main "HOL-Library.Word" "HOL-Library.Finite_Map" "HOL-Library.Signed_Division"
    "HOL-Library.Sublist"
begin

text \<open>
  Shared vocabulary of the development: bytes, Go's clock values and truncating
  integer division, results that may panic, and the lemmas on lists and finite maps that
  several components use.

  A Go \<open>map[K]V\<close> is an \<open>fmap\<close> (finite map) throughout. Two components, the trace
  buffer and the trigger evaluator, pair such a map with a slice of its keys in eviction
  order; \<open>order_ok\<close> states how the two agree, and the lemmas about it carry both
  components' invariants.
\<close>

named_theorems go_defs "definitions unfolded together when a Go operation is evaluated"
named_theorems order_simps "facts about a finite map and the list of its keys"

section \<open>Bytes, panics and clock values\<close>

type_synonym byte = "8 word"

text \<open>\<open>Inl msg\<close> is a run-time panic or an error with its message; \<open>Inr v\<close> a normal return.\<close>

type_synonym 'a go_result = "string + 'a"

text \<open>
  A \<open>time.Time\<close> is the number of nanoseconds since the Unix epoch and a
  \<open>time.Duration\<close> a number of nanoseconds. Wall clock and monotonic clock are read as one
  time line. \<open>time.Time{}\<close>, the zero value, is 1 January of year 1.
\<close>

type_synonym time = int
type_synonym duration = int

definition second :: duration where "second = 1000000000"
definition millisecond :: duration where "millisecond = 1000000"
definition minute :: duration where "minute = 60 * second"
definition hour :: duration where "hour = 60 * minute"

definition zero_time :: time where
  "zero_time = - 62135596800 * second"

lemmas duration_defs = second_def millisecond_def minute_def hour_def

definition max_i64 :: int where "max_i64 = 2 ^ 63 - 1"
definition min_i64 :: int where "min_i64 = - (2 ^ 63)"

text \<open>\<open>Time.Sub\<close> saturates at the largest and smallest duration.\<close>

definition time_sub :: "time \<Rightarrow> time \<Rightarrow> duration" where
  "time_sub t u = max min_i64 (min max_i64 (t - u))"

text \<open>\<open>Time.UnixMilli\<close> floors; \<open>Time.UnixNano\<close> is taken modulo $2^{64}$ by its callers.\<close>

definition unix_milli :: "time \<Rightarrow> int" where
  "unix_milli t = t div 1000000"

lemma time_sub_gt: "d < max_i64 \<Longrightarrow> min_i64 \<le> d \<Longrightarrow> time_sub t u > d \<longleftrightarrow> t - u > d"
  by (auto simp: time_sub_def)

section \<open>Truncating division\<close>

text \<open>Go's \<open>/\<close> and \<open>%\<close> on signed integers are \<open>sdiv\<close> and \<open>smod\<close>.\<close>

lemma sdiv_nonneg [simp]: "0 \<le> a \<Longrightarrow> 0 < b \<Longrightarrow> (a::int) sdiv b = a div b"
  by (cases "a = 0") (simp_all add: signed_divide_int_def sgn_mult)

lemma smod_nonneg [simp]: "0 \<le> a \<Longrightarrow> 0 < b \<Longrightarrow> (a::int) smod b = a mod b"
  by (cases "a = 0") (simp_all add: signed_modulo_int_def sgn_mult)

section \<open>Lists\<close>

lemma remove1_filter: "distinct xs \<Longrightarrow> remove1 x xs = filter (\<lambda>y. y \<noteq> x) xs"
  by (induction xs) (auto intro: filter_True [symmetric])

lemma sum_list_remove1_int:
  "x \<in> set xs \<Longrightarrow> sum_list (map f (remove1 x xs)) = sum_list (map f xs) - (f x :: int)"
  by (induction xs) auto

lemma nth_list_update_if: "xs[b := x] ! i = (if i = b \<and> b < length xs then x else xs ! i)"
  by (auto simp: list_update_beyond)

lemma sum_list_map_cong: "(\<And>x. x \<in> set xs \<Longrightarrow> f x = g x) \<Longrightarrow> sum_list (map f xs) = sum_list (map g xs)"
  by (metis map_eq_conv)

lemma sum_list_nonneg_int: "(\<And>x. x \<in> set xs \<Longrightarrow> 0 \<le> f x) \<Longrightarrow> 0 \<le> sum_list (map f xs :: int list)"
  by (induction xs) auto

section \<open>A finite map and the order of its keys\<close>

definition order_ok :: "('k, 'v) fmap \<Rightarrow> 'k list \<Rightarrow> bool" where
  "order_ok m ks \<longleftrightarrow> distinct ks \<and> set ks = fset (fmdom m)"

lemma order_ok_distinct [order_simps]: "order_ok m ks \<Longrightarrow> distinct ks"
  by (simp add: order_ok_def)

lemma order_ok_mem: "order_ok m ks \<Longrightarrow> k \<in> set ks \<longleftrightarrow> fmlookup m k \<noteq> None"
  by (auto simp: order_ok_def intro: fmdomI)

lemma order_ok_empty [simp]: "order_ok fmempty []"
  by (simp add: order_ok_def)

lemma order_ok_fcard: "order_ok m ks \<Longrightarrow> fcard (fmdom m) = length ks"
  by (metis order_ok_def fcard.rep_eq distinct_card)

lemma order_ok_add: "order_ok m ks \<Longrightarrow> fmlookup m k = None \<Longrightarrow> order_ok (fmupd k v m) (ks @ [k])"
  by (auto simp: order_ok_def)

lemma order_ok_upd: "order_ok m ks \<Longrightarrow> fmlookup m k \<noteq> None \<Longrightarrow> order_ok (fmupd k v m) ks"
  by (auto simp: order_ok_def intro: fmdomI)

lemma order_ok_drop: "order_ok m ks \<Longrightarrow> order_ok (fmdrop k m) (remove1 k ks)"
  by (auto simp: order_ok_def)

lemma order_ok_tl: "order_ok m (k # ks) \<Longrightarrow> order_ok (fmdrop k m) ks"
  using order_ok_drop [of m "k # ks" k] by simp

lemma order_ok_rotate: "order_ok m ks \<Longrightarrow> k \<in> set ks \<Longrightarrow> order_ok m (remove1 k ks @ [k])"
  by (auto simp: order_ok_def)

lemma order_ok_filter: "order_ok m ks \<Longrightarrow> order_ok (fmfilter P m) (filter P ks)"
  by (auto simp: order_ok_def)

lemma order_ok_all: "order_ok m ks \<Longrightarrow> fmfilter (\<lambda>k. k \<in> set ks) m = m"
  by (intro fmfilter_true) (auto simp: order_ok_mem)

lemma order_ok_drop_n: "order_ok m ks \<Longrightarrow> order_ok (fmfilter (\<lambda>k. k \<in> set (drop n ks)) m) (drop n ks)"
  by (auto simp: order_ok_def dest: in_set_dropD)

section \<open>The last entries of a list\<close>

definition last_n :: "nat \<Rightarrow> 'a list \<Rightarrow> 'a list" where
  "last_n n xs = drop (length xs - n) xs"

lemma length_last_n [simp]: "length (last_n n xs) = min n (length xs)"
  by (simp add: last_n_def)

lemma last_n_last_n [simp]: "last_n n (last_n n xs) = last_n n xs"
  by (simp add: last_n_def)

lemma last_n_all [simp]: "length xs \<le> n \<Longrightarrow> last_n n xs = xs"
  by (simp add: last_n_def)

lemma last_n_append: "last_n n (xs @ ys) = (if n \<le> length ys then last_n n ys else last_n (n - length ys) xs @ ys)"
  by (simp add: last_n_def)

lemma remdups_snoc: "remdups (xs @ [x]) = filter (\<lambda>y. y \<noteq> x) (remdups xs) @ [x]"
  by (induction xs) auto

section \<open>Reachable states and invariants\<close>

text \<open>A labelled step relation, its reachable states, and what an invariant gives.\<close>

inductive reaches :: "('s \<Rightarrow> 'l \<Rightarrow> 's \<Rightarrow> bool) \<Rightarrow> 's \<Rightarrow> 's \<Rightarrow> bool" for step where
  reaches_refl: "reaches step s s"
| reaches_step: "reaches step s t \<Longrightarrow> step t l u \<Longrightarrow> reaches step s u"

inductive_cases reachesE: "reaches step s t"

locale invariant_system =
  fixes start :: "'s \<Rightarrow> bool" and step :: "'s \<Rightarrow> 'l \<Rightarrow> 's \<Rightarrow> bool" and inv :: "'s \<Rightarrow> bool"
  assumes inv_start: "start s \<Longrightarrow> inv s"
    and inv_step: "inv s \<Longrightarrow> step s l t \<Longrightarrow> inv t"
begin

lemma inv_reaches: "reaches step s t \<Longrightarrow> start s \<Longrightarrow> inv t"
  by (induction rule: reaches.induct) (auto intro: inv_start inv_step)

end

end
