(* ===== verification/Go_Float.thy ===== *)
theory Go_Float
  imports Prelude
begin

text \<open>
  Go's \<open>float64\<close>: IEEE-754 binary64 with round-to-nearest-even, on exact rationals.
  A value is a rational, an infinity or NaN; the two signed zeros are one value, which no
  operation of the program can tell apart (it divides only by positive counts).

  \<open>fl\<close> rounds a rational to 53 bits of significand with the exponent bounded below by
  that of the subnormals; \<open>f64\<close> adds overflow to infinity. Conversion of a \<open>float64\<close> to
  \<open>int64\<close> out of range and the fusing of \<open>x*y + z\<close> are left to the implementation by the
  Go specification: the released images are built for amd64 and arm64, so both behaviours
  are modelled and the architecture is an argument.
\<close>

datatype goarch = AMD64 | ARM64

datatype float64 = Fin rat | PInf | NInf | NaN

section \<open>Rounding\<close>

text \<open>Round to nearest integer, ties to even.\<close>

definition rne :: "rat \<Rightarrow> int" where
  "rne x = (let f = \<lfloor>x\<rfloor>; r = x - of_int f
            in if r < 1 / 2 then f else if 1 / 2 < r then f + 1 else if even f then f else f + 1)"

fun bit_length :: "int \<Rightarrow> nat" where
  "bit_length n = (if n \<le> 0 then 0 else Suc (bit_length (n div 2)))"

declare bit_length.simps [simp del]

text \<open>The exponent of the leading bit of a positive rational.\<close>

definition ilog2 :: "rat \<Rightarrow> int" where
  "ilog2 x = (if 1 \<le> x then int (bit_length \<lfloor>x\<rfloor>) - 1 else - int (bit_length (\<lceil>1 / x\<rceil> - 1)))"

definition ulp_exp :: "rat \<Rightarrow> int" where
  "ulp_exp x = max (ilog2 \<bar>x\<bar> - 52) (- 1074)"

definition fl :: "rat \<Rightarrow> rat" where
  "fl x = (if x = 0 then 0
           else let u = power_int 2 (ulp_exp x) in of_int (rne (x / u)) * u)"

definition f64 :: "rat \<Rightarrow> float64" where
  "f64 x = (let y = fl x in if 2 ^ 1024 \<le> y then PInf else if y \<le> - (2 ^ 1024) then NInf else Fin y)"

section \<open>Operations\<close>

definition f_of_int :: "int \<Rightarrow> float64" where
  "f_of_int n = f64 (of_int n)"

fun f_add :: "float64 \<Rightarrow> float64 \<Rightarrow> float64" where
  "f_add (Fin a) (Fin b) = f64 (a + b)"
| "f_add NaN _ = NaN"
| "f_add _ NaN = NaN"
| "f_add PInf NInf = NaN"
| "f_add NInf PInf = NaN"
| "f_add PInf _ = PInf"
| "f_add _ PInf = PInf"
| "f_add NInf _ = NInf"
| "f_add _ NInf = NInf"

fun f_neg :: "float64 \<Rightarrow> float64" where
  "f_neg (Fin a) = Fin (- a)"
| "f_neg PInf = NInf"
| "f_neg NInf = PInf"
| "f_neg NaN = NaN"

definition f_sub :: "float64 \<Rightarrow> float64 \<Rightarrow> float64" where
  "f_sub a b = f_add a (f_neg b)"

text \<open>An infinity with the sign of a non-zero rational.\<close>

definition f_inf :: "rat \<Rightarrow> float64" where
  "f_inf s = (if s = 0 then NaN else if 0 < s then PInf else NInf)"

fun f_mul :: "float64 \<Rightarrow> float64 \<Rightarrow> float64" where
  "f_mul (Fin a) (Fin b) = f64 (a * b)"
| "f_mul NaN _ = NaN"
| "f_mul _ NaN = NaN"
| "f_mul PInf (Fin b) = f_inf b"
| "f_mul (Fin a) PInf = f_inf a"
| "f_mul NInf (Fin b) = f_inf (- b)"
| "f_mul (Fin a) NInf = f_inf (- a)"
| "f_mul PInf PInf = PInf"
| "f_mul NInf NInf = PInf"
| "f_mul PInf NInf = NInf"
| "f_mul NInf PInf = NInf"

text \<open>Division of finite values, the only kind the program has.\<close>

fun f_div :: "float64 \<Rightarrow> float64 \<Rightarrow> float64" where
  "f_div (Fin a) (Fin b) = (if b = 0 then f_inf a else f64 (a / b))"
| "f_div (Fin a) NaN = NaN"
| "f_div (Fin a) _ = Fin 0"
| "f_div PInf (Fin b) = (if b < 0 then NInf else PInf)"
| "f_div NInf (Fin b) = (if b < 0 then PInf else NInf)"
| "f_div _ _ = NaN"

text \<open>Comparisons: every comparison with NaN is false.\<close>

fun f_le :: "float64 \<Rightarrow> float64 \<Rightarrow> bool" where
  "f_le NaN _ = False"
| "f_le _ NaN = False"
| "f_le NInf _ = True"
| "f_le _ PInf = True"
| "f_le (Fin a) (Fin b) = (a \<le> b)"
| "f_le _ _ = False"

fun f_lt :: "float64 \<Rightarrow> float64 \<Rightarrow> bool" where
  "f_lt NaN _ = False"
| "f_lt _ NaN = False"
| "f_lt (Fin a) (Fin b) = (a < b)"
| "f_lt NInf NInf = False"
| "f_lt NInf _ = True"
| "f_lt PInf PInf = False"
| "f_lt _ PInf = True"
| "f_lt _ _ = False"

text \<open>\<open>c += a * b\<close>: two roundings on amd64, one (a fused multiply-add) on arm64.\<close>

fun f_muladd :: "goarch \<Rightarrow> float64 \<Rightarrow> float64 \<Rightarrow> float64 \<Rightarrow> float64" where
  "f_muladd ARM64 (Fin a) (Fin b) (Fin c) = f64 (a * b + c)"
| "f_muladd _ a b c = f_add c (f_mul a b)"

text \<open>\<open>int64(x)\<close> truncates; out of range, amd64 gives the smallest integer and arm64 saturates.\<close>

definition f_trunc :: "rat \<Rightarrow> int" where
  "f_trunc q = (if 0 \<le> q then \<lfloor>q\<rfloor> else \<lceil>q\<rceil>)"

fun f_to_i64 :: "goarch \<Rightarrow> float64 \<Rightarrow> int" where
  "f_to_i64 arch (Fin q) =
     (let n = f_trunc q
      in if min_i64 \<le> n \<and> n \<le> max_i64 then n
         else case arch of AMD64 \<Rightarrow> min_i64 | ARM64 \<Rightarrow> if 0 \<le> q then max_i64 else min_i64)"
| "f_to_i64 AMD64 _ = min_i64"
| "f_to_i64 ARM64 PInf = max_i64"
| "f_to_i64 ARM64 NInf = min_i64"
| "f_to_i64 ARM64 NaN = 0"

section \<open>Rounding to an integer\<close>

lemma rne_bounds: "\<lfloor>x\<rfloor> \<le> rne x" "rne x \<le> \<lfloor>x\<rfloor> + 1"
  by (auto simp: rne_def Let_def)

lemma rne_of_int [simp]: "rne (of_int n) = n"
  by (simp add: rne_def)

lemma rne_mono:
  assumes "x \<le> y" shows "rne x \<le> rne y"
proof (cases "\<lfloor>x\<rfloor> = \<lfloor>y\<rfloor>")
  case True
  then show ?thesis using assms by (auto simp: rne_def Let_def)
next
  case False
  with floor_mono [OF assms] have "\<lfloor>x\<rfloor> + 1 \<le> \<lfloor>y\<rfloor>" by linarith
  with rne_bounds(2) [of x] rne_bounds(1) [of y] show ?thesis by linarith
qed

lemma rne_le: "x \<le> of_int n \<Longrightarrow> rne x \<le> n"
  using rne_mono [of x "of_int n"] by simp

lemma rne_ge: "of_int n \<le> x \<Longrightarrow> n \<le> rne x"
  using rne_mono [of "of_int n" x] by simp

lemma rne_minus: "rne (- x) = - rne x"
proof (cases "of_int \<lfloor>x\<rfloor> = x")
  case True
  then show ?thesis by (metis of_int_minus rne_of_int)
next
  case False
  then have "\<lfloor>- x\<rfloor> = - \<lfloor>x\<rfloor> - 1"
    by (simp add: floor_minus ceiling_altdef)
  with False show ?thesis
    by (auto simp: rne_def Let_def)
qed

section \<open>The leading bit\<close>

lemma bit_length_bounds: "0 < n \<Longrightarrow> 0 < bit_length n \<and> 2 ^ (bit_length n - 1) \<le> n \<and> n < 2 ^ bit_length n"
proof (induction n rule: bit_length.induct)
  case (1 n)
  show ?case
  proof (cases "n = 1")
    case True
    then show ?thesis by (simp add: bit_length.simps)
  next
    case False
    with "1.prems" have p: "0 < n div 2" by auto
    with "1" have ih: "0 < bit_length (n div 2)" "2 ^ (bit_length (n div 2) - 1) \<le> n div 2"
      "n div 2 < 2 ^ bit_length (n div 2)" by auto
    have eq: "bit_length n = Suc (bit_length (n div 2))"
      using "1.prems" by (simp add: bit_length.simps [of n])
    define p where "p = (2::int) ^ (bit_length (n div 2) - 1)"
    have p2: "2 ^ bit_length (n div 2) = 2 * p"
      using ih(1) unfolding p_def by (simp flip: power_Suc)
    from ih(2,3) have "2 * p \<le> n" "n < 2 * (2 * p)" unfolding p2 p_def [symmetric] by linarith+
    then show ?thesis unfolding eq by (simp add: p2)
  qed
qed

lemma ilog2_bounds:
  assumes "0 < x"
  shows "power_int 2 (ilog2 x) \<le> x" "x < power_int 2 (ilog2 x + 1)"
proof -
  have "power_int 2 (ilog2 x) \<le> x \<and> x < power_int 2 (ilog2 x + 1)"
  proof (cases "1 \<le> x")
    case True
    define b where "b = bit_length \<lfloor>x\<rfloor>"
    from True have "0 < \<lfloor>x\<rfloor>" by simp
    from bit_length_bounds [OF this] have b: "0 < b" "2 ^ (b - 1) \<le> \<lfloor>x\<rfloor>" "\<lfloor>x\<rfloor> < 2 ^ b"
      by (auto simp: b_def)
    have "of_int (2 ^ (b - 1)) \<le> x" using b(2) by (simp only: le_floor_iff)
    moreover have "x < of_int (2 ^ b)" using b(3) by (simp only: floor_less_iff)
    moreover have "ilog2 x = int (b - 1)" "ilog2 x + 1 = int b"
      using True b(1) by (simp_all add: ilog2_def b_def [symmetric])
    ultimately show ?thesis by (simp only: power_int_of_nat) simp
  next
    case False
    define b where "b = bit_length (\<lceil>1 / x\<rceil> - 1)"
    have "1 < 1 / x" using assms False by (simp add: field_simps)
    then have "0 < \<lceil>1 / x\<rceil> - 1" by linarith
    from bit_length_bounds [OF this] have b: "0 < b" "2 ^ (b - 1) < \<lceil>1 / x\<rceil>" "\<lceil>1 / x\<rceil> \<le> 2 ^ b"
      by (auto simp: b_def)
    have "of_int (2 ^ (b - 1)) < 1 / x" using b(2) by (simp only: less_ceiling_iff)
    then have "x < inverse (2 ^ (b - 1))" using assms by (simp add: field_simps)
    moreover have "1 / x \<le> of_int (2 ^ b)" using b(3) by (simp only: ceiling_le_iff)
    then have "inverse (2 ^ b) \<le> x" using assms by (simp add: field_simps)
    moreover have "ilog2 x = - int b" "ilog2 x + 1 = - int (b - 1)"
      using False b(1) by (simp_all add: ilog2_def b_def [symmetric])
    ultimately show ?thesis by (simp only: power_int_minus power_int_of_nat less_imp_le)
  qed
  then show "power_int 2 (ilog2 x) \<le> x" "x < power_int 2 (ilog2 x + 1)" by auto
qed


lemma powi2_pos [simp]: "0 < (power_int 2 e :: rat)"
  by (simp add: zero_less_power_int)

lemma powi2_mono: "a \<le> b \<Longrightarrow> power_int 2 a \<le> (power_int 2 b :: rat)"
  by (rule power_int_increasing) simp_all

lemma powi2_lessD: "power_int 2 a < (power_int 2 b :: rat) \<Longrightarrow> a < b"
  using powi2_mono [of b a] by (meson linorder_not_le)

lemma ilog2_less:
  assumes "0 < x" "x < power_int 2 e" shows "ilog2 x < e"
proof -
  have "power_int 2 (ilog2 x) < (power_int 2 e :: rat)"
    using ilog2_bounds(1) [OF assms(1)] assms(2) by (rule le_less_trans)
  then show ?thesis by (rule powi2_lessD)
qed

lemma ilog2_mono:
  assumes "0 < x" "x \<le> y" shows "ilog2 x \<le> ilog2 y"
proof -
  have "x < power_int 2 (ilog2 y + 1)"
    using ilog2_bounds(2) [of y] assms by simp
  from ilog2_less [OF assms(1) this] show ?thesis by simp
qed

section \<open>Rounding to 53 bits\<close>

lemma fl_0 [simp]: "fl 0 = 0"
  by (simp add: fl_def)

lemma fl_minus [simp]: "fl (- x) = - fl x"
  by (simp add: fl_def Let_def ulp_exp_def rne_minus flip: minus_divide_left)

lemma fl_eq: "x \<noteq> 0 \<Longrightarrow> fl x = of_int (rne (x / power_int 2 (ulp_exp x))) * power_int 2 (ulp_exp x)"
  by (simp add: fl_def Let_def)

lemma fl_le_grid:
  assumes "x \<noteq> 0" "x \<le> of_int m * power_int 2 (ulp_exp x)"
  shows "fl x \<le> of_int m * power_int 2 (ulp_exp x)"
proof -
  have "x / power_int 2 (ulp_exp x) \<le> of_int m"
    using assms(2) by (simp add: divide_le_eq)
  then have "rne (x / power_int 2 (ulp_exp x)) \<le> m" by (rule rne_le)
  then show ?thesis using assms(1) by (simp add: fl_eq)
qed

lemma fl_ge_grid:
  assumes "x \<noteq> 0" "of_int m * power_int 2 (ulp_exp x) \<le> x"
  shows "of_int m * power_int 2 (ulp_exp x) \<le> fl x"
proof -
  have "of_int m \<le> x / power_int 2 (ulp_exp x)"
    using assms(2) by (simp add: le_divide_eq)
  then have "m \<le> rne (x / power_int 2 (ulp_exp x))" by (rule rne_ge)
  then show ?thesis using assms(1) by (simp add: fl_eq)
qed

lemma powi2_shift: "power_int 2 (e + int n) = 2 ^ n * (power_int 2 e :: rat)"
  by (simp add: power_int_add)

lemma fl_pos_le: "0 < x \<Longrightarrow> fl x \<le> power_int 2 (ulp_exp x + 53)"
proof -
  assume x: "0 < x"
  have "x \<le> power_int 2 (ilog2 x + 1)" using ilog2_bounds(2) [OF x] by simp
  also have "\<dots> \<le> power_int 2 (ulp_exp x + 53)"
    using x by (intro powi2_mono) (simp add: ulp_exp_def)
  finally have "x \<le> of_int (2 ^ 53) * power_int 2 (ulp_exp x)"
    using powi2_shift [of "ulp_exp x" 53] by simp
  with x have "fl x \<le> of_int (2 ^ 53) * power_int 2 (ulp_exp x)" by (intro fl_le_grid) auto
  then show ?thesis using powi2_shift [of "ulp_exp x" 53] by simp
qed

lemma fl_mono_pos:
  assumes x: "0 < x" and y: "x \<le> y"
  shows "fl x \<le> fl y"
proof (cases "ulp_exp x = ulp_exp y")
  case True
  have "rne (x / power_int 2 (ulp_exp y)) \<le> rne (y / power_int 2 (ulp_exp y))"
    using y by (intro rne_mono) (simp add: divide_right_mono)
  then show ?thesis using x y True by (simp add: fl_eq)
next
  case False
  have "ulp_exp x \<le> ulp_exp y"
    using ilog2_mono [OF x y] x y by (auto simp: ulp_exp_def)
  with False have lt: "ulp_exp x + 1 \<le> ulp_exp y" by simp
  then have ey: "ulp_exp y = ilog2 y - 52"
    using x y by (auto simp: ulp_exp_def)
  have "power_int 2 (ulp_exp y + 52) \<le> y"
    using ilog2_bounds(1) [of y] x y by (simp add: ey)
  then have "of_int (2 ^ 52) * power_int 2 (ulp_exp y) \<le> y"
    using powi2_shift [of "ulp_exp y" 52] by simp
  then have "of_int (2 ^ 52) * power_int 2 (ulp_exp y) \<le> fl y"
    using x y by (intro fl_ge_grid) auto
  then have "power_int 2 (ulp_exp y + 52) \<le> fl y"
    using powi2_shift [of "ulp_exp y" 52] by simp
  moreover have "power_int 2 (ulp_exp x + 53) \<le> (power_int 2 (ulp_exp y + 52) :: rat)"
    using lt by (intro powi2_mono) simp
  ultimately show ?thesis using fl_pos_le [OF x] by linarith
qed

lemma fl_nonneg: "0 \<le> x \<Longrightarrow> 0 \<le> fl x"
proof (cases "x = 0")
  case False
  moreover assume "0 \<le> x"
  ultimately show ?thesis using fl_ge_grid [of x 0] by simp
qed simp

lemma fl_nonpos: "x \<le> 0 \<Longrightarrow> fl x \<le> 0"
  using fl_nonneg [of "- x"] by simp

lemma fl_mono: assumes "x \<le> y" shows "fl x \<le> fl y"
proof -
  consider "0 < x" | "x \<le> 0" "0 \<le> y" | "y < 0" using assms by linarith
  then show ?thesis
  proof cases
    case 1 then show ?thesis using assms by (rule fl_mono_pos)
  next
    case 2 then show ?thesis using fl_nonpos fl_nonneg order_trans by blast
  next
    case 3 then show ?thesis using fl_mono_pos [of "- y" "- x"] assms by simp
  qed
qed


text \<open>A value on a grid at least as coarse as its own is exact.\<close>

lemma fl_exact:
  assumes "x = of_int m * power_int 2 e" "ulp_exp x \<le> e"
  shows "fl x = x"
proof (cases "x = 0")
  case False
  let ?u = "ulp_exp x"
  define n where "n = nat (e - ?u)"
  have e: "e = ?u + int n" using assms(2) by (simp add: n_def)
  have "power_int 2 e = 2 ^ n * (power_int 2 ?u :: rat)" unfolding e by (rule powi2_shift)
  then have "x = of_int (m * 2 ^ n) * power_int 2 ?u" unfolding assms(1) by simp
  then have "x / power_int 2 ?u = of_int (m * 2 ^ n)"
    by (simp add: divide_eq_eq)
  with False have "fl x = of_int (m * 2 ^ n) * power_int 2 ?u"
    by (simp only: fl_eq rne_of_int not_False_eq_True)
  then show ?thesis using \<open>x = of_int (m * 2 ^ n) * _\<close> by simp
qed simp

lemma fl_grid_less:
  assumes "\<bar>m\<bar> < 2 ^ 53" "- 1074 \<le> e"
  shows "fl (of_int m * power_int 2 e) = of_int m * power_int 2 e"
proof (cases "m = 0")
  case False
  let ?x = "of_int m * power_int 2 e :: rat"
  have "\<bar>of_int m\<bar> < (2 ^ 53 :: rat)"
    using assms(1) by (metis of_int_abs of_int_less_iff of_int_numeral of_int_power)
  then have "\<bar>?x\<bar> < 2 ^ 53 * power_int 2 e"
    by (simp add: abs_mult)
  then have "\<bar>?x\<bar> < power_int 2 (e + 53)"
    using powi2_shift [of e 53] by simp
  then have "ilog2 \<bar>?x\<bar> < e + 53"
    using False by (intro ilog2_less) auto
  then have "ulp_exp ?x \<le> e" using assms(2) by (simp add: ulp_exp_def)
  then show ?thesis by (rule fl_exact [OF refl])
qed simp

lemma fl_grid:
  assumes "\<bar>m\<bar> \<le> 2 ^ 53" "- 1074 \<le> e"
  shows "fl (of_int m * power_int 2 e) = of_int m * power_int 2 e"
proof -
  have big: "fl (of_int (2 ^ 53) * power_int 2 e) = of_int (2 ^ 53) * power_int 2 e"
    using fl_grid_less [of 1 "e + 53"] assms(2) powi2_shift [of e 53] by simp
  consider "\<bar>m\<bar> < 2 ^ 53" | "m = 2 ^ 53" | "m = - (2 ^ 53)" using assms(1) by linarith
  then show ?thesis
  proof cases
    case 1 then show ?thesis using assms(2) by (rule fl_grid_less)
  next
    case 2 then show ?thesis using big by simp
  next
    case 3 then show ?thesis using big fl_minus [of "of_int (2 ^ 53) * power_int 2 e"] by simp
  qed
qed

lemma fl_of_int: "\<bar>n\<bar> \<le> 2 ^ 53 \<Longrightarrow> fl (of_int n) = of_int n"
  using fl_grid [of n 0] by simp

lemma fl_powi2: "- 1074 \<le> e \<Longrightarrow> fl (power_int 2 e) = power_int 2 e"
  using fl_grid [of 1 e] by simp

lemma fl_le: "x \<le> y \<Longrightarrow> fl y = y \<Longrightarrow> fl x \<le> y"
  using fl_mono [of x y] by simp

lemma fl_ge: "y \<le> x \<Longrightarrow> fl y = y \<Longrightarrow> y \<le> fl x"
  using fl_mono [of y x] by simp

lemma rne_abs_le:
  assumes "\<bar>x\<bar> \<le> of_int n" shows "\<bar>rne x\<bar> \<le> n"
  using assms rne_le [of x n] rne_ge [of "- n" x] by (auto simp: abs_le_iff minus_le_iff)

text \<open>Every rounded value is a multiple of a unit in the last place, so rounding is idempotent.\<close>

lemma fl_form:
  assumes "x \<noteq> 0"
  obtains m where "fl x = of_int m * power_int 2 (ulp_exp x)" "\<bar>m\<bar> \<le> 2 ^ 53"
proof
  let ?u = "ulp_exp x"
  show "fl x = of_int (rne (x / power_int 2 ?u)) * power_int 2 ?u" using assms by (rule fl_eq)
  have "\<bar>x\<bar> \<le> power_int 2 (ilog2 \<bar>x\<bar> + 1)" using ilog2_bounds(2) [of "\<bar>x\<bar>"] assms by simp
  also have "\<dots> \<le> power_int 2 (?u + 53)" by (intro powi2_mono) (simp add: ulp_exp_def)
  finally have "\<bar>x / power_int 2 ?u\<bar> \<le> of_int (2 ^ 53)"
    using powi2_shift [of ?u 53] by (simp add: abs_divide divide_le_eq)
  then show "\<bar>rne (x / power_int 2 ?u)\<bar> \<le> 2 ^ 53" by (rule rne_abs_le)
qed

lemma ulp_exp_ge: "- 1074 \<le> ulp_exp x"
  by (simp add: ulp_exp_def)

lemma fl_fl [simp]: "fl (fl x) = fl x"
proof (cases "x = 0")
  case False
  then obtain m where m: "fl x = of_int m * power_int 2 (ulp_exp x)" "\<bar>m\<bar> \<le> 2 ^ 53" by (rule fl_form)
  show ?thesis using fl_grid [OF m(2) ulp_exp_ge] by (simp add: m(1))
qed simp

text \<open>Halving a normal number is exact; rounding at most doubles.\<close>

lemma fl_half:
  assumes x: "fl x = x" and big: "power_int 2 (- 1000) \<le> x"
  shows "fl (x / 2) = x / 2"
proof -
  have pos: "0 < x" using powi2_pos [of "- 1000"] big by linarith
  then obtain m where m: "fl x = of_int m * power_int 2 (ulp_exp x)" "\<bar>m\<bar> \<le> 2 ^ 53"
    using fl_form by (metis less_irrefl)
  have "power_int 2 (- 1000) < (power_int 2 (ilog2 x + 1) :: rat)"
    using big ilog2_bounds(2) [OF pos] by linarith
  then have "- 1000 < ilog2 x + 1" by (rule powi2_lessD)
  then have u: "- 1074 \<le> ulp_exp x - 1" using pos by (simp add: ulp_exp_def)
  have "x / 2 = of_int m * power_int 2 (ulp_exp x - 1)"
    using m(1) x by (simp add: power_int_diff)
  then show ?thesis using fl_grid [OF m(2) u] by metis
qed

lemma fl_le_double:
  assumes "0 < x" "power_int 2 (- 1074) \<le> x" shows "fl x \<le> 2 * x"
proof -
  have "power_int 2 (- 1074) < (power_int 2 (ilog2 x + 1) :: rat)"
    using assms ilog2_bounds(2) [OF assms(1)] by linarith
  then have "- 1074 < ilog2 x + 1" by (rule powi2_lessD)
  then have "fl x \<le> power_int 2 (ilog2 x + 1)"
    using ilog2_bounds(2) [OF assms(1)] by (intro fl_le fl_powi2) auto
  also have "\<dots> = 2 * power_int 2 (ilog2 x)" by (simp add: power_int_add)
  also have "\<dots> \<le> 2 * x" using ilog2_bounds(1) [OF assms(1)] by simp
  finally show ?thesis .
qed


section \<open>Moving a value a fraction of the way to another\<close>

text \<open>
  \<open>e += a * (d - e)\<close> with \<open>0 \<le> a \<le> 1/2\<close> stays between \<open>e\<close> and \<open>d\<close>, with two
  roundings or with one: the exponentially weighted averages of the trigger windows rest
  on this.
\<close>

lemma grid52:
  assumes "fl q = q" "1 \<le> q"
  obtains k where "q = of_int k * power_int 2 (- 52)"
proof -
  from assms obtain m where m: "q = of_int m * power_int 2 (ulp_exp q)"
    using fl_form by (metis not_one_le_zero)
  have "power_int 2 0 < (power_int 2 (ilog2 q + 1) :: rat)"
    using assms(2) ilog2_bounds(2) [of q] by simp
  then have "0 < ilog2 q + 1" by (rule powi2_lessD)
  then have u: "ulp_exp q = - 52 + int (nat (ulp_exp q + 52))" using assms(2) by (simp add: ulp_exp_def)
  then have "power_int 2 (ulp_exp q) = 2 ^ nat (ulp_exp q + 52) * (power_int 2 (- 52) :: rat)"
    by (metis powi2_shift)
  with m have "q = of_int m * (2 ^ nat (ulp_exp q + 52) * power_int 2 (- 52))" by metis
  then have "q = of_int (m * 2 ^ nat (ulp_exp q + 52)) * power_int 2 (- 52)" by simp
  then show thesis by (rule that)
qed

lemma grid52_gap:
  assumes "fl e = e" "1 \<le> e" "fl d = d" "1 \<le> d" "e < d"
  shows "power_int 2 (- 52) \<le> d - e"
proof -
  from assms(1,2) obtain j where j: "e = of_int j * power_int 2 (- 52)" by (rule grid52)
  from assms(3,4) obtain k where k: "d = of_int k * power_int 2 (- 52)" by (rule grid52)
  from assms(5) have "j < k" unfolding j k by simp
  then have "1 \<le> (of_int (k - j) :: rat)" by (metis of_int_1_le_iff zless_imp_add1_zle add.commute le_diff_eq)
  then have "1 * power_int 2 (- 52) \<le> of_int (k - j) * (power_int 2 (- 52) :: rat)"
    by (rule mult_right_mono) (simp add: less_imp_le)
  then show ?thesis unfolding j k by (simp add: left_diff_distrib)
qed

lemma ewma_step_bounds:
  assumes "fl e = e" "1 \<le> e" "fl d = d" "1 \<le> d" "e < d" "0 \<le> a" "a \<le> 1 / 2"
  shows "0 \<le> a * fl (d - e)" "a * fl (d - e) \<le> d - e" "0 \<le> fl (a * fl (d - e))" "fl (a * fl (d - e)) \<le> d - e"
proof -
  let ?x = "fl (d - e)"
  have gap: "power_int 2 (- 52) \<le> d - e" using assms(1-5) by (rule grid52_gap)
  have "power_int 2 (- 1000) \<le> (power_int 2 (- 52) :: rat)" by (rule powi2_mono) simp
  moreover have "power_int 2 (- 52) \<le> ?x" using gap by (rule fl_ge) (rule fl_powi2, simp)
  ultimately have big: "power_int 2 (- 1000) \<le> ?x" by linarith
  have "power_int 2 (- 1074) \<le> (power_int 2 (- 52) :: rat)" by (rule powi2_mono) simp
  then have dbl: "?x \<le> 2 * (d - e)" using gap assms(5) by (intro fl_le_double) linarith+
  have x0: "0 \<le> ?x" using assms(5) by (intro fl_nonneg) simp
  have ax: "a * ?x \<le> ?x / 2" using mult_right_mono [OF assms(7) x0] by simp
  show "0 \<le> a * ?x" using assms(6) x0 by simp
  then show "0 \<le> fl (a * ?x)" by (rule fl_nonneg)
  have half: "?x / 2 \<le> d - e" using dbl by simp
  with ax show "a * ?x \<le> d - e" by (rule order_trans)
  have "fl (a * ?x) \<le> ?x / 2" using ax fl_half [OF fl_fl big] by (rule fl_le)
  then show "fl (a * ?x) \<le> d - e" using half by (rule order_trans)
qed

lemma ewma_between:
  assumes e: "fl e = e" "1 \<le> e" and d: "fl d = d" "1 \<le> d" and a: "0 \<le> a" "a \<le> 1 / 2"
  shows "min e d \<le> fl (e + fl (a * fl (d - e)))" "fl (e + fl (a * fl (d - e))) \<le> max e d"
    and "min e d \<le> fl (a * fl (d - e) + e)" "fl (a * fl (d - e) + e) \<le> max e d"
proof -
  have "min e d \<le> fl (e + fl (a * fl (d - e))) \<and> fl (e + fl (a * fl (d - e))) \<le> max e d \<and>
        min e d \<le> fl (a * fl (d - e) + e) \<and> fl (a * fl (d - e) + e) \<le> max e d"
  proof -
    consider "e = d" | "e < d" | "d < e" by linarith
    then show ?thesis
    proof cases
      case 1 then show ?thesis using e by simp
    next
      case 2
      note b = ewma_step_bounds [OF e d 2 a]
      have "e \<le> fl (e + fl (a * fl (d - e)))" using b e by (intro fl_ge) auto
      moreover have "fl (e + fl (a * fl (d - e))) \<le> d" using b d by (intro fl_le) auto
      moreover have "e \<le> fl (a * fl (d - e) + e)" using b e by (intro fl_ge) auto
      moreover have "fl (a * fl (d - e) + e) \<le> d" using b d by (intro fl_le) auto
      ultimately show ?thesis using 2 by simp
    next
      case 3
      note b = ewma_step_bounds [OF d e 3 a]
      have neg: "fl (d - e) = - fl (e - d)" using fl_minus [of "e - d"] by simp
      have "d \<le> fl (e - fl (a * fl (e - d)))" using b d by (intro fl_ge) auto
      moreover have "fl (e - fl (a * fl (e - d))) \<le> e" using b e by (intro fl_le) auto
      moreover have "d \<le> fl (e - a * fl (e - d))" using b d by (intro fl_ge) auto
      moreover have "fl (e - a * fl (e - d)) \<le> e" using b e by (intro fl_le) auto
      ultimately show ?thesis using 3 by (simp add: neg)
    qed
  qed
  then show "min e d \<le> fl (e + fl (a * fl (d - e)))" "fl (e + fl (a * fl (d - e))) \<le> max e d"
    "min e d \<le> fl (a * fl (d - e) + e)" "fl (a * fl (d - e) + e) \<le> max e d" by blast+
qed


section \<open>No overflow below $2^{1000}$\<close>

lemma f64_Fin:
  assumes "\<bar>x\<bar> \<le> 2 ^ 1000" shows "f64 x = Fin (fl x)"
proof -
  have p: "fl (2 ^ 1000) = 2 ^ 1000" using fl_powi2 [of 1000] by simp
  have lt: "(2 ^ 1000 :: rat) < 2 ^ 1024" by (rule power_strict_increasing) simp_all
  have "fl x \<le> 2 ^ 1000" using assms by (intro fl_le p) simp
  moreover have "- fl x \<le> 2 ^ 1000" unfolding fl_minus [symmetric] using assms by (intro fl_le p) simp
  ultimately have "fl x < 2 ^ 1024" "- fl x < 2 ^ 1024" using lt by (meson le_less_trans)+
  then have "\<not> 2 ^ 1024 \<le> fl x" "\<not> fl x \<le> - (2 ^ 1024)" by (auto simp only: not_le less_minus_iff)
  then show ?thesis by (simp only: f64_def Let_def if_False)
qed

lemma le_2_1000: "x \<le> 2 ^ 100 \<Longrightarrow> x \<le> (2 ^ 1000 :: rat)"
  by (erule order_trans, rule power_increasing) simp_all

lemma le_2_1000': "x \<le> 2 * 2 ^ 60 \<Longrightarrow> x \<le> (2 ^ 1000 :: rat)"
  by (rule le_2_1000) simp

lemma f_of_int_Fin: "\<bar>n\<bar> \<le> 2 ^ 53 \<Longrightarrow> f_of_int n = Fin (of_int n)"
  unfolding f_of_int_def
  by (subst f64_Fin)
    (auto simp: fl_of_int intro!: le_2_1000 order_trans [of _ "of_int (2 ^ 53)"] simp flip: of_int_abs simp del: of_int_power)


section \<open>Rounding error of fractions\<close>

lemma rne_error: "\<bar>of_int (rne x) - x\<bar> \<le> 1 / 2"
proof -
  have "of_int \<lfloor>x\<rfloor> \<le> x" "x < of_int \<lfloor>x\<rfloor> + 1" by linarith+
  then show ?thesis by (auto simp: rne_def Let_def abs_le_iff)
qed

lemma fl_error_unit:
  assumes "0 \<le> x" "x \<le> 1" shows "\<bar>fl x - x\<bar> \<le> power_int 2 (- 54)"
proof -
  consider "x = 0" | "x = 1" | "0 < x" "x < 1" using assms by linarith
  then show ?thesis
  proof cases
    case 3
    let ?u = "ulp_exp x"
    have "ilog2 x < 0" using 3 by (intro ilog2_less) simp_all
    then have u: "?u \<le> - 53" using 3 by (simp add: ulp_exp_def)
    have "\<bar>fl x - x\<bar> = \<bar>of_int (rne (x / power_int 2 ?u)) - x / power_int 2 ?u\<bar> * power_int 2 ?u"
    proof -
      have "fl x - x = (of_int (rne (x / power_int 2 ?u)) - x / power_int 2 ?u) * power_int 2 ?u"
        using 3 by (simp add: fl_eq left_diff_distrib)
      then show ?thesis by (simp only: abs_mult) simp
    qed
    also have "\<dots> \<le> 1 / 2 * power_int 2 (- 53)"
      using rne_error powi2_mono [OF u] by (intro mult_mono) simp_all
    also have "\<dots> = power_int 2 (- 54)" by (simp add: power_int_minus)
    finally show ?thesis .
  qed (use fl_of_int [of 1] in simp_all)
qed

lemma fl_separates:
  assumes "0 \<le> x" "y \<le> 1" "power_int 2 (- 53) < y - x" shows "fl x < fl y"
proof -
  have xy: "x < y" using assms(3) powi2_pos [of "- 53"] by linarith
  have "\<bar>fl x - x\<bar> \<le> power_int 2 (- 54)"
    by (rule fl_error_unit) (use xy assms(1,2) in linarith)+
  moreover have "\<bar>fl y - y\<bar> \<le> power_int 2 (- 54)"
    by (rule fl_error_unit) (use xy assms(1,2) in linarith)+
  ultimately have "fl x \<le> x + power_int 2 (- 54)" "y - power_int 2 (- 54) \<le> fl y"
    unfolding abs_le_iff by linarith+
  moreover have "2 * power_int 2 (- 54) = (power_int 2 (- 53) :: rat)" by (simp add: power_int_minus)
  ultimately show ?thesis using assms(3) by linarith
qed

text \<open>
  Comparing a rounded quotient of counts with a rounded decimal threshold decides the exact
  comparison, for every count below $2^{40}$.
\<close>

lemma rate_ge_threshold:
  assumes "0 \<le> h" "h \<le> t" "0 < t" "t < 2 ^ 40" "0 < p" "p \<le> 100"
  shows "f_le (f64 (of_int p / 100)) (f_div (f_of_int h) (f_of_int t)) \<longleftrightarrow> p * t \<le> 100 * h"
proof -
  let ?q = "of_int h / of_int t :: rat" let ?p = "of_int p / 100 :: rat"
  have hF: "f_of_int h = Fin (of_int h)" "f_of_int t = Fin (of_int t)" using assms by (auto intro: f_of_int_Fin)
  have q: "0 \<le> ?q" "?q \<le> 1" using assms by (simp_all add: divide_le_eq)
  have p: "0 < ?p" "?p \<le> 1" using assms(5,6) by simp_all
  have "f64 ?q = Fin (fl ?q)" "f64 ?p = Fin (fl ?p)" using q p by (auto intro!: f64_Fin le_2_1000')
  then have lhs: "f_le (f64 ?p) (f_div (f_of_int h) (f_of_int t)) \<longleftrightarrow> fl ?p \<le> fl ?q"
    using assms(3) hF by simp
  have cmp: "?p \<le> ?q \<longleftrightarrow> p * t \<le> 100 * h"
  proof -
    have "?p \<le> ?q \<longleftrightarrow> of_int p * of_int t \<le> (100 * of_int h :: rat)" using assms(3) by (simp add: field_simps)
    also have "\<dots> \<longleftrightarrow> (of_int (p * t) :: rat) \<le> of_int (100 * h)" by simp
    finally show ?thesis by (simp only: of_int_le_iff)
  qed
  have "fl ?q < fl ?p" if "\<not> ?p \<le> ?q"
  proof (rule fl_separates)
    from that cmp have "1 \<le> p * t - 100 * h" by linarith
    then have "(1 :: rat) \<le> of_int (p * t - 100 * h)" by (simp only: of_int_1_le_iff)
    then have "1 / (100 * of_int t) \<le> (of_int p * of_int t - 100 * of_int h) / (100 * of_int t :: rat)"
      using assms(3) by (intro divide_right_mono) simp_all
    also have "\<dots> = ?p - ?q" using assms(3) by (simp add: field_simps)
    finally have gap: "1 / (100 * of_int t) \<le> ?p - ?q" .
    have "(of_int t :: rat) < of_int (2 ^ 40)" using assms(4) by (simp only: of_int_less_iff)
    then have "1 / (100 * 2 ^ 40) < (1 / (100 * of_int t) :: rat)" using assms(3) by (intro divide_strict_left_mono) simp_all
    moreover have "power_int 2 (- 53) < (1 / (100 * 2 ^ 40) :: rat)" by (simp add: power_int_minus)
    ultimately show "power_int 2 (- 53) < ?p - ?q" using gap by linarith
  qed (use q p in auto)
  with lhs cmp fl_mono [of ?p ?q] show ?thesis by (meson not_le)
qed

end
