(* ===== verification/Pdata.thy ===== *)
theory Pdata
  imports Go_Float
begin

text \<open>
  The trace data the processor handles: resource spans holding scope spans holding spans,
  with exactly the parts that the code under \<open>processor/\<close> and \<open>internal/\<close> reads. What the
  Bridge only copies (span names, events, links, the scope, the rest of the resource) is
  carried as one opaque byte string, so that copying a span is copying its value.

  The collector's \<open>pdata\<close> package itself is not part of the repository: the three of its
  functions whose results the code computes with, \<open>Value.AsString\<close>,
  \<open>Timestamp.AsTime\<close> and the protobuf and JSON marshallers, are parameters
  (\<open>pdata_api\<close> here, the codec arguments in the persister and the forwarder).
\<close>

type_synonym trace_id = "byte list"
type_synonym span_id = "byte list"

text \<open>\<open>pcommon.Value\<close> by its \<open>Type()\<close>.\<close>

datatype pvalue =
    VEmpty | VStr string | VInt int | VDouble float64 | VBool bool
  | VMap "(string \<times> pvalue) list" | VSlice "pvalue list" | VBytes "byte list"

type_synonym attrs = "(string \<times> pvalue) list"

datatype span_kind =
  SpanKindUnspecified | SpanKindInternal | SpanKindServer | SpanKindClient | SpanKindProducer | SpanKindConsumer

datatype status_code = StatusCodeUnset | StatusCodeOk | StatusCodeError

record span =
  sp_TraceID :: trace_id
  sp_SpanID :: span_id
  sp_Kind :: span_kind
  sp_StartTimestamp :: "64 word"
  sp_EndTimestamp :: "64 word"
  sp_Attributes :: attrs
  sp_Status :: status_code
  sp_rest :: "byte list"

record scope_spans =
  ss_Scope :: "byte list"
  ss_SchemaUrl :: string
  ss_Spans :: "span list"

record resource_spans =
  rs_Attributes :: attrs
  rs_rest :: "byte list"
  rs_SchemaUrl :: string
  rs_ScopeSpans :: "scope_spans list"

type_synonym traces = "resource_spans list"

record pdata_api =
  api_AsString :: "pvalue \<Rightarrow> string"
  api_AsTime :: "64 word \<Rightarrow> time"

text \<open>\<open>pcommon.Map.Get\<close>: the first entry with the key.\<close>

definition attr_get :: "attrs \<Rightarrow> string \<Rightarrow> pvalue option" where
  "attr_get as k = map_of as k"

text \<open>
  The span count that the buffer, the flush loop and \<open>Traces.SpanCount\<close> compute: the sum
  of the lengths of the span slices of every scope.
\<close>

definition rs_spanCount :: "resource_spans \<Rightarrow> int" where
  "rs_spanCount rs = sum_list (map (\<lambda>ss. int (length (ss_Spans ss))) (rs_ScopeSpans rs))"

definition rss_spanCount :: "resource_spans list \<Rightarrow> int" where
  "rss_spanCount rss = sum_list (map rs_spanCount rss)"

text \<open>Every span of a resource, in the order in which the code walks them.\<close>

definition rs_spans :: "resource_spans \<Rightarrow> span list" where
  "rs_spans rs = concat (map ss_Spans (rs_ScopeSpans rs))"

lemma sum_list_int_length: "sum_list (map (\<lambda>x. int (length (f x))) xs) = int (length (concat (map f xs)))"
  by (induction xs) auto

lemma rs_spanCount_length: "rs_spanCount rs = int (length (rs_spans rs))"
  by (simp only: rs_spanCount_def rs_spans_def sum_list_int_length)

lemma rs_spanCount_nonneg [simp]: "0 \<le> rs_spanCount rs"
  by (simp add: rs_spanCount_length)

lemma rss_spanCount_nonneg [simp]: "0 \<le> rss_spanCount rss"
  unfolding rss_spanCount_def by (rule sum_list_nonneg_int) simp

lemma rss_spanCount_simps [simp]:
  "rss_spanCount [] = 0"
  "rss_spanCount (rs # rss) = rs_spanCount rs + rss_spanCount rss"
  "rss_spanCount (xs @ ys) = rss_spanCount xs + rss_spanCount ys"
  by (simp_all add: rss_spanCount_def)

end
