(* ===== verification/Ring.thy ===== *)
theory Ring
  imports Pdata
begin

text \<open>
  The pre-alert buffer, \<open>internal/buffer/ring.go\<close>. The clock is the injected \<open>now\<close>: each
  operation takes the value it reads as an argument. The mutex makes every exported
  operation one step, so an operation is a function on the whole ring.
\<close>

record trace_entry =
  te_spans :: "resource_spans list"
  te_insertedAt :: "time list"
  te_newestAt :: time

record ring =
  r_maxSpans :: int
  r_preAlertWindow :: duration
  r_traces :: "(trace_id, trace_entry) fmap"
  r_order :: "trace_id list"
  r_count :: int

record ring_options =
  opt_MaxSpans :: int
  opt_PreAlertWindow :: duration

text \<open>\<open>New\<close>: a non-positive cap panics, a non-positive window becomes five minutes.\<close>

definition ring_New :: "ring_options \<Rightarrow> ring go_result" where
  "ring_New opts =
     (if opt_MaxSpans opts \<le> 0 then Inl ''buffer.New: MaxSpans must be > 0''
      else
        let window = (if opt_PreAlertWindow opts \<le> 0 then 5 * minute else opt_PreAlertWindow opts)
        in Inr \<lparr>r_maxSpans = opt_MaxSpans opts, r_preAlertWindow = window,
                r_traces = fmempty, r_order = [], r_count = 0\<rparr>)"

definition new_entry :: trace_entry where
  "new_entry = \<lparr>te_spans = [], te_insertedAt = [], te_newestAt = zero_time\<rparr>"

text \<open>The three parts of an entry that one insertion updates.\<close>

definition entry_append :: "time \<Rightarrow> resource_spans \<Rightarrow> trace_entry \<Rightarrow> trace_entry" where
  "entry_append now rs e =
     e\<lparr>te_spans := te_spans e @ [rs],
       te_insertedAt := te_insertedAt e @ [now],
       te_newestAt := (if te_newestAt e < now then now else te_newestAt e)\<rparr>"

text \<open>
  \<open>evictByTimeLocked\<close>: one pass over the order, dropping the traces whose newest span is
  before the cutoff and collecting the survivors.
\<close>

fun evictByTime_loop ::
  "time \<Rightarrow> trace_id list \<Rightarrow> (trace_id, trace_entry) fmap \<Rightarrow> int \<Rightarrow> trace_id list \<Rightarrow> int
   \<Rightarrow> (trace_id, trace_entry) fmap \<times> int \<times> trace_id list \<times> int" where
  "evictByTime_loop cutoff [] tr cnt survivors removed = (tr, cnt, survivors, removed)"
| "evictByTime_loop cutoff (tid # ids) tr cnt survivors removed =
     (case fmlookup tr tid of
        None \<Rightarrow> evictByTime_loop cutoff ids tr cnt survivors removed
      | Some entry \<Rightarrow>
          if te_newestAt entry < cutoff
          then evictByTime_loop cutoff ids (fmdrop tid tr) (cnt - rss_spanCount (te_spans entry))
                 survivors (removed + 1)
          else evictByTime_loop cutoff ids tr cnt (survivors @ [tid]) removed)"

definition evictByTimeLocked :: "time \<Rightarrow> ring \<Rightarrow> ring \<times> int" where
  "evictByTimeLocked now r =
     (case evictByTime_loop (now - r_preAlertWindow r) (r_order r) (r_traces r) (r_count r) [] 0 of
        (tr, cnt, survivors, removed) \<Rightarrow>
          (r\<lparr>r_traces := tr, r_order := survivors, r_count := (if cnt < 0 then 0 else cnt)\<rparr>, removed))"

text \<open>\<open>evictByCountLocked\<close>: drop whole traces from the front while over the cap.\<close>

fun evictByCount_loop ::
  "int \<Rightarrow> trace_id list \<Rightarrow> (trace_id, trace_entry) fmap \<Rightarrow> int \<Rightarrow> int
   \<Rightarrow> (trace_id, trace_entry) fmap \<times> int \<times> trace_id list \<times> int" where
  "evictByCount_loop maxSpans [] tr cnt removed = (tr, cnt, [], removed)"
| "evictByCount_loop maxSpans (oldest # ids) tr cnt removed =
     (if cnt > maxSpans
      then (case fmlookup tr oldest of
              None \<Rightarrow> evictByCount_loop maxSpans ids tr cnt removed
            | Some entry \<Rightarrow>
                evictByCount_loop maxSpans ids (fmdrop oldest tr)
                  (cnt - rss_spanCount (te_spans entry)) (removed + 1))
      else (tr, cnt, oldest # ids, removed))"

definition evictByCountLocked :: "ring \<Rightarrow> ring \<times> int" where
  "evictByCountLocked r =
     (case evictByCount_loop (r_maxSpans r) (r_order r) (r_traces r) (r_count r) 0 of
        (tr, cnt, ord, removed) \<Rightarrow> (r\<lparr>r_traces := tr, r_order := ord, r_count := cnt\<rparr>, removed))"

text \<open>The part of \<open>Insert\<close> before the two evictions.\<close>

definition ring_put :: "time \<Rightarrow> trace_id \<Rightarrow> resource_spans \<Rightarrow> ring \<Rightarrow> ring" where
  "ring_put now traceID rs r =
     (let (entry, ord) =
        (case fmlookup (r_traces r) traceID of
           None \<Rightarrow> (new_entry, r_order r @ [traceID])
         | Some e \<Rightarrow> (e, r_order r))
      in r\<lparr>r_traces := fmupd traceID (entry_append now rs entry) (r_traces r),
           r_order := ord,
           r_count := r_count r + rs_spanCount rs\<rparr>)"

definition ring_Insert :: "time \<Rightarrow> trace_id \<Rightarrow> resource_spans \<Rightarrow> ring \<Rightarrow> ring \<times> int" where
  "ring_Insert now traceID rs r =
     (let r1 = ring_put now traceID rs r;
          r2 = fst (evictByTimeLocked now r1);
          r3 = fst (evictByCountLocked r2)
      in (r3, r_count r3))"

text \<open>\<open>removeFromOrderLocked\<close> cuts out the first occurrence of the target.\<close>

definition removeFromOrderLocked :: "trace_id \<Rightarrow> trace_id list \<Rightarrow> trace_id list" where
  "removeFromOrderLocked target ord = remove1 target ord"

text \<open>\<open>Drain\<close>: \<open>None\<close> is the nil slice of an unknown trace.\<close>

definition ring_Drain :: "trace_id \<Rightarrow> ring \<Rightarrow> ring \<times> resource_spans list option" where
  "ring_Drain traceID r =
     (case fmlookup (r_traces r) traceID of
        None \<Rightarrow> (r, None)
      | Some entry \<Rightarrow>
          let cnt = fold (\<lambda>rs c. c - rs_spanCount rs) (te_spans entry) (r_count r)
          in (r\<lparr>r_traces := fmdrop traceID (r_traces r),
                r_order := removeFromOrderLocked traceID (r_order r),
                r_count := (if cnt < 0 then 0 else cnt)\<rparr>, Some (te_spans entry)))"

definition ring_Len :: "ring \<Rightarrow> int" where
  "ring_Len r = r_count r"

definition ring_Traces :: "ring \<Rightarrow> int" where
  "ring_Traces r = int (fcard (fmdom (r_traces r)))"

definition ring_PruneByTime :: "time \<Rightarrow> ring \<Rightarrow> ring \<times> int" where
  "ring_PruneByTime now r = evictByTimeLocked now r"


section \<open>What a ring holds\<close>

definition content :: "ring \<Rightarrow> trace_id \<Rightarrow> resource_spans list" where
  "content r k = (case fmlookup (r_traces r) k of None \<Rightarrow> [] | Some e \<Rightarrow> te_spans e)"

definition spans_of :: "(trace_id, trace_entry) fmap \<Rightarrow> trace_id \<Rightarrow> int" where
  "spans_of tr k = (case fmlookup tr k of None \<Rightarrow> 0 | Some e \<Rightarrow> rss_spanCount (te_spans e))"

definition spans_in :: "(trace_id, trace_entry) fmap \<Rightarrow> trace_id list \<Rightarrow> int" where
  "spans_in tr ks = sum_list (map (spans_of tr) ks)"

text \<open>An entry as \<open>Insert\<close> builds it: its newest time is the largest of its insertion times.\<close>

definition entry_ok :: "trace_entry \<Rightarrow> bool" where
  "entry_ok e \<longleftrightarrow> te_spans e \<noteq> [] \<and> length (te_insertedAt e) = length (te_spans e)
     \<and> te_newestAt e = fold max (te_insertedAt e) zero_time"

definition ring_inv :: "ring \<Rightarrow> bool" where
  "ring_inv r \<longleftrightarrow> 0 < r_maxSpans r \<and> 0 < r_preAlertWindow r
     \<and> order_ok (r_traces r) (r_order r)
     \<and> r_count r = spans_in (r_traces r) (r_order r)
     \<and> fmpred (\<lambda>_. entry_ok) (r_traces r)"

lemma ring_order_mem: "ring_inv r \<Longrightarrow> k \<in> set (r_order r) \<longleftrightarrow> fmlookup (r_traces r) k \<noteq> None"
  unfolding ring_inv_def by (elim conjE) (rule order_ok_mem)

lemma ring_order_distinct: "ring_inv r \<Longrightarrow> distinct (r_order r)"
  by (simp add: ring_inv_def order_ok_def)

lemma spans_of_nonneg [simp]: "0 \<le> spans_of tr k"
  by (simp add: spans_of_def split: option.split)

lemma spans_in_nonneg [simp]: "0 \<le> spans_in tr ks"
  unfolding spans_in_def by (rule sum_list_nonneg_int) simp

lemma spans_in_simps [simp]:
  "spans_in tr [] = 0"
  "spans_in tr (k # ks) = spans_of tr k + spans_in tr ks"
  "spans_in tr (ks @ js) = spans_in tr ks + spans_in tr js"
  by (simp_all add: spans_in_def)

lemma spans_in_cong: "(\<And>k. k \<in> set ks \<Longrightarrow> fmlookup tr k = fmlookup tr' k) \<Longrightarrow> spans_in tr ks = spans_in tr' ks"
  unfolding spans_in_def by (rule sum_list_map_cong) (simp add: spans_of_def)

lemma spans_in_drop [simp]: "k \<notin> set ks \<Longrightarrow> spans_in (fmdrop k tr) ks = spans_in tr ks"
  by (rule spans_in_cong) auto

lemma spans_in_remove1: "k \<in> set ks \<Longrightarrow> spans_in tr (remove1 k ks) = spans_in tr ks - spans_of tr k"
  by (simp add: spans_in_def sum_list_remove1_int)

lemma spans_in_upd: "k \<notin> set ks \<Longrightarrow> spans_in (fmupd k e tr) ks = spans_in tr ks"
  by (rule spans_in_cong) auto

lemma spans_of_upd: "spans_of (fmupd k e tr) k = rss_spanCount (te_spans e)"
  by (simp add: spans_of_def)

lemma fold_minus_spanCount: "fold (\<lambda>rs c. c - rs_spanCount rs) xs c = c - rss_spanCount xs"
  by (induction xs arbitrary: c) auto

lemma fmpred_drop: "fmpred P m \<Longrightarrow> fmpred P (fmdrop k m)"
  by (rule fmpredI) (auto simp: fmlookup_drop split: if_splits dest: fmpredD)

lemma entry_ok_append: "entry_ok e \<or> e = new_entry \<Longrightarrow> entry_ok (entry_append now rs e)"
  by (auto simp: entry_ok_def new_entry_def entry_append_def max_def)

section \<open>The two evictions in closed form\<close>

definition fresh :: "time \<Rightarrow> (trace_id, trace_entry) fmap \<Rightarrow> trace_id \<Rightarrow> bool" where
  "fresh cutoff tr k = (case fmlookup tr k of None \<Rightarrow> False | Some e \<Rightarrow> \<not> te_newestAt e < cutoff)"

lemma fresh_drop: "j \<noteq> k \<Longrightarrow> fresh cutoff (fmdrop k tr) j = fresh cutoff tr j"
  by (simp add: fresh_def)

lemma evictByTime_loop_eq:
  assumes "distinct ks" "set ks \<subseteq> fset (fmdom tr)"
  shows "evictByTime_loop cutoff ks tr cnt survivors removed =
    (fmfilter (\<lambda>k. k \<in> set ks \<longrightarrow> fresh cutoff tr k) tr,
     cnt - spans_in tr (filter (\<lambda>k. \<not> fresh cutoff tr k) ks),
     survivors @ filter (fresh cutoff tr) ks,
     removed + int (length (filter (\<lambda>k. \<not> fresh cutoff tr k) ks)))"
  using assms
proof (induction ks arbitrary: tr cnt survivors removed)
  case Nil
  then show ?case by (simp add: fmfilter_true)
next
  case (Cons k ks)
  then obtain e where e: "fmlookup tr k = Some e" by (auto elim: fmdomE)
  have k: "k \<notin> set ks" and d: "distinct ks" and sub: "set ks \<subseteq> fset (fmdom tr)" using Cons.prems by auto
  show ?case
  proof (cases "te_newestAt e < cutoff")
    case True
    have sub': "set ks \<subseteq> fset (fmdom (fmdrop k tr))" using sub k by auto
    have fr: "\<And>j. j \<in> set ks \<Longrightarrow> fresh cutoff (fmdrop k tr) j = fresh cutoff tr j"
      using k by (metis fresh_drop)
    have f1: "filter (fresh cutoff (fmdrop k tr)) ks = filter (fresh cutoff tr) ks"
      "filter (\<lambda>k'. \<not> fresh cutoff (fmdrop k tr) k') ks = filter (\<lambda>k. \<not> fresh cutoff tr k) ks"
      using fr by (auto intro: filter_cong)
    have stale: "\<not> fresh cutoff tr k" using e True by (simp add: fresh_def)
    have "fmfilter (\<lambda>j. j \<in> set ks \<longrightarrow> fresh cutoff (fmdrop k tr) j) (fmdrop k tr) =
          fmfilter (\<lambda>j. j \<in> set (k # ks) \<longrightarrow> fresh cutoff tr j) tr"
      using k stale fr by (intro fmap_ext) auto
    moreover have "k \<notin> set (filter (\<lambda>k. \<not> fresh cutoff tr k) ks)" using k by simp
    ultimately show ?thesis
      using Cons.IH [OF d sub'] e True stale
      by (simp add: f1 spans_of_def)
  next
    case False
    have "fresh cutoff tr k" using e False by (simp add: fresh_def)
    moreover have "fmfilter (\<lambda>j. j \<in> set ks \<longrightarrow> fresh cutoff tr j) tr =
        fmfilter (\<lambda>j. j \<in> set (k # ks) \<longrightarrow> fresh cutoff tr j) tr"
      using calculation by (intro fmap_ext) auto
    ultimately show ?thesis using Cons.IH [OF d sub] e False by simp
  qed
qed

lemma spans_in_partition: "spans_in tr (filter P ks) = spans_in tr ks - spans_in tr (filter (\<lambda>k. \<not> P k) ks)"
  by (induction ks) auto

lemma evictByTimeLocked_eq:
  assumes "ring_inv r"
  shows "evictByTimeLocked now r =
    (let cutoff = now - r_preAlertWindow r; ks = filter (fresh cutoff (r_traces r)) (r_order r)
     in (r\<lparr>r_traces := fmfilter (fresh cutoff (r_traces r)) (r_traces r), r_order := ks,
           r_count := spans_in (r_traces r) ks\<rparr>,
         int (length (r_order r)) - int (length ks)))"
proof -
  let ?c = "now - r_preAlertWindow r" and ?tr = "r_traces r" and ?ks = "r_order r"
  from assms have ok: "order_ok ?tr ?ks" and cnt: "r_count r = spans_in ?tr ?ks"
    by (auto simp: ring_inv_def)
  from ok have "distinct ?ks" "set ?ks \<subseteq> fset (fmdom ?tr)" by (auto simp: order_ok_def)
  note loop = evictByTime_loop_eq [OF this]
  have "fmfilter (\<lambda>k. k \<in> set ?ks \<longrightarrow> fresh ?c ?tr k) ?tr = fmfilter (fresh ?c ?tr) ?tr"
    using order_ok_mem [OF ok] by (intro fmap_ext) (auto simp: fresh_def)
  moreover have "int (length (filter (\<lambda>k. \<not> fresh ?c ?tr k) ?ks)) =
      int (length ?ks) - int (length (filter (fresh ?c ?tr) ?ks))"
    using sum_length_filter_compl [of "fresh ?c ?tr" ?ks] by simp
  moreover have "\<not> spans_in ?tr ?ks - spans_in ?tr (filter (\<lambda>k. \<not> fresh ?c ?tr k) ?ks) < 0"
    using spans_in_partition [of ?tr "fresh ?c ?tr" ?ks] spans_in_nonneg [of ?tr "filter (fresh ?c ?tr) ?ks"]
    by linarith
  ultimately show ?thesis
    by (simp add: evictByTimeLocked_def loop cnt Let_def spans_in_partition [where P = "fresh ?c ?tr"])
qed


text \<open>How many traces \<open>evictByCountLocked\<close> drops: the fewest that bring the total under the cap.\<close>

fun trim_count :: "int \<Rightarrow> (trace_id, trace_entry) fmap \<Rightarrow> trace_id list \<Rightarrow> nat" where
  "trim_count mx tr [] = 0"
| "trim_count mx tr (k # ks) = (if mx < spans_in tr (k # ks) then Suc (trim_count mx tr ks) else 0)"

lemma trim_count_cong:
  "(\<And>k. k \<in> set ks \<Longrightarrow> fmlookup tr k = fmlookup tr' k) \<Longrightarrow> trim_count mx tr ks = trim_count mx tr' ks"
proof (induction ks)
  case (Cons k ks)
  have "spans_in tr (k # ks) = spans_in tr' (k # ks)" using Cons.prems by (rule spans_in_cong)
  with Cons show ?case by simp
qed simp

lemma trim_count_bound: "0 \<le> mx \<Longrightarrow> spans_in tr (drop (trim_count mx tr ks) ks) \<le> mx"
  by (induction ks) auto

lemma trim_count_least: "n < trim_count mx tr ks \<Longrightarrow> mx < spans_in tr (drop n ks)"
proof (induction ks arbitrary: n)
  case (Cons k ks)
  then show ?case by (cases n) (auto split: if_splits)
qed simp

lemma evictByCount_loop_eq:
  assumes "distinct ks" "set ks \<subseteq> fset (fmdom tr)" "cnt = spans_in tr ks"
  shows "evictByCount_loop mx ks tr cnt removed =
    (let n = trim_count mx tr ks
     in (fmfilter (\<lambda>k. k \<notin> set (take n ks)) tr, spans_in tr (drop n ks), drop n ks, removed + int n))"
  using assms
proof (induction ks arbitrary: tr cnt removed)
  case Nil
  then show ?case by (simp add: fmfilter_true)
next
  case (Cons k ks)
  then obtain e where e: "fmlookup tr k = Some e" by (auto elim: fmdomE)
  have k: "k \<notin> set ks" and d: "distinct ks" and sub: "set ks \<subseteq> fset (fmdom tr)" using Cons.prems by auto
  show ?case
  proof (cases "mx < cnt")
    case True
    let ?tr = "fmdrop k tr"
    have sub': "set ks \<subseteq> fset (fmdom ?tr)" using sub k by auto
    have cnt: "cnt - rss_spanCount (te_spans e) = spans_in ?tr ks"
      using Cons.prems(3) e k by (simp add: spans_of_def)
    have n: "trim_count mx ?tr ks = trim_count mx tr ks"
      using k by (intro trim_count_cong) auto
    have dr: "spans_in ?tr (drop m ks) = spans_in tr (drop m ks)" for m
      using k in_set_dropD by (intro spans_in_cong) fastforce
    have flt: "fmfilter (\<lambda>j. j \<notin> set (take m ks)) ?tr = fmfilter (\<lambda>j. j \<notin> set (take (Suc m) (k # ks))) tr" for m
      by (intro fmap_ext) auto
    show ?thesis
      using Cons.IH [OF d sub' cnt] e True Cons.prems(3) by (simp add: Let_def n dr flt)
  next
    case False
    then show ?thesis using Cons.prems(3) by (simp add: Let_def fmfilter_true)
  qed
qed

lemma evictByCountLocked_eq:
  assumes "ring_inv r"
  shows "evictByCountLocked r =
    (let n = trim_count (r_maxSpans r) (r_traces r) (r_order r)
     in (r\<lparr>r_traces := fmfilter (\<lambda>k. k \<notin> set (take n (r_order r))) (r_traces r),
           r_order := drop n (r_order r), r_count := spans_in (r_traces r) (drop n (r_order r))\<rparr>, int n))"
proof -
  from assms have "distinct (r_order r)" "set (r_order r) \<subseteq> fset (fmdom (r_traces r))"
    "r_count r = spans_in (r_traces r) (r_order r)"
    by (auto simp: ring_inv_def order_ok_def)
  from evictByCount_loop_eq [OF this] show ?thesis
    by (simp add: evictByCountLocked_def Let_def)
qed

section \<open>The invariant\<close>

lemma ring_inv_New: "ring_New opts = Inr r \<Longrightarrow> ring_inv r"
  by (auto simp: ring_New_def ring_inv_def Let_def duration_defs split: if_splits)

lemma ring_inv_put:
  assumes "ring_inv r" shows "ring_inv (ring_put now k rs r)"
proof (cases "fmlookup (r_traces r) k")
  case None
  from assms None have ok: "order_ok (fmupd k (entry_append now rs new_entry) (r_traces r)) (r_order r @ [k])"
    by (simp add: ring_inv_def order_ok_add)
  have "k \<notin> set (r_order r)"
    using assms None by (simp add: ring_order_mem)
  then have "spans_in (fmupd k (entry_append now rs new_entry) (r_traces r)) (r_order r @ [k]) =
      spans_in (r_traces r) (r_order r) + rs_spanCount rs"
    by (simp add: spans_in_upd spans_of_upd entry_append_def new_entry_def)
  with assms None ok show ?thesis
    by (auto simp: ring_inv_def ring_put_def entry_ok_append intro: fmpred_upd)
next
  case (Some e)
  from assms Some have ok: "order_ok (fmupd k (entry_append now rs e) (r_traces r)) (r_order r)"
    by (simp add: ring_inv_def order_ok_upd)
  have mem: "k \<in> set (r_order r)" and d: "distinct (r_order r)"
    using assms Some by (simp_all add: ring_order_mem ring_order_distinct)
  let ?tr = "fmupd k (entry_append now rs e) (r_traces r)"
  have "spans_in ?tr (r_order r) = spans_in ?tr (remove1 k (r_order r)) + spans_of ?tr k"
    using mem by (simp add: spans_in_remove1)
  also have "spans_in ?tr (remove1 k (r_order r)) = spans_in (r_traces r) (remove1 k (r_order r))"
    using d by (intro spans_in_upd) simp
  also have "spans_in (r_traces r) (remove1 k (r_order r)) = spans_in (r_traces r) (r_order r) - spans_of (r_traces r) k"
    using mem by (rule spans_in_remove1)
  also have "spans_of ?tr k = spans_of (r_traces r) k + rs_spanCount rs"
    using Some by (simp add: spans_of_upd spans_of_def entry_append_def)
  finally have "spans_in ?tr (r_order r) = spans_in (r_traces r) (r_order r) + rs_spanCount rs" by simp
  moreover have "entry_ok e" using assms Some by (auto simp: ring_inv_def dest: fmpredD)
  ultimately show ?thesis
    using assms Some ok by (auto simp: ring_inv_def ring_put_def entry_ok_append intro: fmpred_upd)
qed

lemma ring_inv_time:
  assumes "ring_inv r" shows "ring_inv (fst (evictByTimeLocked now r))"
proof -
  let ?P = "fresh (now - r_preAlertWindow r) (r_traces r)"
  have "spans_in (fmfilter ?P (r_traces r)) (filter ?P (r_order r)) = spans_in (r_traces r) (filter ?P (r_order r))"
    by (rule spans_in_cong) auto
  then show ?thesis
    using assms by (auto simp: evictByTimeLocked_eq Let_def ring_inv_def order_ok_filter intro: fmpred_filter)
qed

lemma order_ok_drop_prefix:
  assumes "order_ok m ks"
  shows "order_ok (fmfilter (\<lambda>k. k \<notin> set (take n ks)) m) (drop n ks)"
proof -
  have "distinct (take n ks @ drop n ks)" using assms by (simp add: order_ok_def)
  moreover from this have "set (take n ks) \<inter> set (drop n ks) = {}" unfolding distinct_append by simp
  ultimately have "filter (\<lambda>k. k \<notin> set (take n ks)) (take n ks @ drop n ks) = drop n ks"
    unfolding filter_append by (auto simp: filter_empty_conv filter_id_conv)
  then show ?thesis using order_ok_filter [OF assms, of "\<lambda>k. k \<notin> set (take n ks)"] by simp
qed

lemma ring_inv_count:
  assumes "ring_inv r" shows "ring_inv (fst (evictByCountLocked r))"
proof -
  let ?n = "trim_count (r_maxSpans r) (r_traces r) (r_order r)"
  let ?tr = "fmfilter (\<lambda>k. k \<notin> set (take ?n (r_order r))) (r_traces r)"
  have ok: "order_ok ?tr (drop ?n (r_order r))"
    using assms by (simp add: ring_inv_def order_ok_drop_prefix)
  have "spans_in ?tr (drop ?n (r_order r)) = spans_in (r_traces r) (drop ?n (r_order r))"
    using order_ok_mem [OF ok] by (intro spans_in_cong) (auto split: if_splits)
  then show ?thesis
    using assms ok by (auto simp: evictByCountLocked_eq Let_def ring_inv_def intro: fmpred_filter)
qed

lemmas ring_inv_intros [intro] = ring_inv_put ring_inv_time ring_inv_count

lemma ring_inv_Insert: "ring_inv r \<Longrightarrow> ring_inv (fst (ring_Insert now k rs r))"
  by (auto simp: ring_Insert_def Let_def)

lemma ring_inv_Prune: "ring_inv r \<Longrightarrow> ring_inv (fst (ring_PruneByTime now r))"
  by (auto simp: ring_PruneByTime_def)

lemma ring_Drain_eq:
  assumes "ring_inv r"
  shows "ring_Drain k r = (case fmlookup (r_traces r) k of None \<Rightarrow> (r, None)
    | Some e \<Rightarrow> (r\<lparr>r_traces := fmdrop k (r_traces r), r_order := remove1 k (r_order r),
                   r_count := r_count r - rss_spanCount (te_spans e)\<rparr>, Some (te_spans e)))"
proof (cases "fmlookup (r_traces r) k")
  case (Some e)
  have "k \<in> set (r_order r)" using assms Some by (simp add: ring_order_mem)
  then have "spans_of (r_traces r) k \<le> spans_in (r_traces r) (r_order r)"
    using spans_in_remove1 spans_in_nonneg [of "r_traces r" "remove1 k (r_order r)"] by fastforce
  then have "\<not> r_count r - rss_spanCount (te_spans e) < 0"
    using assms Some by (simp add: ring_inv_def spans_of_def)
  then show ?thesis using Some
    by (simp add: ring_Drain_def removeFromOrderLocked_def fold_minus_spanCount Let_def)
qed (simp add: ring_Drain_def)

lemma ring_inv_Drain:
  assumes "ring_inv r" shows "ring_inv (fst (ring_Drain k r))"
proof (cases "fmlookup (r_traces r) k")
  case (Some e)
  have mem: "k \<in> set (r_order r)" and d: "distinct (r_order r)"
    using assms Some by (simp_all add: ring_order_mem ring_order_distinct)
  have "spans_in (fmdrop k (r_traces r)) (remove1 k (r_order r)) = r_count r - rss_spanCount (te_spans e)"
    using assms Some d spans_in_remove1 [OF mem, of "r_traces r"] by (subst spans_in_drop) (simp_all add: ring_inv_def spans_of_def)
  then show ?thesis using assms Some
    by (auto simp: ring_Drain_eq ring_inv_def order_ok_drop intro: fmpred_drop)
qed (use assms in \<open>simp add: ring_Drain_def\<close>)


section \<open>An abstract buffer, and the ring as its implementation\<close>

text \<open>
  What the package comment promises, with no map, no order and no running count: a list
  of traces, oldest first. Inserting appends to a trace or starts one at the end; expiry
  keeps the traces whose newest span is within the window; trimming drops whole traces from
  the front until the recomputed total is within the cap.
\<close>

type_synonym buffered = "(trace_id \<times> trace_entry) list"

definition buf_total :: "buffered \<Rightarrow> int" where
  "buf_total as = sum_list (map (\<lambda>a. rss_spanCount (te_spans (snd a))) as)"

fun buf_put :: "time \<Rightarrow> trace_id \<Rightarrow> resource_spans \<Rightarrow> buffered \<Rightarrow> buffered" where
  "buf_put now tid rs [] = [(tid, entry_append now rs new_entry)]"
| "buf_put now tid rs ((k, e) # as) =
     (if k = tid then (k, entry_append now rs e) # as else (k, e) # buf_put now tid rs as)"

definition buf_expire :: "time \<Rightarrow> buffered \<Rightarrow> buffered" where
  "buf_expire cutoff as = filter (\<lambda>a. cutoff \<le> te_newestAt (snd a)) as"

fun buf_trim :: "int \<Rightarrow> buffered \<Rightarrow> buffered" where
  "buf_trim mx [] = []"
| "buf_trim mx (a # as) = (if mx < buf_total (a # as) then buf_trim mx as else a # as)"

definition ring_abs :: "ring \<Rightarrow> buffered" where
  "ring_abs r = map (\<lambda>k. (k, the (fmlookup (r_traces r) k))) (r_order r)"

lemma buf_put_map:
  assumes "distinct ks" "\<And>k. k \<in> set ks \<Longrightarrow> m k \<noteq> None"
  shows "buf_put now tid rs (map (\<lambda>k. (k, the (m k))) ks) =
    (if tid \<in> set ks then map (\<lambda>k. (k, if k = tid then entry_append now rs (the (m tid)) else the (m k))) ks
     else map (\<lambda>k. (k, the (m k))) ks @ [(tid, entry_append now rs new_entry)])"
  using assms by (induction ks) auto

lemma ring_abs_put:
  assumes "ring_inv r"
  shows "ring_abs (ring_put now tid rs r) = buf_put now tid rs (ring_abs r)"
proof -
  have "distinct (r_order r)" "\<And>k. k \<in> set (r_order r) \<Longrightarrow> fmlookup (r_traces r) k \<noteq> None"
    using assms ring_order_mem ring_order_distinct by blast+
  note eq = buf_put_map [OF this, where now = now and tid = tid and rs = rs]
  show ?thesis
    using ring_order_mem [OF assms, of tid]
    by (cases "fmlookup (r_traces r) tid") (auto simp: ring_abs_def ring_put_def eq)
qed

lemma ring_abs_time:
  assumes "ring_inv r"
  shows "ring_abs (fst (evictByTimeLocked now r)) = buf_expire (now - r_preAlertWindow r) (ring_abs r)"
proof -
  let ?c = "now - r_preAlertWindow r"
  have "\<And>k. k \<in> set (r_order r) \<Longrightarrow> fresh ?c (r_traces r) k = (?c \<le> te_newestAt (the (fmlookup (r_traces r) k)))"
    using ring_order_mem [OF assms] by (auto simp: fresh_def not_less)
  then have "filter (fresh ?c (r_traces r)) (r_order r) =
      filter (\<lambda>k. ?c \<le> te_newestAt (the (fmlookup (r_traces r) k))) (r_order r)"
    by (intro filter_cong) auto
  then show ?thesis
    using assms by (simp add: evictByTimeLocked_eq ring_abs_def buf_expire_def filter_map comp_def Let_def)
      (auto simp: fresh_def split: option.splits)
qed

lemma buf_total_spans_in:
  "(\<And>k. k \<in> set ks \<Longrightarrow> fmlookup tr k \<noteq> None) \<Longrightarrow> buf_total (map (\<lambda>k. (k, the (fmlookup tr k))) ks) = spans_in tr ks"
proof (induction ks)
  case (Cons k ks)
  from Cons.prems obtain e where "fmlookup tr k = Some e" by fastforce
  with Cons show ?case by (simp add: buf_total_def spans_of_def)
qed (simp add: buf_total_def)

lemma buf_total_ring_abs: "ring_inv r \<Longrightarrow> buf_total (ring_abs r) = r_count r"
  using buf_total_spans_in [of "r_order r" "r_traces r"] ring_order_mem
  by (metis ring_abs_def ring_inv_def)

lemma buf_trim_map:
  "(\<And>k. k \<in> set ks \<Longrightarrow> fmlookup tr k \<noteq> None) \<Longrightarrow>
   buf_trim mx (map (\<lambda>k. (k, the (fmlookup tr k))) ks) = map (\<lambda>k. (k, the (fmlookup tr k))) (drop (trim_count mx tr ks) ks)"
proof (induction ks)
  case (Cons k ks)
  have "buf_total (map (\<lambda>k. (k, the (fmlookup tr k))) (k # ks)) = spans_in tr (k # ks)"
    using Cons.prems by (rule buf_total_spans_in)
  with Cons show ?case by simp
qed simp

lemma ring_abs_count:
  assumes "ring_inv r"
  shows "ring_abs (fst (evictByCountLocked r)) = buf_trim (r_maxSpans r) (ring_abs r)"
proof -
  let ?n = "trim_count (r_maxSpans r) (r_traces r) (r_order r)"
  have "set (take ?n (r_order r)) \<inter> set (drop ?n (r_order r)) = {}"
    using ring_order_distinct [OF assms] by (rule set_take_disj_set_drop_if_distinct) simp
  then have "ring_abs (fst (evictByCountLocked r)) =
      map (\<lambda>k. (k, the (fmlookup (r_traces r) k))) (drop ?n (r_order r))"
    using assms by (auto simp: evictByCountLocked_eq ring_abs_def Let_def)
  also have "\<dots> = buf_trim (r_maxSpans r) (ring_abs r)"
    unfolding ring_abs_def using ring_order_mem [OF assms] by (intro buf_trim_map [symmetric]) auto
  finally show ?thesis .
qed

lemma ring_params [simp]:
  "r_maxSpans (ring_put now k rs r) = r_maxSpans r"
  "r_preAlertWindow (ring_put now k rs r) = r_preAlertWindow r"
  "r_maxSpans (fst (evictByTimeLocked now r)) = r_maxSpans r"
  "r_preAlertWindow (fst (evictByTimeLocked now r)) = r_preAlertWindow r"
  "r_maxSpans (fst (evictByCountLocked r)) = r_maxSpans r"
  "r_preAlertWindow (fst (evictByCountLocked r)) = r_preAlertWindow r"
  by (auto simp: ring_put_def evictByTimeLocked_def evictByCountLocked_def Let_def split: prod.splits option.splits)

lemma ring_abs_Insert:
  assumes "ring_inv r"
  shows "ring_abs (fst (ring_Insert now tid rs r)) =
    buf_trim (r_maxSpans r) (buf_expire (now - r_preAlertWindow r) (buf_put now tid rs (ring_abs r)))"
  using assms
  by (simp add: ring_Insert_def Let_def ring_abs_count ring_abs_time ring_abs_put ring_inv_intros)

lemma buf_trim_total: "0 \<le> mx \<Longrightarrow> buf_total (buf_trim mx as) \<le> mx"
  by (induction as) (auto simp: buf_total_def)

lemma ring_Insert_snd: "snd (ring_Insert now tid rs r) = r_count (fst (ring_Insert now tid rs r))"
  by (simp add: ring_Insert_def Let_def)

lemma ring_Insert_params [simp]:
  "r_maxSpans (fst (ring_Insert now k rs r)) = r_maxSpans r"
  "r_preAlertWindow (fst (ring_Insert now k rs r)) = r_preAlertWindow r"
  by (simp_all add: ring_Insert_def Let_def)

lemma ring_Insert_bound:
  assumes "ring_inv r" shows "r_count (fst (ring_Insert now tid rs r)) \<le> r_maxSpans r"
proof -
  have "r_count (fst (ring_Insert now tid rs r)) = buf_total (ring_abs (fst (ring_Insert now tid rs r)))"
    using assms by (simp add: buf_total_ring_abs ring_inv_Insert)
  also have "\<dots> \<le> r_maxSpans r"
    using assms by (simp add: ring_abs_Insert buf_trim_total ring_inv_def)
  finally show ?thesis .
qed


section \<open>The buffer as a trace store\<close>

text \<open>
  What the flush loop of the processor relies on, as an interface: an insertion or a
  prune either keeps a trace's contents (with the new item appended to its own trace) or
  drops them whole, and draining returns exactly the contents and removes only them.
\<close>

datatype ('a, 'k, 'v) store_op = Put 'a 'k 'v | Prune 'a | Take 'k

fun store_step :: "('a \<Rightarrow> 'k \<Rightarrow> 'v \<Rightarrow> 's \<Rightarrow> 's) \<Rightarrow> ('a \<Rightarrow> 's \<Rightarrow> 's) \<Rightarrow> ('k \<Rightarrow> 's \<Rightarrow> 's \<times> 'v list option)
  \<Rightarrow> ('a, 'k, 'v) store_op \<Rightarrow> 's \<Rightarrow> 's" where
  "store_step put prune drn (Put a k v) s = put a k v s"
| "store_step put prune drn (Prune a) s = prune a s"
| "store_step put prune drn (Take k) s = fst (drn k s)"

definition store_run :: "('a \<Rightarrow> 'k \<Rightarrow> 'v \<Rightarrow> 's \<Rightarrow> 's) \<Rightarrow> ('a \<Rightarrow> 's \<Rightarrow> 's) \<Rightarrow> ('k \<Rightarrow> 's \<Rightarrow> 's \<times> 'v list option)
  \<Rightarrow> ('a, 'k, 'v) store_op list \<Rightarrow> 's \<Rightarrow> 's" where
  "store_run put prune drn ops s = fold (store_step put prune drn) ops s"

text \<open>Everything a run inserts for one key, in order.\<close>

fun puts_for :: "'k \<Rightarrow> ('a, 'k, 'v) store_op list \<Rightarrow> 'v list" where
  "puts_for k [] = []"
| "puts_for k (Put a j v # ops) = (if j = k then v # puts_for k ops else puts_for k ops)"
| "puts_for k (Prune a # ops) = puts_for k ops"
| "puts_for k (Take j # ops) = puts_for k ops"

lemma puts_for_snoc: "puts_for k (ops @ [oper]) = puts_for k ops @ puts_for k [oper]"
  by (induction k ops rule: puts_for.induct) auto

locale trace_store =
  fixes put :: "'a \<Rightarrow> 'k \<Rightarrow> 'v \<Rightarrow> 's \<Rightarrow> 's"
    and prune :: "'a \<Rightarrow> 's \<Rightarrow> 's"
    and drn :: "'k \<Rightarrow> 's \<Rightarrow> 's \<times> 'v list option"
    and cont :: "'s \<Rightarrow> 'k \<Rightarrow> 'v list"
    and inv :: "'s \<Rightarrow> bool"
  assumes inv_put: "inv s \<Longrightarrow> inv (put a k v s)"
    and inv_prune: "inv s \<Longrightarrow> inv (prune a s)"
    and inv_drn: "inv s \<Longrightarrow> inv (fst (drn k s))"
    and cont_put: "inv s \<Longrightarrow> cont (put a k v s) j = [] \<or> cont (put a k v s) j = cont s j @ (if j = k then [v] else [])"
    and cont_prune: "inv s \<Longrightarrow> cont (prune a s) j = [] \<or> cont (prune a s) j = cont s j"
    and drn_result: "inv s \<Longrightarrow> snd (drn k s) = (if cont s k = [] then None else Some (cont s k))"
    and cont_drn: "inv s \<Longrightarrow> cont (fst (drn k s)) j = (if j = k then [] else cont s j)"
begin

lemma inv_step: "inv s \<Longrightarrow> inv (store_step put prune drn oper s)"
  by (cases oper) (simp_all add: inv_put inv_prune inv_drn)

lemma inv_run: "inv s \<Longrightarrow> inv (store_run put prune drn ops s)"
  unfolding store_run_def by (induction ops arbitrary: s) (simp_all add: inv_step)

lemma step_suffix:
  assumes "inv s" "suffix (cont s k) xs"
  shows "suffix (cont (store_step put prune drn oper s) k) (xs @ puts_for k [oper])"
proof (cases oper)
  case (Put a j v)
  then show ?thesis using assms cont_put [of s a j v k] by auto
next
  case (Prune a)
  then show ?thesis using assms cont_prune [of s a k] by auto
next
  case (Take j)
  then show ?thesis using assms cont_drn [of s j k] by auto
qed

lemma run_suffix:
  "inv s \<Longrightarrow> suffix (cont (store_run put prune drn ops s) k) (cont s k @ puts_for k ops)"
proof (induction ops rule: rev_induct)
  case Nil
  then show ?case by (simp add: store_run_def)
next
  case (snoc oper ops)
  from snoc have "inv (store_run put prune drn ops s)" by (intro inv_run)
  from step_suffix [OF this snoc.IH [OF snoc.prems], of oper] show ?case
    by (simp add: store_run_def puts_for_snoc)
qed

end


text \<open>The ring is such a store: a put is \<open>Insert\<close> at a clock reading, a prune is \<open>PruneByTime\<close>.\<close>

lemma content_put:
  "content (ring_put now k rs r) j = content r j @ (if j = k then [rs] else [])"
  by (auto simp: content_def ring_put_def new_entry_def entry_append_def split: option.split)

lemma content_time:
  assumes "ring_inv r"
  shows "content (fst (evictByTimeLocked now r)) j = [] \<or> content (fst (evictByTimeLocked now r)) j = content r j"
  using assms by (auto simp: evictByTimeLocked_eq content_def Let_def)

lemma content_count:
  assumes "ring_inv r"
  shows "content (fst (evictByCountLocked r)) j = [] \<or> content (fst (evictByCountLocked r)) j = content r j"
  using assms by (auto simp: evictByCountLocked_eq content_def Let_def)

lemma content_Insert:
  assumes "ring_inv r"
  shows "content (fst (ring_Insert now k rs r)) j = []
    \<or> content (fst (ring_Insert now k rs r)) j = content r j @ (if j = k then [rs] else [])"
proof -
  let ?r1 = "ring_put now k rs r" let ?r2 = "fst (evictByTimeLocked now ?r1)"
  have "ring_inv ?r1" "ring_inv ?r2" using assms by auto
  then show ?thesis
    using content_count [of ?r2 j] content_time [of ?r1 now j] content_put [of now k rs r j]
    by (auto simp: ring_Insert_def Let_def)
qed

lemma content_nonempty: "ring_inv r \<Longrightarrow> fmlookup (r_traces r) k = Some e \<Longrightarrow> te_spans e \<noteq> []"
  by (auto simp: ring_inv_def entry_ok_def dest: fmpredD)

interpretation rb: trace_store
  "\<lambda>now k rs r. fst (ring_Insert now k rs r)" "\<lambda>now r. fst (ring_PruneByTime now r)" ring_Drain content ring_inv
proof unfold_locales
  fix r k
  assume r: "ring_inv r"
  show "snd (ring_Drain k r) = (if content r k = [] then None else Some (content r k))"
    using content_nonempty [OF r] by (auto simp: ring_Drain_def content_def Let_def split: option.split)
  fix j
  show "content (fst (ring_Drain k r)) j = (if j = k then [] else content r j)"
    by (auto simp: ring_Drain_def content_def Let_def split: option.split)
qed (simp_all add: ring_inv_Insert ring_inv_Prune ring_inv_Drain content_Insert content_time
    ring_PruneByTime_def ring_inv_time)

section \<open>Runs of a ring\<close>

text \<open>A ring after any sequence of insertions, prunes and drains.\<close>

definition ring_run :: "(time, trace_id, resource_spans) store_op list \<Rightarrow> ring \<Rightarrow> ring" where
  "ring_run = store_run (\<lambda>now k rs r. fst (ring_Insert now k rs r)) (\<lambda>now r. fst (ring_PruneByTime now r)) ring_Drain"

lemma ring_inv_run: "ring_inv r \<Longrightarrow> ring_inv (ring_run ops r)"
  unfolding ring_run_def by (rule rb.inv_run)

text \<open>Between operations the ring is within its cap, and no operation changes the cap.\<close>

definition ring_ok :: "int \<Rightarrow> duration \<Rightarrow> ring \<Rightarrow> bool" where
  "ring_ok cap window r \<longleftrightarrow> ring_inv r \<and> r_maxSpans r = cap \<and> r_preAlertWindow r = window \<and> r_count r \<le> cap"

lemma ring_ok_New:
  "ring_New opts = Inr r \<Longrightarrow>
   ring_ok (opt_MaxSpans opts) (if opt_PreAlertWindow opts \<le> 0 then 5 * minute else opt_PreAlertWindow opts) r"
  by (auto simp: ring_ok_def ring_New_def ring_inv_def Let_def duration_defs split: if_splits)

lemma ring_ok_Insert: "ring_ok cap w r \<Longrightarrow> ring_ok cap w (fst (ring_Insert now k rs r))"
  using ring_Insert_bound [of r now k rs] by (auto simp: ring_ok_def ring_inv_Insert)

lemma ring_ok_Prune: "ring_ok cap w r \<Longrightarrow> ring_ok cap w (fst (ring_PruneByTime now r))"
proof -
  assume ok: "ring_ok cap w r"
  let ?P = "fresh (now - r_preAlertWindow r) (r_traces r)"
  have "spans_in (r_traces r) (filter ?P (r_order r)) \<le> spans_in (r_traces r) (r_order r)"
    by (simp add: spans_in_partition [where P = ?P])
  with ok have "r_count (fst (evictByTimeLocked now r)) \<le> r_count r"
    by (auto simp: ring_ok_def evictByTimeLocked_eq Let_def ring_inv_def)
  with ok show ?thesis by (auto simp: ring_ok_def ring_PruneByTime_def)
qed

lemma ring_ok_Drain: "ring_ok cap w r \<Longrightarrow> ring_ok cap w (fst (ring_Drain k r))"
proof -
  assume ok: "ring_ok cap w r"
  then have inv: "ring_inv (fst (ring_Drain k r))" by (simp add: ring_ok_def ring_inv_Drain)
  have "0 \<le> rss_spanCount xs" for xs by simp
  then have "r_count (fst (ring_Drain k r)) \<le> r_count r"
    using ok by (auto simp: ring_ok_def ring_Drain_eq split: option.split)
  with ok inv show ?thesis
    by (auto simp: ring_ok_def ring_Drain_eq split: option.split)
qed

lemma ring_ok_run: "ring_ok cap w r \<Longrightarrow> ring_ok cap w (ring_run ops r)"
proof (induction ops rule: rev_induct)
  case (snoc oper ops)
  then show ?case
    by (cases oper) (simp_all add: ring_run_def store_run_def ring_ok_Insert ring_ok_Prune ring_ok_Drain)
qed (simp add: ring_run_def store_run_def)

lemma ring_ok_inv: "ring_ok cap w r \<Longrightarrow> ring_inv r"
  by (simp add: ring_ok_def)

lemma ring_Len_total: "ring_inv r \<Longrightarrow> ring_Len r = buf_total (ring_abs r)"
  by (simp add: ring_Len_def buf_total_ring_abs)

lemma ring_Traces_length: "ring_inv r \<Longrightarrow> ring_Traces r = int (length (ring_abs r))"
  by (simp add: ring_Traces_def ring_abs_def ring_inv_def order_ok_fcard)

section \<open>Properties\<close>

text \<open>
  C14: the memory cap. After any history of insertions, prunes and drains of a ring built by
  \<open>New\<close>, \<open>Len()\<close> is the number of spans actually buffered (recomputed from the entries),
  never negative and never above \<open>MaxSpans\<close>, and \<open>Traces()\<close> is the number of buffered traces,
  whose ids are pairwise different.
\<close>

theorem ring_capacity:
  assumes "ring_New opts = Inr r0"
  shows "0 \<le> ring_Len (ring_run ops r0) \<and> ring_Len (ring_run ops r0) \<le> opt_MaxSpans opts
    \<and> ring_Len (ring_run ops r0) = buf_total (ring_abs (ring_run ops r0))
    \<and> ring_Traces (ring_run ops r0) = int (length (ring_abs (ring_run ops r0)))
    \<and> distinct (map fst (ring_abs (ring_run ops r0)))"
proof -
  let ?r = "ring_run ops r0"
  from ring_ok_run [OF ring_ok_New [OF assms]]
  have inv: "ring_inv ?r" and le: "r_count ?r \<le> opt_MaxSpans opts" by (auto simp: ring_ok_def)
  from inv have "0 \<le> r_count ?r" by (simp add: ring_inv_def)
  moreover have "map fst (ring_abs ?r) = r_order ?r" by (simp add: ring_abs_def comp_def)
  ultimately show ?thesis
    using inv le by (simp add: ring_Len_total ring_Traces_length buf_total_ring_abs ring_order_distinct)
qed

definition example_opts :: ring_options where
  "example_opts = \<lparr>opt_MaxSpans = 10, opt_PreAlertWindow = minute\<rparr>"

definition example_ring :: ring where
  "example_ring = \<lparr>r_maxSpans = 10, r_preAlertWindow = minute, r_traces = fmempty, r_order = [], r_count = 0\<rparr>"

lemma example_New: "ring_New example_opts = Inr example_ring"
  by (simp add: ring_New_def example_opts_def example_ring_def duration_defs)

theorem ring_capacity_witness: "ring_Len (ring_run [Prune 5, Take [1]] example_ring) \<le> 10"
  using ring_capacity [OF example_New, of "[Prune 5, Take [1]]"] by (simp add: example_opts_def)

text \<open>
  C15: insertion implements the abstract buffer. In every reachable ring, \<open>Insert\<close> acts on
  the list of buffered traces as: append to the trace (or start it at the end), keep the
  traces whose newest span is inside the window, then drop whole traces from the front, and no
  more of them than needed, until the total is within the cap. It returns the resulting total.
\<close>

theorem ring_Insert_refines:
  assumes "ring_New opts = Inr r0"
  shows "let r = ring_run ops r0;
             spec = buf_trim (r_maxSpans r0) (buf_expire (now - r_preAlertWindow r0) (buf_put now tid rs (ring_abs r)))
         in ring_abs (fst (ring_Insert now tid rs r)) = spec \<and> snd (ring_Insert now tid rs r) = buf_total spec"
proof -
  have ok0: "ring_ok (r_maxSpans r0) (r_preAlertWindow r0) r0"
    using ring_ok_New [OF assms] by (simp add: ring_ok_def)
  from ring_ok_run [OF ok0, of ops]
  have inv: "ring_inv (ring_run ops r0)" "r_maxSpans (ring_run ops r0) = r_maxSpans r0"
    "r_preAlertWindow (ring_run ops r0) = r_preAlertWindow r0" by (auto simp: ring_ok_def)
  have "snd (ring_Insert now tid rs (ring_run ops r0)) = buf_total (ring_abs (fst (ring_Insert now tid rs (ring_run ops r0))))"
    using inv(1) by (simp add: ring_Insert_snd buf_total_ring_abs ring_inv_Insert)
  then show ?thesis using inv by (simp add: Let_def ring_abs_Insert)
qed

definition example_rs :: resource_spans where
  "example_rs = \<lparr>rs_Attributes = [], rs_rest = [], rs_SchemaUrl = [], rs_ScopeSpans =
     [\<lparr>ss_Scope = [], ss_SchemaUrl = [], ss_Spans =
        [\<lparr>sp_TraceID = [1], sp_SpanID = [2], sp_Kind = SpanKindServer, sp_StartTimestamp = 0, sp_EndTimestamp = 0,
          sp_Attributes = [], sp_Status = StatusCodeUnset, sp_rest = []\<rparr>]\<rparr>]\<rparr>"

theorem ring_Insert_refines_witness:
  "ring_abs (fst (ring_Insert 7 [1] example_rs example_ring)) = [([1], entry_append 7 example_rs new_entry)]"
  using ring_Insert_refines [OF example_New, of "[]" 7 "[1]" example_rs]
  by (simp add: Let_def ring_run_def store_run_def example_ring_def ring_abs_def buf_expire_def buf_total_def
      entry_append_def new_entry_def example_rs_def rs_spanCount_def duration_defs zero_time_def)

text \<open>
  C16: no half traces. After any history, what a trace id holds is a contiguous suffix of the
  resource spans ever inserted under it: nothing is reordered, duplicated or missing in the
  middle. \<open>Drain\<close> returns exactly that (nil when it is empty), leaves nothing of the trace
  behind and does not touch any other trace.
\<close>

theorem ring_contiguous:
  assumes "ring_New opts = Inr r0"
  shows "let r = ring_run ops r0; (r', out) = ring_Drain k r
         in suffix (content r k) (puts_for k ops)
          \<and> out = (if content r k = [] then None else Some (content r k))
          \<and> content r' j = (if j = k then [] else content r j)"
proof -
  have inv: "ring_inv r0" using ring_ok_New [OF assms] by (rule ring_ok_inv)
  have "content r0 k = []" using assms by (auto simp: ring_New_def content_def Let_def split: if_splits)
  with rb.run_suffix [OF inv, of ops k] have "suffix (content (ring_run ops r0) k) (puts_for k ops)"
    by (simp add: ring_run_def)
  then show ?thesis
    using rb.drn_result [OF ring_inv_run [OF inv, of ops], of k] rb.cont_drn [OF ring_inv_run [OF inv, of ops], of k j]
    by (auto simp: Let_def split: prod.split)
qed

theorem ring_contiguous_witness:
  "suffix (content (ring_run [Put 7 [1] example_rs] example_ring) [1]) [example_rs]"
  using ring_contiguous [OF example_New, of "[Put 7 [1] example_rs]" "[1]" "[1]"]
  by (simp add: Let_def split: prod.splits)

text \<open>
  C17: the idle prune. In every reachable ring \<open>PruneByTime\<close> keeps, in order, exactly the
  traces whose newest insertion is no older than the window, unchanged, and returns how many
  it removed.
\<close>

theorem ring_PruneByTime_spec:
  assumes "ring_New opts = Inr r0"
  shows "let r = ring_run ops r0; kept = buf_expire (now - r_preAlertWindow r0) (ring_abs r)
         in ring_abs (fst (ring_PruneByTime now r)) = kept
          \<and> snd (ring_PruneByTime now r) = int (length (ring_abs r)) - int (length kept)
          \<and> ring_Len (fst (ring_PruneByTime now r)) = buf_total kept"
proof -
  have ok0: "ring_ok (r_maxSpans r0) (r_preAlertWindow r0) r0"
    using ring_ok_New [OF assms] by (simp add: ring_ok_def)
  from ring_ok_run [OF ok0, of ops]
  have inv: "ring_inv (ring_run ops r0)" "r_preAlertWindow (ring_run ops r0) = r_preAlertWindow r0"
    by (auto simp: ring_ok_def)
  note abs = ring_abs_time [OF inv(1), of now, unfolded inv(2)]
  have "length (filter (fresh (now - r_preAlertWindow r0) (r_traces (ring_run ops r0))) (r_order (ring_run ops r0)))
      = length (ring_abs (fst (evictByTimeLocked now (ring_run ops r0))))"
    using inv by (simp add: evictByTimeLocked_eq ring_abs_def Let_def)
  then show ?thesis
    using abs inv ring_inv_Prune [OF inv(1), of now]
    by (simp add: Let_def ring_PruneByTime_def evictByTimeLocked_eq [OF inv(1)] ring_Len_total) (simp add: ring_abs_def)
qed

theorem ring_PruneByTime_spec_witness:
  "ring_Len (fst (ring_PruneByTime (9 * hour) (ring_run [Put 7 [1] example_rs] example_ring))) = 0"
proof -
  have "ring_abs (ring_run [Put 7 [1] example_rs] example_ring) = [([1], entry_append 7 example_rs new_entry)]"
    by (simp add: Let_def ring_run_def store_run_def example_ring_def ring_abs_def ring_Insert_def ring_put_def
      evictByTimeLocked_def evictByCountLocked_def entry_append_def new_entry_def example_rs_def rs_spanCount_def
      duration_defs zero_time_def)
  then show ?thesis
    using ring_PruneByTime_spec [OF example_New, of "[Put 7 [1] example_rs]" "9 * hour"]
    by (simp add: Let_def buf_expire_def buf_total_def example_ring_def entry_append_def new_entry_def duration_defs zero_time_def)
qed

end
