(* ===== verification/Windows.thy ===== *)
theory Windows
  imports Go_Float
begin

unbundle bit_operations_syntax

text \<open>
  The per-service counters of \<open>internal/triggers/four_triggers.go\<close>: the ten-bucket sliding
  window, the success window that extends it with a latency baseline, and the hashed table
  in which outbound calls look for their own retry. Fixed-size arrays are lists whose
  lengths the invariants state.
\<close>

definition windowBuckets :: nat where "windowBuckets = 10"
definition windowSeconds :: int where "windowSeconds = 10"
definition slowMultiplier :: float64 where "slowMultiplier = f64 3"
definition ewmaAlpha :: float64 where "ewmaAlpha = f64 (5 / 100)"
definition minBaselineNs :: int where "minBaselineNs = millisecond"
definition maxBaselineNs :: int where "maxBaselineNs = hour"
definition retryWindowMs :: int where "retryWindowMs = 10000"
definition retryProbeLimit :: nat where "retryProbeLimit = 8"
definition retryTableSize :: nat where "retryTableSize = 256"

datatype signal_kind = SignalOther | SignalServer | SignalClient

record request_signal =
  sig_Kind :: signal_kind
  sig_StatusCode :: int
  sig_DurationNs :: int
  sig_OutboundRetryKeyHash :: "64 word"
  sig_IsRetry :: "bool option"
  sig_NowUnixMs :: int

section \<open>Counting windows\<close>

record counting_window =
  cw_hits :: "int list"
  cw_total :: "int list"
  bucketSec :: "int list"

definition cw_zero :: counting_window where
  "cw_zero = \<lparr>cw_hits = replicate windowBuckets 0, cw_total = replicate windowBuckets 0,
              bucketSec = replicate windowBuckets 0\<rparr>"

definition cw_init :: "('a) counting_window_scheme \<Rightarrow> ('a) counting_window_scheme" where
  "cw_init w = w\<lparr>bucketSec := map (\<lambda>_. - 1) (bucketSec w)\<rparr>"

definition maybeRoll :: "nat \<Rightarrow> int \<Rightarrow> ('a) counting_window_scheme \<Rightarrow> ('a) counting_window_scheme" where
  "maybeRoll bucket sec w =
     (if bucketSec w ! bucket = sec then w
      else w\<lparr>bucketSec := (bucketSec w)[bucket := sec], cw_hits := (cw_hits w)[bucket := 0], cw_total := (cw_total w)[bucket := 0]\<rparr>)"

text \<open>The two statements \<open>w.total[bucket]++\<close> and \<open>w.hits[bucket]++\<close>.\<close>

definition incTotal :: "nat \<Rightarrow> ('a) counting_window_scheme \<Rightarrow> ('a) counting_window_scheme" where
  "incTotal bucket w = w\<lparr>cw_total := (cw_total w)[bucket := cw_total w ! bucket + 1]\<rparr>"

definition incHits :: "nat \<Rightarrow> ('a) counting_window_scheme \<Rightarrow> ('a) counting_window_scheme" where
  "incHits bucket w = w\<lparr>cw_hits := (cw_hits w)[bucket := cw_hits w ! bucket + 1]\<rparr>"

definition collect :: "int \<Rightarrow> ('a) counting_window_scheme \<Rightarrow> int \<times> int" where
  "collect nowSec w =
     (let minSec = nowSec - (windowSeconds - 1)
      in fold (\<lambda>i (h, t). let s = bucketSec w ! i
                           in if minSec \<le> s \<and> s \<le> nowSec then (h + cw_hits w ! i, t + cw_total w ! i) else (h, t))
           [0..<windowBuckets] (0, 0))"

section \<open>The success window\<close>

text \<open>Go embeds \<open>countingWindow\<close> in \<open>successWindow\<close>; here the record extends it.\<close>

record success_window = counting_window +
  ewmaNs :: float64

definition sw_zero :: success_window where
  "sw_zero = counting_window.extend cw_zero \<lparr>ewmaNs = Fin 0\<rparr>"

definition sw_init :: "success_window \<Rightarrow> success_window" where
  "sw_init w = cw_init w"

definition clamp64 :: "int \<Rightarrow> int \<Rightarrow> int \<Rightarrow> int" where
  "clamp64 v lo hi = (if v < lo then lo else if v > hi then hi else v)"

definition recordIfSuccessLike :: "goarch \<Rightarrow> request_signal \<Rightarrow> nat \<Rightarrow> success_window \<Rightarrow> success_window" where
  "recordIfSuccessLike arch sig bucket w =
     (if sig_StatusCode sig < 200 \<or> sig_StatusCode sig \<ge> 400 then w
      else
        let w1 = incTotal bucket w;
            durationClamped = clamp64 (sig_DurationNs sig) minBaselineNs maxBaselineNs;
            ewma = (if f_le (ewmaNs w1) (Fin 0) then f_of_int durationClamped
                    else f_muladd arch ewmaAlpha (f_sub (f_of_int durationClamped) (ewmaNs w1)) (ewmaNs w1));
            w2 = w1\<lparr>ewmaNs := ewma\<rparr>;
            threshold = f_to_i64 arch (f_mul ewma slowMultiplier)
        in if sig_DurationNs sig > threshold then incHits bucket w2 else w2)"

section \<open>The retry table\<close>

record retry_table =
  rt_Hash :: "64 word list"
  rt_LastSec :: "int list"

definition rt_zero :: retry_table where
  "rt_zero = \<lparr>rt_Hash = replicate retryTableSize 0, rt_LastSec = replicate retryTableSize 0\<rparr>"

text \<open>
  The probe loop of \<open>isRetry\<close>: \<open>Some\<close> when an iteration returns, \<open>None\<close> when all offsets
  are exhausted.
\<close>

fun isRetry_probe :: "64 word \<Rightarrow> int \<Rightarrow> nat \<Rightarrow> nat list \<Rightarrow> retry_table \<Rightarrow> (retry_table \<times> bool) option" where
  "isRetry_probe keyHash nowMs idx [] t = None"
| "isRetry_probe keyHash nowMs idx (offset # offsets) t =
     (let i = (idx + offset) AND (retryTableSize - 1)
      in if rt_Hash t ! i = 0
         then Some (t\<lparr>rt_Hash := (rt_Hash t)[i := keyHash], rt_LastSec := (rt_LastSec t)[i := nowMs sdiv 1000]\<rparr>, False)
         else if rt_Hash t ! i = keyHash
         then let ageMs = nowMs - rt_LastSec t ! i * 1000
              in Some (t\<lparr>rt_LastSec := (rt_LastSec t)[i := nowMs sdiv 1000]\<rparr>, ageMs \<le> retryWindowMs)
         else isRetry_probe keyHash nowMs idx offsets t)"

definition isRetry :: "request_signal \<Rightarrow> retry_table \<Rightarrow> retry_table \<times> bool" where
  "isRetry sig t =
     (case sig_IsRetry sig of
        Some b \<Rightarrow> (t, b)
      | None \<Rightarrow>
          if sig_OutboundRetryKeyHash sig = 0 then (t, False)
          else
            let keyHash = sig_OutboundRetryKeyHash sig;
                idx = unat (keyHash AND of_nat (retryTableSize - 1))
            in case isRetry_probe keyHash (sig_NowUnixMs sig) idx [0..<retryProbeLimit] t of
                 Some r \<Rightarrow> r
               | None \<Rightarrow>
                   (t\<lparr>rt_Hash := (rt_Hash t)[idx := keyHash],
                      rt_LastSec := (rt_LastSec t)[idx := sig_NowUnixMs sig sdiv 1000]\<rparr>, False))"

lemmas window_consts = windowBuckets_def windowSeconds_def minBaselineNs_def maxBaselineNs_def
  retryWindowMs_def retryProbeLimit_def retryTableSize_def

section \<open>Well-formed windows\<close>

definition win_ok :: "('a) counting_window_scheme \<Rightarrow> bool" where
  "win_ok w \<longleftrightarrow> length (cw_hits w) = windowBuckets \<and> length (cw_total w) = windowBuckets
     \<and> length (bucketSec w) = windowBuckets
     \<and> (\<forall>i<windowBuckets. 0 \<le> cw_hits w ! i \<and> cw_hits w ! i \<le> cw_total w ! i)"

lemma win_ok_init: "win_ok (cw_init cw_zero)" "win_ok (sw_init sw_zero)"
  by (simp_all add: win_ok_def cw_init_def sw_init_def cw_zero_def sw_zero_def counting_window.defs)

lemma win_ok_roll: "win_ok w \<Longrightarrow> win_ok (maybeRoll b sec w)"
  by (auto simp: win_ok_def maybeRoll_def nth_list_update_if)

lemma win_ok_incTotal: "win_ok w \<Longrightarrow> win_ok (incTotal b w)"
  by (auto simp: win_ok_def incTotal_def nth_list_update_if add_increasing2)

lemma win_ok_hit: "win_ok w \<Longrightarrow> b < windowBuckets \<Longrightarrow> win_ok (incHits b (incTotal b w))"
  by (auto simp: win_ok_def incTotal_def incHits_def nth_list_update_if)

lemma win_ok_ewma [simp]: "win_ok (w\<lparr>ewmaNs := x\<rparr>) = win_ok w"
  by (simp add: win_ok_def)

lemma incHits_ewma [simp]: "incHits b (w\<lparr>ewmaNs := x\<rparr>) = (incHits b w)\<lparr>ewmaNs := x\<rparr>"
  by (simp add: incHits_def)

lemma win_ok_record: "win_ok w \<Longrightarrow> b < windowBuckets \<Longrightarrow> win_ok (recordIfSuccessLike arch sig b w)"
  by (simp add: recordIfSuccessLike_def Let_def win_ok_incTotal win_ok_hit)

lemmas win_ok_intros [intro] = win_ok_init win_ok_roll win_ok_incTotal win_ok_hit win_ok_record

text \<open>\<open>collect\<close> as two sums over the live buckets.\<close>

definition live :: "int \<Rightarrow> ('a) counting_window_scheme \<Rightarrow> nat \<Rightarrow> bool" where
  "live nowSec w i \<longleftrightarrow> nowSec - 9 \<le> bucketSec w ! i \<and> bucketSec w ! i \<le> nowSec"

lemma fold_pair_sum:
  "fold (\<lambda>i (h, t). if P i then (h + f i, t + g i) else (h, t)) xs (a, b) =
   (a + sum_list (map (\<lambda>i. if P i then f i else 0) xs), b + sum_list (map (\<lambda>i. if P i then g i else (0::int)) xs))"
  for f :: "nat \<Rightarrow> int"
  by (induction xs arbitrary: a b) auto

lemma collect_eq:
  "collect nowSec w =
    ((\<Sum>i<windowBuckets. if live nowSec w i then cw_hits w ! i else 0),
     (\<Sum>i<windowBuckets. if live nowSec w i then cw_total w ! i else 0))"
proof -
  have "collect nowSec w = fold (\<lambda>i (h, t). if live nowSec w i then (h + cw_hits w ! i, t + cw_total w ! i) else (h, t))
      [0..<windowBuckets] (0, 0)"
    by (simp add: collect_def live_def windowSeconds_def Let_def)
  also have "\<dots> = (sum_list (map (\<lambda>i. if live nowSec w i then cw_hits w ! i else 0) [0..<windowBuckets]),
      sum_list (map (\<lambda>i. if live nowSec w i then cw_total w ! i else 0) [0..<windowBuckets]))"
    by (simp only: fold_pair_sum add_0)
  finally show ?thesis by (simp add: interv_sum_list_conv_sum_set_nat atLeast0LessThan)
qed

lemma collect_bounds:
  assumes "win_ok w" "collect nowSec w = (h, t)"
  shows "0 \<le> h" "h \<le> t"
  using assms by (auto simp: collect_eq win_ok_def intro!: sum_nonneg sum_mono)


section \<open>The ten buckets are an exact ten-second window\<close>

text \<open>
  What happens to one window when a signal of second \<open>sec\<close> arrives: the bucket of that
  second is rolled; then nothing, a count, or a count and a hit.
\<close>

type_synonym win_event = "int \<times> bool option"

definition bucket_of :: "int \<Rightarrow> nat" where
  "bucket_of sec = nat (sec mod 10)"

definition win_apply :: "win_event \<Rightarrow> ('a) counting_window_scheme \<Rightarrow> ('a) counting_window_scheme" where
  "win_apply e w =
     (let b = bucket_of (fst e); w1 = maybeRoll b (fst e) w
      in case snd e of None \<Rightarrow> w1 | Some h \<Rightarrow> let w2 = incTotal b w1 in if h then incHits b w2 else w2)"

text \<open>The reference: count, in the whole history, the events of the last ten seconds.\<close>

definition counted :: "win_event list \<Rightarrow> int \<Rightarrow> int \<Rightarrow> int" where
  "counted es lo now = int (length (filter (\<lambda>e. lo \<le> fst e \<and> fst e \<le> now \<and> snd e \<noteq> None) es))"

definition counted_hits :: "win_event list \<Rightarrow> int \<Rightarrow> int \<Rightarrow> int" where
  "counted_hits es lo now = int (length (filter (\<lambda>e. lo \<le> fst e \<and> fst e \<le> now \<and> snd e = Some True) es))"

definition bucket_exact :: "win_event list \<Rightarrow> ('a) counting_window_scheme \<Rightarrow> nat \<Rightarrow> bool" where
  "bucket_exact es w i \<longleftrightarrow>
     (let s = bucketSec w ! i
      in (if s = - 1 then (\<forall>e\<in>set es. bucket_of (fst e) \<noteq> i)
          else s \<in> fst ` set es \<and> bucket_of s = i \<and> (\<forall>e\<in>set es. bucket_of (fst e) = i \<longrightarrow> fst e \<le> s))
       \<and> cw_total w ! i = counted es s s \<and> cw_hits w ! i = counted_hits es s s)"

definition win_exact :: "win_event list \<Rightarrow> ('a) counting_window_scheme \<Rightarrow> bool" where
  "win_exact es w \<longleftrightarrow> win_ok w \<and> (\<forall>i<windowBuckets. bucket_exact es w i)"

lemma bucket_of_less [simp]: "bucket_of s < windowBuckets"
  by (simp add: bucket_of_def windowBuckets_def nat_less_iff)

lemma counted_snoc:
  "counted (es @ [e]) lo now = counted es lo now + (if lo \<le> fst e \<and> fst e \<le> now \<and> snd e \<noteq> None then 1 else 0)"
  "counted_hits (es @ [e]) lo now = counted_hits es lo now + (if lo \<le> fst e \<and> fst e \<le> now \<and> snd e = Some True then 1 else 0)"
  by (simp_all add: counted_def counted_hits_def)

lemma win_ok_apply [intro]: "win_ok w \<Longrightarrow> win_ok (win_apply e w)"
  by (auto simp: win_apply_def Let_def split: option.split)

lemma win_exact_init: "win_exact [] (cw_init cw_zero)" "win_exact [] (sw_init sw_zero)"
  by (auto simp: win_exact_def bucket_exact_def counted_def counted_hits_def cw_init_def sw_init_def
      cw_zero_def sw_zero_def counting_window.defs win_ok_def windowBuckets_def Let_def)

lemma apply_fields:
  assumes "win_ok w" "i < windowBuckets" "bucket_of (fst e) = b"
  shows "bucketSec (win_apply e w) ! i = (if i = b then fst e else bucketSec w ! i)"
    and "cw_total (win_apply e w) ! i =
      (if i = b then (if bucketSec w ! b = fst e then cw_total w ! b else 0) + (if snd e = None then 0 else 1) else cw_total w ! i)"
    and "cw_hits (win_apply e w) ! i =
      (if i = b then (if bucketSec w ! b = fst e then cw_hits w ! b else 0) + (if snd e = Some True then 1 else 0) else cw_hits w ! i)"
  using assms bucket_of_less [of "fst e"]
  by (auto simp: win_apply_def maybeRoll_def incTotal_def incHits_def win_ok_def nth_list_update_if Let_def
      split: option.split)

lemma counted_none: "(\<And>e. e \<in> set es \<Longrightarrow> fst e \<noteq> s) \<Longrightarrow> counted es s s = 0 \<and> counted_hits es s s = 0"
  by (auto simp: counted_def counted_hits_def filter_empty_conv)

lemma win_exact_apply:
  assumes ex: "win_exact es w" and le: "\<And>e'. e' \<in> set es \<Longrightarrow> fst e' \<le> fst e" and nn: "0 \<le> fst e"
  shows "win_exact (es @ [e]) (win_apply e w)"
  unfolding win_exact_def
proof (intro conjI allI impI)
  from ex have ok: "win_ok w" by (simp add: win_exact_def)
  then show "win_ok (win_apply e w)" by (rule win_ok_apply)
  fix i assume i: "i < windowBuckets"
  let ?s = "fst e" and ?b = "bucket_of (fst e)"
  note flds = apply_fields [OF ok i refl, of e]
  from ex i have b: "bucket_exact es w i" by (simp add: win_exact_def)
  show "bucket_exact (es @ [e]) (win_apply e w) i"
  proof (cases "i = ?b")
    case False
    have "bucketSec w ! i \<noteq> ?s"
      using b False nn by (auto simp: bucket_exact_def Let_def split: if_splits)
    with b False show ?thesis
      unfolding bucket_exact_def Let_def flds by (auto simp: counted_snoc)
  next
    case True
    have fresh: "counted es ?s ?s = 0 \<and> counted_hits es ?s ?s = 0" if ne: "bucketSec w ! i \<noteq> ?s"
    proof (rule counted_none)
      fix e' assume e': "e' \<in> set es"
      show "fst e' \<noteq> ?s"
      proof
        assume eq: "fst e' = ?s"
        show False
        proof (cases "bucketSec w ! i = - 1")
          case True
          with b e' eq \<open>i = ?b\<close> show False by (auto simp: bucket_exact_def Let_def)
        next
          case notfirst: False
          with b e' eq \<open>i = ?b\<close> have "?s \<le> bucketSec w ! i" "bucketSec w ! i \<in> fst ` set es"
            by (auto simp: bucket_exact_def Let_def)
          with le ne show False by force
        qed
      qed
    qed
    with b True nn le show ?thesis
      unfolding bucket_exact_def Let_def flds by (auto simp: counted_snoc)
  qed
qed

definition win_run :: "win_event list \<Rightarrow> ('a) counting_window_scheme \<Rightarrow> ('a) counting_window_scheme" where
  "win_run es w = fold win_apply es w"

lemma win_exact_run:
  assumes "win_exact [] w" "sorted (map fst es)" "\<And>e. e \<in> set es \<Longrightarrow> 0 \<le> fst e"
  shows "win_exact es (win_run es w)"
  using assms(2,3)
proof (induction es rule: rev_induct)
  case Nil
  then show ?case using assms(1) by (simp add: win_run_def)
next
  case (snoc e es)
  then show ?case by (simp add: win_run_def sorted_append win_exact_apply)
qed

text \<open>Ten consecutive seconds meet every bucket once.\<close>

lemma sum_residues:
  "(\<Sum>i<10. f (now - (now - int i) mod 10)) = (\<Sum>j<10. f (now - int j))" for f :: "int \<Rightarrow> int" and now :: int
  by (rule sum.reindex_bij_witness
      [where i = "\<lambda>i. nat ((now - int i) mod 10)" and j = "\<lambda>j. nat ((now - int j) mod 10)"])
    (auto simp: nat_less_iff mod_diff_right_eq)

lemma window_split:
  "(\<Sum>j<10::nat. int (length (filter (\<lambda>e. now - int j \<le> f e \<and> f e \<le> now - int j \<and> P e) es))) =
   int (length (filter (\<lambda>e. now - 9 \<le> f e \<and> f e \<le> now \<and> P e) es))" for f :: "'e \<Rightarrow> int"
proof (induction es)
  case (Cons e es)
  have one: "(\<Sum>j<10::nat. if now - int j \<le> f e \<and> f e \<le> now - int j \<and> P e then 1 else 0) =
      (if now - 9 \<le> f e \<and> f e \<le> now \<and> P e then 1 else (0::int))"
    by (simp add: eval_nat_numeral)
  have "(\<Sum>j<10::nat. int (length (filter (\<lambda>e. now - int j \<le> f e \<and> f e \<le> now - int j \<and> P e) (e # es)))) =
      (\<Sum>j<10::nat. (if now - int j \<le> f e \<and> f e \<le> now - int j \<and> P e then 1 else 0) +
        int (length (filter (\<lambda>e. now - int j \<le> f e \<and> f e \<le> now - int j \<and> P e) es)))"
    by (intro sum.cong) auto
  also have "\<dots> = (if now - 9 \<le> f e \<and> f e \<le> now \<and> P e then 1 else 0) +
        int (length (filter (\<lambda>e. now - 9 \<le> f e \<and> f e \<le> now \<and> P e) es))"
    by (simp only: sum.distrib one Cons.IH)
  finally show ?case by simp
qed simp


lemma same_residue:
  assumes "x mod 10 = y mod 10" "n - 9 \<le> x" "x \<le> n" "n - 9 \<le> y" "y \<le> n"
  shows "x = (y::int)"
proof -
  from assms(1) have "10 dvd x - y" by (simp add: mod_eq_dvd_iff)
  then obtain k where "x - y = 10 * k" by (rule dvdE)
  with assms(2-5) have "k = 0" by linarith
  with \<open>x - y = 10 * k\<close> show ?thesis by simp
qed

text \<open>The live buckets hold exactly the last ten seconds.\<close>

lemma live_bucket:
  assumes ex: "win_exact es w" and le: "\<And>e. e \<in> set es \<Longrightarrow> fst e \<le> now" and nn: "\<And>e. e \<in> set es \<Longrightarrow> 0 \<le> fst e"
    and i: "i < windowBuckets"
  shows "(if live now w i then cw_total w ! i else 0) = counted es (now - (now - int i) mod 10) (now - (now - int i) mod 10)"
    and "(if live now w i then cw_hits w ! i else 0) = counted_hits es (now - (now - int i) mod 10) (now - (now - int i) mod 10)"
proof -
  let ?s = "now - (now - int i) mod 10" and ?b = "bucketSec w ! i"
  from ex i have b: "bucket_exact es w i" by (simp add: win_exact_def)
  have i10: "i < 10" using i by (simp add: windowBuckets_def)
  have res: "?s mod 10 = int i"
  proof -
    have "?s mod 10 = (now - (now - int i)) mod 10" by (rule mod_diff_right_eq)
    then show ?thesis using i10 by simp
  qed
  have near: "now - 9 \<le> ?s" "?s \<le> now" using pos_mod_bound [of 10 "now - int i"] pos_mod_sign [of 10 "now - int i"] by linarith+
  have only: "fst e = ?s" if "now - 9 \<le> fst e" "fst e \<le> now" "bucket_of (fst e) = i" "0 \<le> fst e" for e :: win_event
  proof -
    have "fst e mod 10 = int i" unfolding that(3) [symmetric] bucket_of_def by simp
    then have "fst e mod 10 = ?s mod 10" by (simp only: res)
    then show ?thesis using that(1,2) near by (rule same_residue)
  qed
  have "(if live now w i then cw_total w ! i else 0) = counted es ?s ?s \<and>
        (if live now w i then cw_hits w ! i else 0) = counted_hits es ?s ?s"
  proof (cases "live now w i \<and> ?b \<noteq> - 1")
    case True
    with b have "?b \<in> fst ` set es" "bucket_of ?b = i" by (simp_all add: bucket_exact_def Let_def)
    then obtain e where e: "e \<in> set es" "?b = fst e" "bucket_of (fst e) = i" by auto
    from True have lv: "now - 9 \<le> fst e" "fst e \<le> now" by (simp_all add: live_def e(2))
    have "?b = ?s" using only [OF lv e(3) nn [OF e(1)]] e(2) by simp
    with b have "cw_total w ! i = counted es ?s ?s \<and> cw_hits w ! i = counted_hits es ?s ?s"
      unfolding bucket_exact_def Let_def by (elim conjE) simp
    with True show ?thesis by simp
  next
    case False
    have "fst e \<noteq> ?s" if "e \<in> set es" for e
    proof
      assume eq: "fst e = ?s"
      then have "bucket_of (fst e) = i" using res by (simp add: bucket_of_def)
      with b that have "?b \<noteq> - 1" "fst e \<le> ?b" "?b \<in> fst ` set es"
        by (auto simp: bucket_exact_def Let_def split: if_splits)
      with le near eq False show False by (auto simp: live_def)
    qed
    then have "counted es ?s ?s = 0" "counted_hits es ?s ?s = 0" using counted_none [of es ?s] by auto
    moreover have "cw_total w ! i = 0 \<and> cw_hits w ! i = 0" if "live now w i"
    proof -
      have "?b = - 1" using False that by simp
      with b have "cw_total w ! i = counted es (- 1) (- 1)" "cw_hits w ! i = counted_hits es (- 1) (- 1)"
        by (auto simp: bucket_exact_def Let_def)
      moreover have "fst e \<noteq> - 1" if "e \<in> set es" for e using nn [OF that] by simp
      ultimately show ?thesis using counted_none [of es "- 1"] by auto
    qed
    ultimately show ?thesis by auto
  qed
  then show "(if live now w i then cw_total w ! i else 0) = counted es ?s ?s"
    "(if live now w i then cw_hits w ! i else 0) = counted_hits es ?s ?s" by blast+
qed

lemma collect_exact:
  assumes "win_exact es w" "\<And>e. e \<in> set es \<Longrightarrow> fst e \<le> now" "\<And>e. e \<in> set es \<Longrightarrow> 0 \<le> fst e"
  shows "collect now w = (counted_hits es (now - 9) now, counted es (now - 9) now)"
proof -
  let ?s = "\<lambda>i. now - (now - int i) mod 10"
  have "(\<Sum>i<windowBuckets. if live now w i then cw_hits w ! i else 0) = (\<Sum>i<windowBuckets. counted_hits es (?s i) (?s i))"
    using assms by (intro sum.cong refl live_bucket) auto
  also have "\<dots> = (\<Sum>j<10. counted_hits es (now - int j) (now - int j))"
    unfolding windowBuckets_def by (rule sum_residues [where f = "\<lambda>s. counted_hits es s s"])
  also have "\<dots> = counted_hits es (now - 9) now"
    unfolding counted_hits_def by (rule window_split)
  finally have h: "(\<Sum>i<windowBuckets. if live now w i then cw_hits w ! i else 0) = counted_hits es (now - 9) now" .
  have "(\<Sum>i<windowBuckets. if live now w i then cw_total w ! i else 0) = (\<Sum>i<windowBuckets. counted es (?s i) (?s i))"
    using assms by (intro sum.cong refl live_bucket) auto
  also have "\<dots> = (\<Sum>j<10. counted es (now - int j) (now - int j))"
    unfolding windowBuckets_def by (rule sum_residues [where f = "\<lambda>s. counted es s s"])
  also have "\<dots> = counted es (now - 9) now"
    unfolding counted_def by (rule window_split)
  finally show ?thesis using h by (simp add: collect_eq)
qed


section \<open>The latency baseline\<close>

definition ewma_ok :: "float64 \<Rightarrow> bool" where
  "ewma_ok x = (case x of Fin q \<Rightarrow> q = 0 \<or> (fl q = q \<and> of_int minBaselineNs \<le> q \<and> q \<le> of_int maxBaselineNs)
                | _ \<Rightarrow> False)"

lemma baseline_consts: "minBaselineNs = 1000000" "maxBaselineNs = 3600000000000"
  by (simp_all add: minBaselineNs_def maxBaselineNs_def duration_defs)

lemma ewmaAlpha_Fin: obtains a where "ewmaAlpha = Fin a" "0 \<le> a" "a \<le> 1 / 2"
proof
  show "ewmaAlpha = Fin (fl (5 / 100))"
    unfolding ewmaAlpha_def by (rule f64_Fin) (rule le_2_1000, simp)
  have "fl (1 / 2) = 1 / 2" using fl_powi2 [of "- 1"] by (simp add: power_int_minus)
  then show "fl (5 / 100) \<le> 1 / 2" by (intro fl_le) simp_all
qed (rule fl_nonneg, simp)

text \<open>Every intermediate value of the update is far from overflow, on either architecture.\<close>

lemma muladd_Fin:
  assumes "\<bar>a\<bar> \<le> 1" "\<bar>x\<bar> \<le> 2 ^ 60" "\<bar>e\<bar> \<le> 2 ^ 60" "fl x = x"
  shows "f_muladd arch (Fin a) (Fin x) (Fin e) =
    Fin (case arch of AMD64 \<Rightarrow> fl (e + fl (a * x)) | ARM64 \<Rightarrow> fl (a * x + e))"
proof -
  have p: "fl (2 ^ 60) = 2 ^ 60" using fl_powi2 [of 60] by simp
  have ax: "\<bar>a * x\<bar> \<le> 2 ^ 60"
    using mult_mono [OF assms(1) assms(2)] by (simp add: abs_mult)
  then have "fl (a * x) \<le> 2 ^ 60" "fl (- (a * x)) \<le> 2 ^ 60" by (intro fl_le p; simp)+
  then have y: "\<bar>fl (a * x)\<bar> \<le> 2 ^ 60" by simp
  have "\<bar>a * x\<bar> \<le> 2 ^ 1000" "\<bar>a * x + e\<bar> \<le> 2 ^ 1000" "\<bar>e + fl (a * x)\<bar> \<le> 2 ^ 1000"
    using ax y assms(3) by (auto intro!: le_2_1000')
  then show ?thesis by (cases arch) (simp_all add: f64_Fin)
qed

lemma ewma_step_ok:
  assumes "ewma_ok x" "minBaselineNs \<le> d" "d \<le> maxBaselineNs"
  shows "ewma_ok (if f_le x (Fin 0) then f_of_int d else f_muladd arch ewmaAlpha (f_sub (f_of_int d) x) x)"
proof -
  let ?d = "of_int d :: rat"
  have d: "\<bar>d\<bar> \<le> 2 ^ 53" using assms(2,3) by (simp add: baseline_consts)
  have dF: "f_of_int d = Fin ?d" using d by (rule f_of_int_Fin)
  have dl: "fl ?d = ?d" using d by (rule fl_of_int)
  have db: "of_int minBaselineNs \<le> ?d" "?d \<le> of_int maxBaselineNs" using assms(2,3) by simp_all
  from assms(1) obtain q where q: "x = Fin q" "q = 0 \<or> fl q = q \<and> of_int minBaselineNs \<le> q \<and> q \<le> of_int maxBaselineNs"
    by (auto simp: ewma_ok_def split: float64.splits)
  show ?thesis
  proof (cases "q \<le> 0")
    case True
    then show ?thesis using q dF dl db by (simp add: ewma_ok_def)
  next
    case False
    with q have ql: "fl q = q" and qb: "of_int minBaselineNs \<le> q" "q \<le> of_int maxBaselineNs" by auto
    obtain a where a: "ewmaAlpha = Fin a" "0 \<le> a" "a \<le> 1 / 2" by (rule ewmaAlpha_Fin)
    have one: "1 \<le> q" "1 \<le> ?d" using qb(1) db(1) by (simp_all add: baseline_consts)
    have gap: "\<bar>?d - q\<bar> \<le> 2 ^ 60" using qb db by (simp add: baseline_consts abs_le_iff)
    then have "\<bar>?d - q\<bar> \<le> 2 ^ 1000" by (intro le_2_1000') simp
    then have sub: "f_sub (f_of_int d) (Fin q) = Fin (fl (?d - q))" using dF by (simp add: f_sub_def f64_Fin)
    have p: "fl (2 ^ 60) = 2 ^ 60" using fl_powi2 [of 60] by simp
    from gap have "fl (?d - q) \<le> 2 ^ 60" "fl (- (?d - q)) \<le> 2 ^ 60" by (intro fl_le p; linarith)+
    then have "\<bar>fl (?d - q)\<bar> \<le> 2 ^ 60" unfolding fl_minus by (simp add: abs_le_iff)
    moreover have "\<bar>q\<bar> \<le> 2 ^ 60" "\<bar>a\<bar> \<le> 1" using qb one a by (simp_all add: baseline_consts)
    ultimately have upd: "f_muladd arch ewmaAlpha (f_sub (f_of_int d) x) x =
        Fin (case arch of AMD64 \<Rightarrow> fl (q + fl (a * fl (?d - q))) | ARM64 \<Rightarrow> fl (a * fl (?d - q) + q))"
      unfolding q(1) sub a(1) by (intro muladd_Fin) simp_all
    note bt = ewma_between [OF ql one(1) dl one(2) a(2,3)]
    have "of_int minBaselineNs \<le> min q ?d" "max q ?d \<le> of_int maxBaselineNs" using qb db by simp_all
    with bt have "of_int minBaselineNs \<le> fl (q + fl (a * fl (?d - q)))" "fl (q + fl (a * fl (?d - q))) \<le> of_int maxBaselineNs"
      "of_int minBaselineNs \<le> fl (a * fl (?d - q) + q)" "fl (a * fl (?d - q) + q) \<le> of_int maxBaselineNs"
      by (meson order_trans)+
    then have "ewma_ok (f_muladd arch ewmaAlpha (f_sub (f_of_int d) x) x)"
      unfolding upd by (cases arch) (simp_all add: ewma_ok_def)
    moreover have "\<not> f_le x (Fin 0)" using False q(1) by simp
    ultimately show ?thesis by simp
  qed
qed

lemma clamp64_bounds: "lo \<le> hi \<Longrightarrow> lo \<le> clamp64 v lo hi \<and> clamp64 v lo hi \<le> hi"
  by (simp add: clamp64_def)

lemma ewmaNs_roll [simp]: "ewmaNs (maybeRoll b sec w) = ewmaNs w"
  by (simp add: maybeRoll_def)

lemma ewmaNs_inc [simp]: "ewmaNs (incTotal b w) = ewmaNs w" "ewmaNs (incHits b w) = ewmaNs w"
  by (simp_all add: incTotal_def incHits_def)

lemma ewma_ok_init: "ewma_ok (ewmaNs (sw_init sw_zero))"
  by (simp add: ewma_ok_def sw_init_def cw_init_def sw_zero_def counting_window.defs)

lemma ewma_ok_record:
  assumes "ewma_ok (ewmaNs w)"
  shows "ewma_ok (ewmaNs (recordIfSuccessLike arch sig b w))"
proof -
  have "minBaselineNs \<le> maxBaselineNs" by (simp add: baseline_consts)
  from clamp64_bounds [OF this, of "sig_DurationNs sig"]
  have "ewma_ok (if f_le (ewmaNs w) (Fin 0) then f_of_int (clamp64 (sig_DurationNs sig) minBaselineNs maxBaselineNs)
    else f_muladd arch ewmaAlpha (f_sub (f_of_int (clamp64 (sig_DurationNs sig) minBaselineNs maxBaselineNs)) (ewmaNs w)) (ewmaNs w))"
    using assms by (intro ewma_step_ok) simp_all
  then show ?thesis using assms by (simp add: recordIfSuccessLike_def Let_def split: if_splits)
qed


section \<open>The retry table\<close>

text \<open>The slots a key may occupy, in probe order.\<close>

definition retry_slots :: "64 word \<Rightarrow> nat list" where
  "retry_slots key = map (\<lambda>offset. (unat (key AND of_nat (retryTableSize - 1)) + offset) AND (retryTableSize - 1)) [0..<retryProbeLimit]"

definition rt_ok :: "retry_table \<Rightarrow> bool" where
  "rt_ok t \<longleftrightarrow> length (rt_Hash t) = retryTableSize \<and> length (rt_LastSec t) = retryTableSize"

definition home_slot :: "64 word \<Rightarrow> nat" where
  "home_slot key = unat (key AND of_nat (retryTableSize - 1))"

lemma nat_and_255: "(n::nat) AND 255 = n mod 256"
  using take_bit_eq_mask [of 8 n] by (simp add: take_bit_eq_mod mask_eq_exp_minus_1)

lemma home_slot_less: "home_slot key < 256"
proof -
  have "key AND 255 = take_bit 8 key" by (simp add: take_bit_eq_mask mask_eq_exp_minus_1)
  then have "unat (key AND 255) = take_bit 8 (unat key)" by (simp add: unsigned_take_bit_eq)
  then show ?thesis by (simp add: home_slot_def retryTableSize_def take_bit_eq_mod)
qed

lemma retry_slots_bound: "i \<in> set (retry_slots key) \<Longrightarrow> i < retryTableSize"
  by (auto simp: retry_slots_def retryTableSize_def nat_and_255)

lemma retry_slots_head: "retry_slots key = home_slot key # tl (retry_slots key)"
  using home_slot_less [of key]
  by (simp add: retry_slots_def home_slot_def retryProbeLimit_def retryTableSize_def nat_and_255 upt_rec)

text \<open>The probe loop over the slots themselves.\<close>

fun probe_slots :: "64 word \<Rightarrow> int \<Rightarrow> nat list \<Rightarrow> retry_table \<Rightarrow> (retry_table \<times> bool) option" where
  "probe_slots key nowMs [] t = None"
| "probe_slots key nowMs (i # sl) t =
     (if rt_Hash t ! i = 0
      then Some (t\<lparr>rt_Hash := (rt_Hash t)[i := key], rt_LastSec := (rt_LastSec t)[i := nowMs sdiv 1000]\<rparr>, False)
      else if rt_Hash t ! i = key
      then Some (t\<lparr>rt_LastSec := (rt_LastSec t)[i := nowMs sdiv 1000]\<rparr>, nowMs - rt_LastSec t ! i * 1000 \<le> retryWindowMs)
      else probe_slots key nowMs sl t)"

lemma isRetry_probe_slots:
  "isRetry_probe key nowMs idx offsets t = probe_slots key nowMs (map (\<lambda>offset. (idx + offset) AND (retryTableSize - 1)) offsets) t"
  by (induction offsets) (simp_all add: Let_def)

definition touch_slot :: "64 word \<Rightarrow> int \<Rightarrow> nat \<Rightarrow> retry_table \<Rightarrow> retry_table" where
  "touch_slot key sec i t = t\<lparr>rt_Hash := (rt_Hash t)[i := key], rt_LastSec := (rt_LastSec t)[i := sec]\<rparr>"

text \<open>Without an explicit hint, one slot of the probe sequence is claimed, and only a match in time is a retry.\<close>

lemma probe_slots_eq:
  "probe_slots key nowMs sl t =
    map_option (\<lambda>i. (touch_slot key (nowMs sdiv 1000) i t,
        rt_Hash t ! i \<noteq> 0 \<and> nowMs - rt_LastSec t ! i * 1000 \<le> retryWindowMs))
      (List.find (\<lambda>i. rt_Hash t ! i = 0 \<or> rt_Hash t ! i = key) sl)"
proof (induction sl)
  case (Cons i sl)
  have "(rt_Hash t)[i := rt_Hash t ! i] = rt_Hash t" by simp
  with Cons show ?case by (auto simp: touch_slot_def)
qed simp

lemma isRetry_hashed:
  assumes "sig_IsRetry sig = None" "sig_OutboundRetryKeyHash sig = key" "key \<noteq> 0"
  shows "isRetry sig t = (case probe_slots key (sig_NowUnixMs sig) (retry_slots key) t of
      Some r \<Rightarrow> r | None \<Rightarrow> (touch_slot key (sig_NowUnixMs sig sdiv 1000) (home_slot key) t, False))"
  using assms
  by (simp add: isRetry_def isRetry_probe_slots retry_slots_def home_slot_def touch_slot_def Let_def split: option.split)


lemma touch_slot_ok [simp]: "rt_ok (touch_slot key sec i t) = rt_ok t"
  by (simp add: touch_slot_def rt_ok_def)

text \<open>Which slot a key settles in, and what the call answers.\<close>

lemma isRetry_slot:
  assumes "sig_IsRetry sig = None" "sig_OutboundRetryKeyHash sig = key" "key \<noteq> 0"
  obtains i where "i \<in> set (retry_slots key)"
    "fst (isRetry sig t) = touch_slot key (sig_NowUnixMs sig sdiv 1000) i t"
    "snd (isRetry sig t) \<longleftrightarrow> rt_Hash t ! i = key \<and> sig_NowUnixMs sig - rt_LastSec t ! i * 1000 \<le> retryWindowMs"
    "List.find (\<lambda>j. rt_Hash t ! j = 0 \<or> rt_Hash t ! j = key) (retry_slots key) \<in> {None, Some i}"
    "List.find (\<lambda>j. rt_Hash t ! j = 0 \<or> rt_Hash t ! j = key) (retry_slots key) = None \<longrightarrow> i = home_slot key"
proof (cases "List.find (\<lambda>j. rt_Hash t ! j = 0 \<or> rt_Hash t ! j = key) (retry_slots key)")
  case None
  have "home_slot key \<in> set (retry_slots key)" by (metis retry_slots_head list.set_intros(1))
  moreover from this None have "rt_Hash t ! home_slot key \<noteq> key" by (auto simp: find_None_iff)
  ultimately show ?thesis
    using None by (intro that [of "home_slot key"]) (simp_all add: isRetry_hashed [OF assms] probe_slots_eq)
next
  case (Some i)
  then have i: "i \<in> set (retry_slots key)" "rt_Hash t ! i = 0 \<or> rt_Hash t ! i = key"
    by (auto simp: find_Some_iff)
  then show ?thesis
    using Some assms(3) by (intro that [of i]) (auto simp: isRetry_hashed [OF assms] probe_slots_eq)
qed

lemma isRetry_table:
  assumes "sig_IsRetry sig = None \<and> sig_OutboundRetryKeyHash sig \<noteq> 0"
  shows "\<exists>i. fst (isRetry sig t) = touch_slot (sig_OutboundRetryKeyHash sig) (sig_NowUnixMs sig sdiv 1000) i t"
proof (rule isRetry_slot [of sig "sig_OutboundRetryKeyHash sig" t])
  fix i assume "fst (isRetry sig t) = touch_slot (sig_OutboundRetryKeyHash sig) (sig_NowUnixMs sig sdiv 1000) i t"
  then show ?thesis by (rule exI)
qed (use assms in simp_all)

lemma isRetry_unhashed: "\<not> (sig_IsRetry sig = None \<and> sig_OutboundRetryKeyHash sig \<noteq> 0) \<Longrightarrow> fst (isRetry sig t) = t"
  by (auto simp: isRetry_def split: option.splits)

lemma rt_ok_isRetry: "rt_ok t \<Longrightarrow> rt_ok (fst (isRetry sig t))"
proof (cases "sig_IsRetry sig = None \<and> sig_OutboundRetryKeyHash sig \<noteq> 0")
  case True
  then obtain i where "fst (isRetry sig t) = touch_slot (sig_OutboundRetryKeyHash sig) (sig_NowUnixMs sig sdiv 1000) i t"
    using isRetry_table by blast
  then show "rt_ok t \<Longrightarrow> rt_ok (fst (isRetry sig t))" by simp
qed (simp add: isRetry_unhashed)

text \<open>A table after the signals of a history, oldest first.\<close>

definition rt_run :: "request_signal list \<Rightarrow> retry_table \<Rightarrow> retry_table" where
  "rt_run sigs t = fold (\<lambda>sig t. fst (isRetry sig t)) sigs t"

lemma rt_ok_run: "rt_ok t \<Longrightarrow> rt_ok (rt_run sigs t)"
  unfolding rt_run_def by (induction sigs arbitrary: t) (simp_all add: rt_ok_isRetry)

definition rt_sound :: "request_signal list \<Rightarrow> retry_table \<Rightarrow> bool" where
  "rt_sound sigs t \<longleftrightarrow> rt_ok t \<and> (\<forall>i<retryTableSize. rt_Hash t ! i \<noteq> 0 \<longrightarrow>
     (\<exists>sig\<in>set sigs. sig_OutboundRetryKeyHash sig = rt_Hash t ! i \<and> rt_LastSec t ! i = sig_NowUnixMs sig sdiv 1000))"

lemma rt_sound_step:
  assumes "rt_sound sigs t" shows "rt_sound (sigs @ [sig]) (fst (isRetry sig t))"
proof (cases "sig_IsRetry sig = None \<and> sig_OutboundRetryKeyHash sig \<noteq> 0")
  case True
  then obtain i where "fst (isRetry sig t) = touch_slot (sig_OutboundRetryKeyHash sig) (sig_NowUnixMs sig sdiv 1000) i t"
    using isRetry_table by blast
  then show ?thesis using assms
    by (auto simp: rt_sound_def touch_slot_def rt_ok_def nth_list_update_if)
next
  case False
  then show ?thesis using assms by (auto simp: rt_sound_def isRetry_unhashed)
qed

lemma rt_sound_run: "rt_sound sigs (rt_run sigs rt_zero)"
proof (induction sigs rule: rev_induct)
  case Nil
  show ?case by (simp add: rt_sound_def rt_run_def rt_ok_def rt_zero_def)
next
  case (snoc sig sigs)
  then show ?case by (simp add: rt_run_def rt_sound_step)
qed

lemma retry_again:
  assumes ok: "rt_ok t" and h: "sig_IsRetry a = None" "sig_OutboundRetryKeyHash a = key" "key \<noteq> 0"
    "sig_IsRetry b = None" "sig_OutboundRetryKeyHash b = key"
  shows "snd (isRetry b (fst (isRetry a t))) \<longleftrightarrow> sig_NowUnixMs b - (sig_NowUnixMs a sdiv 1000) * 1000 \<le> retryWindowMs"
proof -
  let ?P = "\<lambda>t j. rt_Hash t ! j = 0 \<or> rt_Hash t ! j = key"
  obtain i where i: "i \<in> set (retry_slots key)"
    "fst (isRetry a t) = touch_slot key (sig_NowUnixMs a sdiv 1000) i t"
    "List.find (?P t) (retry_slots key) \<in> {None, Some i}"
    "List.find (?P t) (retry_slots key) = None \<longrightarrow> i = home_slot key"
    by (rule isRetry_slot [OF h(1-3), of t])
  let ?t = "touch_slot key (sig_NowUnixMs a sdiv 1000) i t"
  have b: "i < retryTableSize" using i(1) by (rule retry_slots_bound)
  have at: "rt_Hash ?t ! i = key" "rt_LastSec ?t ! i = sig_NowUnixMs a sdiv 1000"
    "\<And>j. j \<noteq> i \<Longrightarrow> rt_Hash ?t ! j = rt_Hash t ! j"
    using ok b by (auto simp: touch_slot_def rt_ok_def)
  have "List.find (?P ?t) (retry_slots key) = Some i"
  proof (cases "List.find (?P t) (retry_slots key)")
    case None
    with i(4) at(1) show ?thesis by (subst retry_slots_head) simp
  next
    case (Some k)
    with i(3) have "List.find (?P t) (retry_slots key) = Some i" by simp
    then obtain n where "n < length (retry_slots key)" "i = retry_slots key ! n"
      "\<forall>m<n. \<not> ?P t (retry_slots key ! m)" "?P t i" by (auto simp: find_Some_iff)
    then show ?thesis using at
      by (subst find_Some_iff) (intro exI [of _ n], metis)
  qed
  then have "isRetry b ?t = (touch_slot key (sig_NowUnixMs b sdiv 1000) i ?t,
      rt_Hash ?t ! i \<noteq> 0 \<and> sig_NowUnixMs b - rt_LastSec ?t ! i * 1000 \<le> retryWindowMs)"
    using h by (subst isRetry_hashed [OF h(4,5,3)]) (simp add: probe_slots_eq)
  then show ?thesis using at h(3) i(2) by simp
qed


section \<open>Properties\<close>

text \<open>
  C18: the ten reused buckets count exactly the last ten seconds. For any history of signals
  whose seconds do not go backwards, \<open>collect\<close> on the window the code maintains equals
  counting, over the whole history, the events with a second in \<open>[now - 9, now]\<close> and those
  of them that were hits: nothing stale is counted, nothing recent is lost, whatever gaps
  the history has.
\<close>

theorem collect_is_last_ten_seconds:
  assumes "sorted (map fst es)" and "\<forall>e\<in>set es. 0 \<le> fst e \<and> fst e \<le> now"
  shows "collect now (win_run es (cw_init cw_zero)) = (counted_hits es (now - 9) now, counted es (now - 9) now)"
proof -
  have "win_exact es (win_run es (cw_init cw_zero))"
    using assms by (intro win_exact_run win_exact_init) auto
  then show ?thesis using assms by (intro collect_exact) auto
qed

theorem collect_is_last_ten_seconds_witness:
  "collect 25 (win_run [(3, Some True), (13, Some False), (16, Some True), (25, None)] (cw_init cw_zero)) = (1, 1)"
  using collect_is_last_ten_seconds [of "[(3, Some True), (13, Some False), (16, Some True), (25, None)]" 25]
  by (simp add: counted_def counted_hits_def del: not_None_eq)

text \<open>
  C19: a reported retry has a cause. Whatever outbound calls a service made, a call without
  an explicit hint is reported as a retry only if an earlier call had the same non-zero key
  and was seen no more than ten seconds before (the earlier time taken in whole seconds).
\<close>

theorem isRetry_sound:
  assumes "snd (isRetry sig (rt_run sigs rt_zero))" and "sig_IsRetry sig = None"
  shows "sig_OutboundRetryKeyHash sig \<noteq> 0 \<and>
    (\<exists>old\<in>set sigs. sig_OutboundRetryKeyHash old = sig_OutboundRetryKeyHash sig
       \<and> sig_NowUnixMs sig - (sig_NowUnixMs old sdiv 1000) * 1000 \<le> retryWindowMs)"
proof -
  let ?t = "rt_run sigs rt_zero"
  have nz: "sig_OutboundRetryKeyHash sig \<noteq> 0" using assms by (auto simp: isRetry_def split: if_splits)
  show ?thesis
  proof (rule isRetry_slot [OF assms(2) refl nz, of ?t])
    fix i assume i: "i \<in> set (retry_slots (sig_OutboundRetryKeyHash sig))"
      "snd (isRetry sig ?t) \<longleftrightarrow> rt_Hash ?t ! i = sig_OutboundRetryKeyHash sig
         \<and> sig_NowUnixMs sig - rt_LastSec ?t ! i * 1000 \<le> retryWindowMs"
    then have "i < retryTableSize" using retry_slots_bound by blast
    with i assms(1) rt_sound_run [of sigs] nz show ?thesis unfolding rt_sound_def by metis
  qed
qed

definition example_call :: "64 word \<Rightarrow> int \<Rightarrow> request_signal" where
  "example_call key ms = \<lparr>sig_Kind = SignalClient, sig_StatusCode = 0, sig_DurationNs = 0,
     sig_OutboundRetryKeyHash = key, sig_IsRetry = None, sig_NowUnixMs = ms\<rparr>"

text \<open>
  An immediate repeat is detected. Whatever else is in a service's table, when two calls
  with the same non-zero key follow one another, the second is reported as a retry exactly
  when it comes within the ten-second window; also when the first had to overwrite a full
  probe sequence.
\<close>

lemma isRetry_repeat:
  assumes "sig_IsRetry a = None" "sig_IsRetry b = None"
    and "sig_OutboundRetryKeyHash a = sig_OutboundRetryKeyHash b" "sig_OutboundRetryKeyHash b \<noteq> 0"
  shows "snd (isRetry b (rt_run (sigs @ [a]) rt_zero)) \<longleftrightarrow>
    sig_NowUnixMs b - (sig_NowUnixMs a sdiv 1000) * 1000 \<le> retryWindowMs"
proof -
  have "rt_ok (rt_run sigs rt_zero)" using rt_sound_run [of sigs] by (simp add: rt_sound_def)
  from retry_again [OF this assms(1,3,4,2) refl] show ?thesis by (simp add: rt_run_def)
qed

theorem isRetry_sound_witness:
  "\<exists>old\<in>set [example_call 7 2500]. sig_OutboundRetryKeyHash old = 7 \<and> 12000 - (sig_NowUnixMs old sdiv 1000) * 1000 \<le> retryWindowMs"
proof -
  have "rt_ok rt_zero" by (simp add: rt_ok_def rt_zero_def)
  from retry_again [OF this, of "example_call 7 2500" 7 "example_call 7 12000"]
  have "snd (isRetry (example_call 7 12000) (rt_run [example_call 7 2500] rt_zero))"
    by (simp add: example_call_def retryWindowMs_def rt_run_def)
  from isRetry_sound [OF this] show ?thesis by (simp add: example_call_def)
qed

end
