(* ===== verification/Triggers.thy ===== *)
theory Triggers
  imports Windows
begin

text \<open>
  The four triggers of \<open>internal/triggers/four_triggers.go\<close> on the state of one service:
  three rate triggers over the sliding windows and the in-flight pile-up.
\<close>

section \<open>Severities, configuration, reasons\<close>

text \<open>\<open>Severity\<close> is a string with the three values \<open>""\<close>, \<open>"mild"\<close> and \<open>"severe"\<close>.\<close>

datatype severity = SeverityNone | SeverityMild | SeveritySevere

datatype trigger_type =
  TriggerErrorRate5xx | TriggerSlowSuccessRate | TriggerRetryRate | TriggerInFlightPileup

record trig_config =
  ErrorRate5xxHigh :: float64
  ErrorRate5xxLow :: float64
  SlowSuccessHigh :: float64
  SlowSuccessMild :: float64
  RetryHigh :: float64
  RetryMild :: float64
  InFlightMinAbsolute :: int
  InFlightMultiplier :: float64
  InFlightNetGrowth :: int
  SevereHoldSecs :: int
  MildHoldSecs :: int
  MaxServices :: int
  ServiceTTL :: duration
  MinSamples :: int

definition defaultMaxServices :: int where "defaultMaxServices = 4096"
definition defaultServiceTTL :: duration where "defaultServiceTTL = 10 * minute"
definition minSamplesDefault :: int where "minSamplesDefault = 20"

definition trig_DefaultConfig :: trig_config where
  "trig_DefaultConfig = \<lparr>
     ErrorRate5xxHigh = f64 (10 / 100), ErrorRate5xxLow = f64 (2 / 100),
     SlowSuccessHigh = f64 (20 / 100), SlowSuccessMild = f64 (10 / 100),
     RetryHigh = f64 (10 / 100), RetryMild = f64 (5 / 100),
     InFlightMinAbsolute = 16, InFlightMultiplier = f64 3, InFlightNetGrowth = 8,
     SevereHoldSecs = 6, MildHoldSecs = 3,
     MaxServices = defaultMaxServices, ServiceTTL = defaultServiceTTL, MinSamples = minSamplesDefault\<rparr>"

record flush_reason =
  fr_Service :: string
  fr_TriggerType :: trigger_type
  fr_Severity :: severity
  fr_ObservedValue :: float64
  fr_ThresholdValue :: float64
  fr_FiredAtUnixMs :: int

definition classifyTwoTier :: "float64 \<Rightarrow> float64 \<Rightarrow> float64 \<Rightarrow> severity" where
  "classifyTwoTier rate mild high =
     (if f_le high rate then SeveritySevere else if f_le mild rate then SeverityMild else SeverityNone)"

definition shouldEmitTransition :: "severity \<Rightarrow> severity \<Rightarrow> bool" where
  "shouldEmitTransition prev current =
     (if current = SeverityNone then False
      else if prev = SeverityNone then True
      else prev = SeverityMild \<and> current = SeveritySevere)"

section \<open>The state of one service\<close>

record service_state =
  lastSeen :: time
  inFlightCurrent :: int
  inFlightPeak :: int
  inFlightEWMA :: float64
  inFlightConditionAt :: int
  lastInFlightSev :: severity
  errorWindow :: counting_window
  successWindow :: success_window
  retryWindow :: counting_window
  lastErrSev :: severity
  lastSlowSev :: severity
  lastRetrySev :: severity
  retryTable :: retry_table

definition newServiceState :: service_state where
  "newServiceState = \<lparr>
     lastSeen = zero_time, inFlightCurrent = 0, inFlightPeak = 0, inFlightEWMA = Fin 0,
     inFlightConditionAt = 0, lastInFlightSev = SeverityNone,
     errorWindow = cw_init cw_zero, successWindow = sw_init sw_zero, retryWindow = cw_init cw_zero,
     lastErrSev = SeverityNone, lastSlowSev = SeverityNone, lastRetrySev = SeverityNone,
     retryTable = rt_zero\<rparr>"

definition advanceBucket :: "nat \<Rightarrow> int \<Rightarrow> service_state \<Rightarrow> service_state" where
  "advanceBucket bucket sec st =
     st\<lparr>errorWindow := maybeRoll bucket sec (errorWindow st),
        successWindow := maybeRoll bucket sec (successWindow st),
        retryWindow := maybeRoll bucket sec (retryWindow st)\<rparr>"

section \<open>The triggers\<close>

definition evaluate5xx :: "trig_config \<Rightarrow> int \<Rightarrow> string \<Rightarrow> service_state \<Rightarrow> service_state \<times> flush_reason option" where
  "evaluate5xx cfg nowMs service s =
     (let nowSec = nowMs sdiv 1000;
          (h, t) = collect nowSec (errorWindow s)
      in if t < MinSamples cfg then (s\<lparr>lastErrSev := SeverityNone\<rparr>, None)
         else
           let rate = f_div (f_of_int h) (f_of_int t);
               current = classifyTwoTier rate (ErrorRate5xxLow cfg) (ErrorRate5xxHigh cfg);
               prev = lastErrSev s;
               s' = s\<lparr>lastErrSev := current\<rparr>
           in if \<not> shouldEmitTransition prev current then (s', None)
              else
                let threshold = (if current = SeveritySevere then ErrorRate5xxHigh cfg else ErrorRate5xxLow cfg)
                in (s', Some \<lparr>fr_Service = service, fr_TriggerType = TriggerErrorRate5xx, fr_Severity = current,
                              fr_ObservedValue = rate, fr_ThresholdValue = threshold, fr_FiredAtUnixMs = nowMs\<rparr>))"

definition evaluateSlowSuccess :: "trig_config \<Rightarrow> int \<Rightarrow> string \<Rightarrow> service_state \<Rightarrow> service_state \<times> flush_reason option" where
  "evaluateSlowSuccess cfg nowMs service s =
     (let nowSec = nowMs sdiv 1000;
          (h, t) = collect nowSec (successWindow s)
      in if t < MinSamples cfg then (s\<lparr>lastSlowSev := SeverityNone\<rparr>, None)
         else
           let rate = f_div (f_of_int h) (f_of_int t);
               current = classifyTwoTier rate (SlowSuccessMild cfg) (SlowSuccessHigh cfg);
               prev = lastSlowSev s;
               s' = s\<lparr>lastSlowSev := current\<rparr>
           in if \<not> shouldEmitTransition prev current then (s', None)
              else
                let threshold = (if current = SeveritySevere then SlowSuccessHigh cfg else SlowSuccessMild cfg)
                in (s', Some \<lparr>fr_Service = service, fr_TriggerType = TriggerSlowSuccessRate, fr_Severity = current,
                              fr_ObservedValue = rate, fr_ThresholdValue = threshold, fr_FiredAtUnixMs = nowMs\<rparr>))"

definition evaluateRetry :: "trig_config \<Rightarrow> int \<Rightarrow> string \<Rightarrow> service_state \<Rightarrow> service_state \<times> flush_reason option" where
  "evaluateRetry cfg nowMs service s =
     (let nowSec = nowMs sdiv 1000;
          (h, t) = collect nowSec (retryWindow s)
      in if t < MinSamples cfg then (s\<lparr>lastRetrySev := SeverityNone\<rparr>, None)
         else
           let rate = f_div (f_of_int h) (f_of_int t);
               current = classifyTwoTier rate (RetryMild cfg) (RetryHigh cfg);
               prev = lastRetrySev s;
               s' = s\<lparr>lastRetrySev := current\<rparr>
           in if \<not> shouldEmitTransition prev current then (s', None)
              else
                let threshold = (if current = SeveritySevere then RetryHigh cfg else RetryMild cfg)
                in (s', Some \<lparr>fr_Service = service, fr_TriggerType = TriggerRetryRate, fr_Severity = current,
                              fr_ObservedValue = rate, fr_ThresholdValue = threshold, fr_FiredAtUnixMs = nowMs\<rparr>))"

definition inFlight_threshold :: "goarch \<Rightarrow> trig_config \<Rightarrow> service_state \<Rightarrow> int" where
  "inFlight_threshold arch cfg s =
     (let adaptive = f_to_i64 arch (f_mul (inFlightEWMA s) (InFlightMultiplier cfg))
      in if adaptive > InFlightMinAbsolute cfg then adaptive else InFlightMinAbsolute cfg)"

definition inFlight_ewma :: "goarch \<Rightarrow> service_state \<Rightarrow> float64" where
  "inFlight_ewma arch s =
     (if lastInFlightSev s = SeverityNone \<and> inFlightPeak s > 0
      then (if f_le (inFlightEWMA s) (Fin 0) then f_of_int (inFlightPeak s)
            else f_muladd arch (f64 (5 / 100)) (f_sub (f_of_int (inFlightPeak s)) (inFlightEWMA s)) (inFlightEWMA s))
      else inFlightEWMA s)"

definition evaluateInFlight :: "goarch \<Rightarrow> trig_config \<Rightarrow> int \<Rightarrow> string \<Rightarrow> service_state \<Rightarrow> service_state \<times> flush_reason option" where
  "evaluateInFlight arch cfg nowMs service s =
     (let threshold = inFlight_threshold arch cfg s;
          conditionMet = (inFlightCurrent s \<ge> threshold);
          condAt = (if conditionMet then (if inFlightConditionAt s = 0 then nowMs else inFlightConditionAt s) else 0);
          s1 = s\<lparr>inFlightConditionAt := condAt\<rparr>;
          s2 = s1\<lparr>inFlightEWMA := inFlight_ewma arch s1\<rparr>;
          current =
            (if conditionMet \<and> condAt > 0
             then let holdSecs = (nowMs - condAt) sdiv 1000
                  in if holdSecs \<ge> SevereHoldSecs cfg then SeveritySevere
                     else if holdSecs \<ge> MildHoldSecs cfg then SeverityMild
                     else SeverityNone
             else SeverityNone);
          prev = lastInFlightSev s2;
          s3 = s2\<lparr>lastInFlightSev := current\<rparr>
      in if \<not> shouldEmitTransition prev current then (s3, None)
         else (s3, Some \<lparr>fr_Service = service, fr_TriggerType = TriggerInFlightPileup, fr_Severity = current,
                         fr_ObservedValue = f_of_int (inFlightCurrent s3), fr_ThresholdValue = f_of_int threshold,
                         fr_FiredAtUnixMs = nowMs\<rparr>))"

section \<open>Severity as an order\<close>

text \<open>The severities are ordered; a transition is emitted exactly when the severity rises.\<close>

fun severity_rank :: "severity \<Rightarrow> nat" where
  "severity_rank SeverityNone = 0"
| "severity_rank SeverityMild = 1"
| "severity_rank SeveritySevere = 2"

instantiation severity :: linorder
begin

definition less_eq_severity :: "severity \<Rightarrow> severity \<Rightarrow> bool" where
  "less_eq_severity a b \<longleftrightarrow> severity_rank a \<le> severity_rank b"

definition less_severity :: "severity \<Rightarrow> severity \<Rightarrow> bool" where
  "less_severity a b \<longleftrightarrow> severity_rank a < severity_rank b"

instance
proof
  fix a b :: severity
  show "a \<le> b \<Longrightarrow> b \<le> a \<Longrightarrow> a = b"
    by (cases a; cases b) (simp_all add: less_eq_severity_def)
qed (auto simp: less_eq_severity_def less_severity_def)

end

lemma shouldEmitTransition_less: "shouldEmitTransition prev current \<longleftrightarrow> prev < current"
  by (cases prev; cases current) (simp_all add: shouldEmitTransition_def less_severity_def)

lemma severity_none_least [simp]: "SeverityNone \<le> s"
  by (cases s) (simp_all add: less_eq_severity_def)

lemma severity_pos [simp]: "SeverityNone < s \<longleftrightarrow> s \<noteq> SeverityNone"
  by (cases s) (simp_all add: less_severity_def)

lemma severity_not_less_none [simp]: "\<not> s < SeverityNone"
  by (simp add: less_severity_def)

section \<open>What the three rate triggers share\<close>

text \<open>The severity that a pair of counts stands for.\<close>

definition rate_level :: "int \<Rightarrow> float64 \<Rightarrow> float64 \<Rightarrow> int \<times> int \<Rightarrow> severity" where
  "rate_level minSamples low high c =
     (if snd c < minSamples then SeverityNone else classifyTwoTier (f_div (f_of_int (fst c)) (f_of_int (snd c))) low high)"

definition rate_reason :: "trigger_type \<Rightarrow> string \<Rightarrow> int \<Rightarrow> float64 \<Rightarrow> float64 \<Rightarrow> severity \<Rightarrow> int \<times> int \<Rightarrow> flush_reason" where
  "rate_reason ttyp svc nowMs low high sev c =
     \<lparr>fr_Service = svc, fr_TriggerType = ttyp, fr_Severity = sev,
      fr_ObservedValue = f_div (f_of_int (fst c)) (f_of_int (snd c)),
      fr_ThresholdValue = (if sev = SeveritySevere then high else low), fr_FiredAtUnixMs = nowMs\<rparr>"

lemma classify_threshold:
  "classifyTwoTier rate low high = sev \<Longrightarrow> sev \<noteq> SeverityNone \<Longrightarrow>
   f_le (if sev = SeveritySevere then high else low) rate"
  by (auto simp: classifyTwoTier_def split: if_splits)

text \<open>
  A series of evaluations of one trigger, the state changing in between, and the severities
  that a series of levels should report: only the rises.
\<close>

fun eval_seq :: "(int \<Rightarrow> 's \<Rightarrow> 's \<times> flush_reason option) \<Rightarrow> (('s \<Rightarrow> 's) \<times> int) list \<Rightarrow> 's \<Rightarrow> 's \<times> flush_reason option list" where
  "eval_seq eval [] s = (s, [])"
| "eval_seq eval ((upd, nowMs) # steps) s =
     (let r = eval nowMs (upd s); rest = eval_seq eval steps (fst r) in (fst rest, snd r # snd rest))"

fun eval_levels :: "(int \<Rightarrow> 's \<Rightarrow> 's \<times> flush_reason option) \<Rightarrow> ('s \<Rightarrow> severity) \<Rightarrow> (('s \<Rightarrow> 's) \<times> int) list \<Rightarrow> 's \<Rightarrow> severity list" where
  "eval_levels eval sev_of [] s = []"
| "eval_levels eval sev_of ((upd, nowMs) # steps) s =
     (let s' = fst (eval nowMs (upd s)) in sev_of s' # eval_levels eval sev_of steps s')"

fun rises :: "severity \<Rightarrow> severity list \<Rightarrow> severity option list" where
  "rises prev [] = []"
| "rises prev (c # cs) = (if prev < c then Some c else None) # rises c cs"

locale rate_trigger =
  fixes eval :: "trig_config \<Rightarrow> int \<Rightarrow> string \<Rightarrow> service_state \<Rightarrow> service_state \<times> flush_reason option"
    and counts :: "int \<Rightarrow> service_state \<Rightarrow> int \<times> int"
    and sev_of :: "service_state \<Rightarrow> severity"
    and low :: "trig_config \<Rightarrow> float64"
    and high :: "trig_config \<Rightarrow> float64"
    and ttyp :: trigger_type
  assumes counts_eval: "counts n (fst (eval cfg nowMs svc s)) = counts n s"
    and last_eval: "sev_of (fst (eval cfg nowMs svc s)) =
      rate_level (MinSamples cfg) (low cfg) (high cfg) (counts (nowMs sdiv 1000) s)"
    and reason_eval: "snd (eval cfg nowMs svc s) =
      (let c = counts (nowMs sdiv 1000) s; sev = rate_level (MinSamples cfg) (low cfg) (high cfg) c
       in if sev_of s < sev then Some (rate_reason ttyp svc nowMs (low cfg) (high cfg) sev c) else None)"
begin

lemma fires_iff: "snd (eval cfg nowMs svc s) \<noteq> None \<longleftrightarrow> sev_of s < sev_of (fst (eval cfg nowMs svc s))"
  by (simp add: reason_eval last_eval Let_def)

lemma severity_of_reason: "snd (eval cfg nowMs svc s) = Some r \<Longrightarrow> fr_Severity r = sev_of (fst (eval cfg nowMs svc s))"
  by (auto simp: reason_eval last_eval Let_def rate_reason_def split: if_splits)

lemma no_refire: "snd (eval cfg nowMs svc (fst (eval cfg nowMs svc s))) = None"
  by (simp add: reason_eval last_eval counts_eval Let_def)

lemma reason_fields:
  assumes "snd (eval cfg nowMs svc s) = Some r"
  shows "fr_Service r = svc \<and> fr_TriggerType r = ttyp \<and> fr_FiredAtUnixMs r = nowMs \<and> sev_of s < fr_Severity r
    \<and> f_le (fr_ThresholdValue r) (fr_ObservedValue r)
    \<and> MinSamples cfg \<le> snd (counts (nowMs sdiv 1000) s)"
proof -
  let ?c = "counts (nowMs sdiv 1000) s"
  let ?sev = "rate_level (MinSamples cfg) (low cfg) (high cfg) ?c"
  from assms have lt: "sev_of s < ?sev" and r: "r = rate_reason ttyp svc nowMs (low cfg) (high cfg) ?sev ?c"
    by (auto simp: reason_eval Let_def split: if_splits)
  from lt have ne: "?sev \<noteq> SeverityNone" by (metis leD severity_none_least)
  then have enough: "\<not> snd ?c < MinSamples cfg" by (auto simp: rate_level_def)
  with classify_threshold [OF _ ne, of "f_div (f_of_int (fst ?c)) (f_of_int (snd ?c))" "low cfg" "high cfg"] lt r
  show ?thesis by (simp add: rate_reason_def rate_level_def)
qed

lemma eval_seq_rises:
  assumes "\<And>upd nowMs t. (upd, nowMs) \<in> set steps \<Longrightarrow> sev_of (upd t) = sev_of t"
  shows "map (map_option fr_Severity) (snd (eval_seq (\<lambda>nowMs. eval cfg nowMs svc) steps s)) =
    rises (sev_of s) (eval_levels (\<lambda>nowMs. eval cfg nowMs svc) sev_of steps s)"
  using assms
proof (induction steps arbitrary: s)
  case (Cons step steps)
  obtain upd nowMs where step: "step = (upd, nowMs)" by (cases step)
  let ?r = "eval cfg nowMs svc (upd s)"
  have "sev_of (upd s) = sev_of s" using Cons.prems [of upd nowMs] step by simp
  then have "map_option fr_Severity (snd ?r) = (if sev_of s < sev_of (fst ?r) then Some (sev_of (fst ?r)) else None)"
    using fires_iff [of cfg nowMs svc "upd s"] severity_of_reason [of cfg nowMs svc "upd s"]
    by (cases "snd ?r") auto
  moreover have "map (map_option fr_Severity) (snd (eval_seq (\<lambda>nowMs. eval cfg nowMs svc) steps (fst ?r))) =
      rises (sev_of (fst ?r)) (eval_levels (\<lambda>nowMs. eval cfg nowMs svc) sev_of steps (fst ?r))"
    by (rule Cons.IH) (use Cons.prems step in auto)
  ultimately show ?case by (simp add: step Let_def)
qed simp

end

lemmas evaluate_defs = evaluate5xx_def evaluateSlowSuccess_def evaluateRetry_def

lemma rate_level_pair: "collect n w = (h, t) \<Longrightarrow>
  rate_level m lo hi (collect n w) = (if t < m then SeverityNone else classifyTwoTier (f_div (f_of_int h) (f_of_int t)) lo hi)"
  by (simp add: rate_level_def)

interpretation err: rate_trigger evaluate5xx "\<lambda>n s. collect n (errorWindow s)" lastErrSev
  ErrorRate5xxLow ErrorRate5xxHigh TriggerErrorRate5xx
  by unfold_locales
    (auto simp: evaluate5xx_def rate_level_def rate_reason_def shouldEmitTransition_less leD Let_def split: prod.split)

interpretation slow: rate_trigger evaluateSlowSuccess "\<lambda>n s. collect n (successWindow s)" lastSlowSev
  SlowSuccessMild SlowSuccessHigh TriggerSlowSuccessRate
  by unfold_locales
    (auto simp: evaluateSlowSuccess_def rate_level_def rate_reason_def shouldEmitTransition_less leD Let_def split: prod.split)

interpretation retry: rate_trigger evaluateRetry "\<lambda>n s. collect n (retryWindow s)" lastRetrySev
  RetryMild RetryHigh TriggerRetryRate
  by unfold_locales
    (auto simp: evaluateRetry_def rate_level_def rate_reason_def shouldEmitTransition_less leD Let_def split: prod.split)


section \<open>Well-formed service states\<close>

definition service_ok :: "service_state \<Rightarrow> bool" where
  "service_ok s \<longleftrightarrow> win_ok (errorWindow s) \<and> win_ok (successWindow s) \<and> win_ok (retryWindow s)
     \<and> rt_ok (retryTable s) \<and> ewma_ok (ewmaNs (successWindow s))
     \<and> 0 \<le> inFlightCurrent s \<and> inFlightCurrent s \<le> inFlightPeak s"

lemma service_ok_new: "service_ok newServiceState"
  by (simp add: service_ok_def newServiceState_def win_ok_init ewma_ok_init rt_ok_def rt_zero_def)

lemma service_ok_advance: "service_ok s \<Longrightarrow> service_ok (advanceBucket b sec s)"
  by (auto simp: service_ok_def advanceBucket_def)

lemma evaluate5xx_state: "\<exists>x. fst (evaluate5xx cfg nowMs svc s) = s\<lparr>lastErrSev := x\<rparr>"
  by (auto simp: evaluate5xx_def Let_def split: prod.split)

lemma evaluateSlow_state: "\<exists>x. fst (evaluateSlowSuccess cfg nowMs svc s) = s\<lparr>lastSlowSev := x\<rparr>"
  by (auto simp: evaluateSlowSuccess_def Let_def split: prod.split)

lemma evaluateRetry_state: "\<exists>x. fst (evaluateRetry cfg nowMs svc s) = s\<lparr>lastRetrySev := x\<rparr>"
  by (auto simp: evaluateRetry_def Let_def split: prod.split)

lemma evaluateInFlight_state:
  "\<exists>x y z. fst (evaluateInFlight arch cfg nowMs svc s) = s\<lparr>inFlightConditionAt := x, inFlightEWMA := y, lastInFlightSev := z\<rparr>"
  unfolding evaluateInFlight_def Let_def
  by (simp only: if_distrib [of fst] fst_conv if_cancel) (intro exI, rule refl)

lemma service_ok_upd [simp]:
  "service_ok (s\<lparr>lastErrSev := x\<rparr>) = service_ok s" "service_ok (s\<lparr>lastSlowSev := x\<rparr>) = service_ok s"
  "service_ok (s\<lparr>lastRetrySev := x\<rparr>) = service_ok s" "service_ok (s\<lparr>lastInFlightSev := x\<rparr>) = service_ok s"
  "service_ok (s\<lparr>inFlightConditionAt := t\<rparr>) = service_ok s" "service_ok (s\<lparr>inFlightEWMA := f\<rparr>) = service_ok s"
  "service_ok (s\<lparr>lastSeen := t\<rparr>) = service_ok s"
  by (simp_all add: service_ok_def)

lemma service_ok_evaluate:
  "service_ok (fst (evaluate5xx cfg nowMs svc s)) = service_ok s"
  "service_ok (fst (evaluateSlowSuccess cfg nowMs svc s)) = service_ok s"
  "service_ok (fst (evaluateRetry cfg nowMs svc s)) = service_ok s"
  "service_ok (fst (evaluateInFlight arch cfg nowMs svc s)) = service_ok s"
  using evaluate5xx_state [of cfg nowMs svc s] evaluateSlow_state [of cfg nowMs svc s]
    evaluateRetry_state [of cfg nowMs svc s] evaluateInFlight_state [of arch cfg nowMs svc s]
  by auto

section \<open>The in-flight trigger\<close>

lemma inFlight_threshold_ge: "InFlightMinAbsolute cfg \<le> inFlight_threshold arch cfg s"
  by (simp add: inFlight_threshold_def Let_def)

lemma evaluateInFlight_reason:
  assumes "snd (evaluateInFlight arch cfg nowMs svc s) = Some r"
  shows "fr_Service r = svc" "fr_TriggerType r = TriggerInFlightPileup" "fr_FiredAtUnixMs r = nowMs"
    "lastInFlightSev s < fr_Severity r" "InFlightMinAbsolute cfg \<le> inFlightCurrent s"
  using assms inFlight_threshold_ge [of cfg arch s]
  by (auto simp: evaluateInFlight_def Let_def shouldEmitTransition_less split: if_splits)

lemma evaluateInFlight_idle:
  assumes "inFlightCurrent s < InFlightMinAbsolute cfg"
  shows "snd (evaluateInFlight arch cfg nowMs svc s) = None"
    "lastInFlightSev (fst (evaluateInFlight arch cfg nowMs svc s)) = SeverityNone"
    "inFlightConditionAt (fst (evaluateInFlight arch cfg nowMs svc s)) = 0"
  using assms inFlight_threshold_ge [of cfg arch s]
  by (auto simp: evaluateInFlight_def Let_def shouldEmitTransition_def)

section \<open>Properties\<close>

text \<open>
  C20: the default thresholds are exact. With the default configuration and any counts below
  $2^{40}$, the floating-point classification of the three rate triggers decides the exact
  integer comparison: 10\% and 2\% of server requests failing, 20\% and 10\% of successes slow, 10\%
  and 5\% of outbound calls retried; and nothing below 20 samples.
\<close>

theorem default_thresholds_exact:
  assumes "0 \<le> h" "h \<le> t" "t < 2 ^ 40"
  shows "rate_level (MinSamples trig_DefaultConfig) (ErrorRate5xxLow trig_DefaultConfig) (ErrorRate5xxHigh trig_DefaultConfig) (h, t)
      = (if t < 20 then SeverityNone else if t \<le> 10 * h then SeveritySevere else if t \<le> 50 * h then SeverityMild else SeverityNone)
    \<and> rate_level (MinSamples trig_DefaultConfig) (SlowSuccessMild trig_DefaultConfig) (SlowSuccessHigh trig_DefaultConfig) (h, t)
      = (if t < 20 then SeverityNone else if t \<le> 5 * h then SeveritySevere else if t \<le> 10 * h then SeverityMild else SeverityNone)
    \<and> rate_level (MinSamples trig_DefaultConfig) (RetryMild trig_DefaultConfig) (RetryHigh trig_DefaultConfig) (h, t)
      = (if t < 20 then SeverityNone else if t \<le> 10 * h then SeveritySevere else if t \<le> 20 * h then SeverityMild else SeverityNone)"
proof (cases "t < 20")
  case False
  then have pct: "f_le (f64 (of_int p / 100)) (f_div (f_of_int h) (f_of_int t)) \<longleftrightarrow> p * t \<le> 100 * h" if "0 < p" "p \<le> 100" for p
    using assms that by (intro rate_ge_threshold) auto
  show ?thesis
    using False pct [of 2] pct [of 5] pct [of 10] pct [of 20]
    by (simp add: rate_level_def classifyTwoTier_def trig_DefaultConfig_def minSamplesDefault_def)
qed (simp add: rate_level_def trig_DefaultConfig_def minSamplesDefault_def)

theorem default_thresholds_exact_witness:
  "rate_level (MinSamples trig_DefaultConfig) (ErrorRate5xxLow trig_DefaultConfig) (ErrorRate5xxHigh trig_DefaultConfig) (2, 20) = SeveritySevere
   \<and> rate_level (MinSamples trig_DefaultConfig) (ErrorRate5xxLow trig_DefaultConfig) (ErrorRate5xxHigh trig_DefaultConfig) (1, 51) = SeverityNone"
  using default_thresholds_exact [of 2 20] default_thresholds_exact [of 1 51] by simp

text \<open>
  C21: triggers report rises only. For each of the three rate triggers, over any series of
  evaluations between which the windows (and anything but the trigger's own last severity)
  change arbitrarily, a reason is returned exactly when the severity recorded by this
  evaluation is above the one recorded by the previous one, and it carries the new severity.
\<close>

theorem rate_triggers_report_rises:
  assumes "\<forall>(upd, nowMs)\<in>set steps. \<forall>t. lastErrSev (upd t) = lastErrSev t
     \<and> lastSlowSev (upd t) = lastSlowSev t \<and> lastRetrySev (upd t) = lastRetrySev t"
  shows "map (map_option fr_Severity) (snd (eval_seq (\<lambda>nowMs. evaluate5xx cfg nowMs svc) steps s)) =
      rises (lastErrSev s) (eval_levels (\<lambda>nowMs. evaluate5xx cfg nowMs svc) lastErrSev steps s)
    \<and> map (map_option fr_Severity) (snd (eval_seq (\<lambda>nowMs. evaluateSlowSuccess cfg nowMs svc) steps s)) =
      rises (lastSlowSev s) (eval_levels (\<lambda>nowMs. evaluateSlowSuccess cfg nowMs svc) lastSlowSev steps s)
    \<and> map (map_option fr_Severity) (snd (eval_seq (\<lambda>nowMs. evaluateRetry cfg nowMs svc) steps s)) =
      rises (lastRetrySev s) (eval_levels (\<lambda>nowMs. evaluateRetry cfg nowMs svc) lastRetrySev steps s)"
  using assms by (intro conjI err.eval_seq_rises slow.eval_seq_rises retry.eval_seq_rises) auto

theorem rate_triggers_report_rises_witness:
  "snd (eval_seq (\<lambda>nowMs. evaluate5xx trig_DefaultConfig nowMs ''svc'') [(\<lambda>s. s, 1000)] newServiceState) = [None]"
proof -
  have "collect 1 (errorWindow newServiceState) = (0, 0)"
    by (simp add: newServiceState_def collect_def cw_init_def cw_zero_def windowBuckets_def windowSeconds_def upt_rec Let_def)
  then have "eval_levels (\<lambda>nowMs. evaluate5xx trig_DefaultConfig nowMs ''svc'') lastErrSev [(\<lambda>s. s, 1000)] newServiceState = [SeverityNone]"
    by (simp add: evaluate5xx_def trig_DefaultConfig_def minSamplesDefault_def Let_def)
  moreover have "map (map_option fr_Severity) (snd (eval_seq (\<lambda>nowMs. evaluate5xx trig_DefaultConfig nowMs ''svc'') [(\<lambda>s. s, 1000)] newServiceState))
      = rises (lastErrSev newServiceState)
          (eval_levels (\<lambda>nowMs. evaluate5xx trig_DefaultConfig nowMs ''svc'') lastErrSev [(\<lambda>s. s, 1000)] newServiceState)"
    by (rule conjunct1 [OF rate_triggers_report_rises]) simp
  ultimately show ?thesis by (simp only: rises.simps severity_not_less_none if_False map_eq_Cons_conv) auto
qed

end
