(* ===== verification/Evaluator.thy ===== *)
theory Evaluator
  imports Triggers "HOL-Library.Multiset"
begin

text \<open>
  The \<open>Evaluator\<close> of \<open>internal/triggers/four_triggers.go\<close>: one \<open>service_state\<close> per
  service name, held in a map whose keys \<open>ev_order\<close> lists from the least to the most
  recently touched. The readings of the injected clock are arguments of the operations, in
  the order in which the code takes them; a bucket index below zero is Go's index-out-of-range
  panic, \<open>Inl\<close>.
\<close>

section \<open>State and operations\<close>

record evaluator =
  ev_cfg :: trig_config
  ev_services :: "(string, service_state) fmap"
  ev_order :: "string list"

definition ev_New :: "trig_config \<Rightarrow> evaluator" where
  "ev_New cfg =
     (let cfg1 = (if MaxServices cfg \<le> 0 then cfg\<lparr>MaxServices := defaultMaxServices\<rparr> else cfg);
          cfg2 = (if ServiceTTL cfg1 \<le> 0 then cfg1\<lparr>ServiceTTL := defaultServiceTTL\<rparr> else cfg1);
          cfg3 = (if MinSamples cfg2 \<le> 0 then cfg2\<lparr>MinSamples := minSamplesDefault\<rparr> else cfg2)
      in \<lparr>ev_cfg = cfg3, ev_services = fmempty, ev_order = []\<rparr>)"

text \<open>The eviction loop of \<open>touch\<close>.\<close>

fun evictServices :: "int \<Rightarrow> (string, service_state) fmap \<Rightarrow> string list \<Rightarrow> (string, service_state) fmap \<times> string list" where
  "evictServices cap svcs [] = (svcs, [])"
| "evictServices cap svcs (oldest # ord) =
     (if int (fcard (fmdom svcs)) \<ge> cap then evictServices cap (fmdrop oldest svcs) ord else (svcs, oldest # ord))"

text \<open>Remove the first occurrence, append at the end.\<close>

definition moveServiceToTail :: "string \<Rightarrow> string list \<Rightarrow> string list" where
  "moveServiceToTail service ord = remove1 service ord @ [service]"

definition touch :: "time \<Rightarrow> string \<Rightarrow> evaluator \<Rightarrow> evaluator \<times> service_state" where
  "touch now service e =
     (let (e1, st) =
        (case fmlookup (ev_services e) service of
           None \<Rightarrow>
             (let (svcs, ord) = evictServices (MaxServices (ev_cfg e)) (ev_services e) (ev_order e);
                  st = newServiceState
              in (e\<lparr>ev_services := fmupd service st svcs, ev_order := ord @ [service]\<rparr>, st))
         | Some st \<Rightarrow> (e\<lparr>ev_order := moveServiceToTail service (ev_order e)\<rparr>, st));
          st1 = st\<lparr>lastSeen := now\<rparr>
      in (e1\<lparr>ev_services := fmupd service st1 (ev_services e1)\<rparr>, st1))"

text \<open>What the body of \<open>OnRequestStart\<close> does to the touched state.\<close>

definition startRequest :: "service_state \<Rightarrow> service_state" where
  "startRequest st =
     (let st1 = st\<lparr>inFlightCurrent := inFlightCurrent st + 1\<rparr>
      in if inFlightCurrent st1 > inFlightPeak st1 then st1\<lparr>inFlightPeak := inFlightCurrent st1\<rparr> else st1)"

definition OnRequestStart :: "time \<Rightarrow> string \<Rightarrow> evaluator \<Rightarrow> evaluator" where
  "OnRequestStart now service e =
     (if service = [] then e
      else let (e1, st) = touch now service e
           in e1\<lparr>ev_services := fmupd service (startRequest st) (ev_services e1)\<rparr>)"

text \<open>The \<open>switch sig.Kind\<close> of \<open>OnRequestComplete\<close>.\<close>

definition recordSignal :: "goarch \<Rightarrow> request_signal \<Rightarrow> nat \<Rightarrow> service_state \<Rightarrow> service_state" where
  "recordSignal arch sig bucket st =
     (case sig_Kind sig of
        SignalServer \<Rightarrow>
          (let w1 = incTotal bucket (errorWindow st);
               w2 = (if sig_StatusCode sig \<ge> 500 \<and> sig_StatusCode sig < 600 then incHits bucket w1 else w1)
           in st\<lparr>errorWindow := w2, successWindow := recordIfSuccessLike arch sig bucket (successWindow st)\<rparr>)
      | SignalClient \<Rightarrow>
          (let w1 = incTotal bucket (retryWindow st);
               (tbl, again) = isRetry sig (retryTable st)
           in st\<lparr>retryTable := tbl, retryWindow := (if again then incHits bucket w1 else w1)\<rparr>)
      | SignalOther \<Rightarrow> st)"

text \<open>The four triggers in order; the first that fires ends the evaluation.\<close>

definition evaluateTriggers :: "goarch \<Rightarrow> trig_config \<Rightarrow> int \<Rightarrow> string \<Rightarrow> service_state \<Rightarrow> service_state \<times> flush_reason option" where
  "evaluateTriggers arch cfg nowMs service st =
     (case evaluate5xx cfg nowMs service st of
        (st1, Some r) \<Rightarrow> (st1, Some r)
      | (st1, None) \<Rightarrow>
     (case evaluateSlowSuccess cfg nowMs service st1 of
        (st2, Some r) \<Rightarrow> (st2, Some r)
      | (st2, None) \<Rightarrow>
     (case evaluateRetry cfg nowMs service st2 of
        (st3, Some r) \<Rightarrow> (st3, Some r)
      | (st3, None) \<Rightarrow> evaluateInFlight arch cfg nowMs service st3)))"

text \<open>What the body of \<open>OnRequestComplete\<close> does to the touched state.\<close>

definition completeRequest :: "goarch \<Rightarrow> trig_config \<Rightarrow> string \<Rightarrow> request_signal \<Rightarrow> service_state
    \<Rightarrow> (service_state \<times> flush_reason option) go_result" where
  "completeRequest arch cfg service sig st =
     (let st1 = (if inFlightCurrent st > 0 then st\<lparr>inFlightCurrent := inFlightCurrent st - 1\<rparr> else st);
          sec = sig_NowUnixMs sig sdiv 1000;
          b = sec smod int windowBuckets
      in if b < 0 then Inl ''runtime error: index out of range''
         else let bucket = nat b;
                  st2 = recordSignal arch sig bucket (advanceBucket bucket sec st1)
              in Inr (evaluateTriggers arch cfg (sig_NowUnixMs sig) service st2))"

definition OnRequestComplete :: "goarch \<Rightarrow> time \<Rightarrow> time \<Rightarrow> string \<Rightarrow> request_signal \<Rightarrow> evaluator
    \<Rightarrow> (evaluator \<times> flush_reason option) go_result" where
  "OnRequestComplete arch now touchNow service sig e =
     (if service = [] then Inr (e, None)
      else
        let sig1 = (if sig_NowUnixMs sig = 0 then sig\<lparr>sig_NowUnixMs := unix_milli now\<rparr> else sig);
            (e1, st) = touch touchNow service e
        in case completeRequest arch (ev_cfg e1) service sig1 st of
             Inl err \<Rightarrow> Inl err
           | Inr (st1, r) \<Rightarrow> Inr (e1\<lparr>ev_services := fmupd service st1 (ev_services e1)\<rparr>, r))"

fun pruneStale_loop :: "time \<Rightarrow> duration \<Rightarrow> (string, service_state) fmap \<Rightarrow> string list \<Rightarrow> string list \<Rightarrow> int
    \<Rightarrow> (string, service_state) fmap \<times> string list \<times> int" where
  "pruneStale_loop now ttl svcs [] survivors removed = (svcs, survivors, removed)"
| "pruneStale_loop now ttl svcs (name # names) survivors removed =
     (case fmlookup svcs name of
        None \<Rightarrow> pruneStale_loop now ttl svcs names survivors removed
      | Some st \<Rightarrow>
          if time_sub now (lastSeen st) > ttl
          then pruneStale_loop now ttl (fmdrop name svcs) names survivors (removed + 1)
          else pruneStale_loop now ttl svcs names (survivors @ [name]) removed)"

definition PruneStale :: "time \<Rightarrow> evaluator \<Rightarrow> evaluator \<times> int" where
  "PruneStale now e =
     (let (svcs, survivors, removed) = pruneStale_loop now (ServiceTTL (ev_cfg e)) (ev_services e) (ev_order e) [] 0
      in (e\<lparr>ev_services := svcs, ev_order := survivors\<rparr>, removed))"

definition Services :: "evaluator \<Rightarrow> int" where
  "Services e = int (fcard (fmdom (ev_services e)))"

text \<open>A history of calls, with the clock readings of each, and what it returns.\<close>

datatype ev_op =
    EvStart (op_time: time) string
  | EvComplete (op_time: time) time string request_signal
  | EvPrune (op_time: time)

fun ev_step :: "goarch \<Rightarrow> ev_op \<Rightarrow> evaluator \<Rightarrow> (evaluator \<times> flush_reason option) go_result" where
  "ev_step arch (EvStart now service) e = Inr (OnRequestStart now service e, None)"
| "ev_step arch (EvComplete now touchNow service sig) e = OnRequestComplete arch now touchNow service sig e"
| "ev_step arch (EvPrune now) e = Inr (fst (PruneStale now e), None)"

fun ev_run :: "goarch \<Rightarrow> ev_op list \<Rightarrow> evaluator \<Rightarrow> (evaluator \<times> flush_reason option list) go_result" where
  "ev_run arch [] e = Inr (e, [])"
| "ev_run arch (oper # ops) e =
     (case ev_step arch oper e of
        Inl err \<Rightarrow> Inl err
      | Inr (e1, r) \<Rightarrow>
          (case ev_run arch ops e1 of Inl err \<Rightarrow> Inl err | Inr (e2, rs) \<Rightarrow> Inr (e2, r # rs)))"

section \<open>Well-formed evaluators\<close>

definition ev_ok :: "evaluator \<Rightarrow> bool" where
  "ev_ok e \<longleftrightarrow> 0 < MaxServices (ev_cfg e) \<and> 0 < MinSamples (ev_cfg e) \<and> order_ok (ev_services e) (ev_order e)
     \<and> int (length (ev_order e)) \<le> MaxServices (ev_cfg e)
     \<and> fmpred (\<lambda>_. service_ok) (ev_services e)"

lemma ev_ok_New: "ev_ok (ev_New cfg)"
  by (simp add: ev_ok_def ev_New_def Let_def defaultMaxServices_def minSamplesDefault_def)

lemma evictServices_eq:
  assumes "order_ok svcs ord" "n = nat (int (length ord) - cap + 1)"
  shows "evictServices cap svcs ord = (fmfilter (\<lambda>k. k \<in> set (drop n ord)) svcs, drop n ord)"
  using assms
proof (induction ord arbitrary: svcs n)
  case Nil
  then show ?case using order_ok_all [of svcs "[]"] by simp
next
  case (Cons oldest ord)
  have card: "fcard (fmdom svcs) = length (oldest # ord)" using Cons.prems(1) by (rule order_ok_fcard)
  have sub: "order_ok (fmdrop oldest svcs) ord" using Cons.prems(1) by (rule order_ok_tl)
  show ?case
  proof (cases "cap \<le> int (length (oldest # ord))")
    case True
    let ?m = "nat (int (length ord) - cap + 1)"
    have n: "n = Suc ?m" using True Cons.prems(2) by auto
    have "oldest \<notin> set (drop ?m ord)" using Cons.prems(1) by (auto simp: order_ok_def dest: in_set_dropD)
    then have "fmfilter (\<lambda>k. k \<in> set (drop ?m ord)) (fmdrop oldest svcs) = fmfilter (\<lambda>k. k \<in> set (drop ?m ord)) svcs"
      by (intro fmap_ext) auto
    then show ?thesis using True Cons.IH [OF sub refl] by (simp add: card n)
  next
    case False
    then have "n = 0" using Cons.prems(2) by simp
    then show ?thesis using False order_ok_all [OF Cons.prems(1)] by (simp add: card)
  qed
qed

text \<open>
  What any touching operation does: the service's state is replaced and becomes the newest;
  the oldest service makes room when the name is new and the map is full.
\<close>

definition svc_state :: "evaluator \<Rightarrow> string \<Rightarrow> service_state" where
  "svc_state e service = (case fmlookup (ev_services e) service of None \<Rightarrow> newServiceState | Some st \<Rightarrow> st)"

definition kept :: "evaluator \<Rightarrow> string \<Rightarrow> string list" where
  "kept e service = (if service \<in> set (ev_order e) then ev_order e
     else drop (nat (int (length (ev_order e)) - MaxServices (ev_cfg e) + 1)) (ev_order e))"

definition ev_upd :: "string \<Rightarrow> service_state \<Rightarrow> evaluator \<Rightarrow> evaluator" where
  "ev_upd service st e = e\<lparr>ev_services := fmupd service st (fmfilter (\<lambda>k. k \<in> set (kept e service)) (ev_services e)),
     ev_order := remove1 service (kept e service) @ [service]\<rparr>"

lemma ev_ok_order: "ev_ok e \<Longrightarrow> order_ok (ev_services e) (ev_order e)"
  by (simp add: ev_ok_def)

lemma ev_order_mem: "ev_ok e \<Longrightarrow> service \<in> set (ev_order e) \<longleftrightarrow> fmlookup (ev_services e) service \<noteq> None"
  by (rule order_ok_mem [OF ev_ok_order])

lemma touch_eq:
  assumes "ev_ok e"
  shows "touch now service e = (ev_upd service ((svc_state e service)\<lparr>lastSeen := now\<rparr>) e, (svc_state e service)\<lparr>lastSeen := now\<rparr>)"
proof (cases "fmlookup (ev_services e) service")
  case None
  then have new: "service \<notin> set (ev_order e)" by (simp add: ev_order_mem [OF assms])
  then have "service \<notin> set (kept e service)" by (auto simp: kept_def dest: in_set_dropD)
  then have "remove1 service (kept e service) = kept e service" by (rule remove1_idem)
  then show ?thesis using None new evictServices_eq [OF ev_ok_order [OF assms] refl, of "MaxServices (ev_cfg e)"]
    by (simp add: touch_def ev_upd_def svc_state_def kept_def Let_def)
next
  case (Some st)
  then have "service \<in> set (ev_order e)" by (simp add: ev_order_mem [OF assms])
  then show ?thesis using Some order_ok_all [OF ev_ok_order [OF assms]]
    by (simp add: touch_def ev_upd_def svc_state_def kept_def moveServiceToTail_def Let_def)
qed

lemma ev_upd_again: "ev_ok e \<Longrightarrow>
   (ev_upd service st e)\<lparr>ev_services := fmupd service st' (ev_services (ev_upd service st e))\<rparr> = ev_upd service st' e"
  by (simp add: ev_upd_def)

lemma OnRequestStart_eq:
  "ev_ok e \<Longrightarrow> service \<noteq> [] \<Longrightarrow>
   OnRequestStart now service e = ev_upd service (startRequest ((svc_state e service)\<lparr>lastSeen := now\<rparr>)) e"
  by (simp add: OnRequestStart_def touch_eq ev_upd_again)

definition resolve_time :: "time \<Rightarrow> request_signal \<Rightarrow> request_signal" where
  "resolve_time now sig = (if sig_NowUnixMs sig = 0 then sig\<lparr>sig_NowUnixMs := unix_milli now\<rparr> else sig)"

lemma ev_cfg_upd [simp]: "ev_cfg (ev_upd service st e) = ev_cfg e"
  by (simp add: ev_upd_def)

lemma OnRequestComplete_eq:
  "ev_ok e \<Longrightarrow> service \<noteq> [] \<Longrightarrow>
   OnRequestComplete arch now touchNow service sig e =
     map_sum (\<lambda>x. x) (\<lambda>(st, r). (ev_upd service st e, r))
       (completeRequest arch (ev_cfg e) service (resolve_time now sig) ((svc_state e service)\<lparr>lastSeen := touchNow\<rparr>))"
  by (simp add: OnRequestComplete_def touch_eq resolve_time_def ev_upd_again Let_def split: sum.split prod.split)

lemma OnRequestComplete_Inr:
  assumes "ev_ok e" "service \<noteq> []" "OnRequestComplete arch now touchNow service sig e = Inr (e', r)"
  obtains st where "completeRequest arch (ev_cfg e) service (resolve_time now sig)
      ((svc_state e service)\<lparr>lastSeen := touchNow\<rparr>) = Inr (st, r)" "e' = ev_upd service st e"
  using assms
  by (cases "completeRequest arch (ev_cfg e) service (resolve_time now sig) ((svc_state e service)\<lparr>lastSeen := touchNow\<rparr>)")
    (auto simp: OnRequestComplete_eq)

lemma OnRequest_empty [simp]:
  "OnRequestStart now [] e = e" "OnRequestComplete arch now touchNow [] sig e = Inr (e, None)"
  by (simp_all add: OnRequestStart_def OnRequestComplete_def)

lemma ev_lookup_upd: "fmlookup (ev_services (ev_upd service st e)) k =
   (if k = service then Some st else if k \<in> set (kept e service) then fmlookup (ev_services e) k else None)"
  by (simp add: ev_upd_def)

lemma kept_suffix: "suffix (kept e service) (ev_order e)"
  by (simp add: kept_def suffix_drop)

lemma kept_order_ok:
  "ev_ok e \<Longrightarrow> order_ok (fmfilter (\<lambda>k. k \<in> set (kept e service)) (ev_services e)) (kept e service)"
  using order_ok_drop_n [of "ev_services e" "ev_order e"] order_ok_all [of "ev_services e" "ev_order e"]
  by (auto simp: kept_def ev_ok_def)

lemma ev_ok_upd:
  assumes ok: "ev_ok e" and st: "service_ok st" shows "ev_ok (ev_upd service st e)"
proof -
  let ?K = "kept e service" and ?m = "fmfilter (\<lambda>k. k \<in> set (kept e service)) (ev_services e)"
  have K: "order_ok ?m ?K" by (rule kept_order_ok [OF ok])
  have len: "int (length ?K) \<le> MaxServices (ev_cfg e)"
    "service \<notin> set ?K \<Longrightarrow> int (length ?K) < MaxServices (ev_cfg e)"
    using ok by (auto simp: kept_def ev_ok_def split: if_splits)
  have mem: "service \<in> set ?K \<longleftrightarrow> fmlookup ?m service \<noteq> None" by (rule order_ok_mem [OF K])
  have "order_ok (fmupd service st ?m) (remove1 service ?K @ [service])
    \<and> int (length (remove1 service ?K @ [service])) \<le> MaxServices (ev_cfg e)"
  proof (cases "service \<in> set ?K")
    case True
    with mem have "order_ok (fmupd service st ?m) (remove1 service ?K @ [service])"
      by (intro order_ok_upd order_ok_rotate K) blast+
    moreover have "length (remove1 service ?K @ [service]) = length ?K"
      using True length_pos_if_in_set [OF True] by (simp add: length_remove1)
    ultimately show ?thesis using len(1) by simp
  next
    case False
    with mem have "fmlookup ?m service = None" by blast
    from order_ok_add [OF K this] len(2) [OF False] show ?thesis
      by (simp add: remove1_idem [OF False])
  qed
  moreover have "fmpred (\<lambda>_. service_ok) (fmupd service st ?m)"
    using ok st by (auto simp: ev_ok_def intro!: fmpred_upd fmpred_filter)
  ultimately show ?thesis using ok by (simp add: ev_ok_def ev_upd_def)
qed

section \<open>Every operation keeps the evaluator well-formed\<close>

lemma service_ok_start: "service_ok st \<Longrightarrow> service_ok (startRequest st)"
  by (auto simp: startRequest_def service_ok_def Let_def)

lemma service_ok_record: "service_ok st \<Longrightarrow> b < windowBuckets \<Longrightarrow> service_ok (recordSignal arch sig b st)"
  by (auto simp: recordSignal_def service_ok_def Let_def ewma_ok_record rt_ok_isRetry
      dest!: rt_ok_isRetry [of "retryTable st" sig] split: signal_kind.split prod.split)

lemma evaluateTriggers_cases:
  assumes "evaluateTriggers arch cfg nowMs service st = (st', r)"
  obtains st1 st2 st3 where
    "fst (evaluate5xx cfg nowMs service st) = st1"
    "fst (evaluateSlowSuccess cfg nowMs service st1) = st2"
    "fst (evaluateRetry cfg nowMs service st2) = st3"
    "(st', r) \<in> {evaluate5xx cfg nowMs service st, evaluateSlowSuccess cfg nowMs service st1,
       evaluateRetry cfg nowMs service st2, evaluateInFlight arch cfg nowMs service st3}"
  using assms by (auto simp: evaluateTriggers_def split: prod.splits option.splits)

lemma service_ok_triggers: "service_ok st \<Longrightarrow> service_ok (fst (evaluateTriggers arch cfg nowMs service st))"
  by (auto simp: evaluateTriggers_def split: prod.split option.split)
    (metis service_ok_evaluate fst_conv)+

lemma svc_state_ok: "ev_ok e \<Longrightarrow> service_ok (svc_state e service)"
  by (auto simp: svc_state_def ev_ok_def service_ok_new dest: fmpredD split: option.split)

definition leave :: "service_state \<Rightarrow> service_state" where
  "leave st = (if inFlightCurrent st > 0 then st\<lparr>inFlightCurrent := inFlightCurrent st - 1\<rparr> else st)"

lemma service_ok_leave: "service_ok st \<Longrightarrow> service_ok (leave st)"
  by (simp add: service_ok_def leave_def)

lemma completeRequest_Inr:
  assumes "completeRequest arch cfg service sig st = Inr (st', r)"
  obtains b where "b < windowBuckets"
    "evaluateTriggers arch cfg (sig_NowUnixMs sig) service
       (recordSignal arch sig b (advanceBucket b (sig_NowUnixMs sig sdiv 1000) (leave st))) = (st', r)"
proof -
  let ?b = "(sig_NowUnixMs sig sdiv 1000) smod int windowBuckets"
  have nonneg: "\<not> ?b < 0"
    using assms by (auto simp: completeRequest_def Let_def split: if_splits)
  then have "nat ?b < windowBuckets"
    using smod_int_range [of "int windowBuckets" "sig_NowUnixMs sig sdiv 1000"] by (simp add: windowBuckets_def)
  moreover have "evaluateTriggers arch cfg (sig_NowUnixMs sig) service
       (recordSignal arch sig (nat ?b) (advanceBucket (nat ?b) (sig_NowUnixMs sig sdiv 1000) (leave st))) = (st', r)"
    using assms nonneg unfolding completeRequest_def Let_def leave_def [symmetric] by simp
  ultimately show ?thesis by (rule that)
qed

lemma service_ok_complete:
  assumes "service_ok st" "completeRequest arch cfg service sig st = Inr (st', r)"
  shows "service_ok st'"
proof -
  obtain b where b: "b < windowBuckets" "evaluateTriggers arch cfg (sig_NowUnixMs sig) service
       (recordSignal arch sig b (advanceBucket b (sig_NowUnixMs sig sdiv 1000) (leave st))) = (st', r)"
    by (rule completeRequest_Inr [OF assms(2)])
  have "service_ok (recordSignal arch sig b (advanceBucket b (sig_NowUnixMs sig sdiv 1000) (leave st)))"
    using assms(1) b(1) by (intro service_ok_record service_ok_advance service_ok_leave)
  from service_ok_triggers [OF this] b(2) show ?thesis by (metis fst_conv)
qed

lemma ev_ok_Start: "ev_ok e \<Longrightarrow> ev_ok (OnRequestStart now service e)"
  by (cases "service = []")
    (simp_all add: OnRequestStart_def [of now "[]"] OnRequestStart_eq ev_ok_upd service_ok_start svc_state_ok)

lemma ev_ok_Complete:
  assumes "ev_ok e" "OnRequestComplete arch now touchNow service sig e = Inr (e', r)"
  shows "ev_ok e'"
proof (cases "service = []")
  case False
  obtain st where "completeRequest arch (ev_cfg e) service (resolve_time now sig)
      ((svc_state e service)\<lparr>lastSeen := touchNow\<rparr>) = Inr (st, r)" "e' = ev_upd service st e"
    by (rule OnRequestComplete_Inr [OF assms(1) False assms(2)])
  moreover have "service_ok ((svc_state e service)\<lparr>lastSeen := touchNow\<rparr>)" using svc_state_ok [OF assms(1)] by simp
  ultimately show ?thesis using assms(1) by (metis ev_ok_upd service_ok_complete)
qed (use assms in \<open>simp add: OnRequestComplete_def\<close>)

definition stale_service :: "time \<Rightarrow> duration \<Rightarrow> (string, service_state) fmap \<Rightarrow> string \<Rightarrow> bool" where
  "stale_service now ttl svcs k = (case fmlookup svcs k of None \<Rightarrow> False | Some st \<Rightarrow> time_sub now (lastSeen st) > ttl)"

lemma stale_service_drop: "j \<noteq> k \<Longrightarrow> stale_service now ttl (fmdrop k m) j = stale_service now ttl m j"
  by (simp add: stale_service_def)

lemma pruneStale_loop_eq:
  assumes "distinct names" "\<And>k. k \<in> set names \<Longrightarrow> fmlookup svcs k \<noteq> None"
  shows "pruneStale_loop now ttl svcs names survivors removed =
    (fmfilter (\<lambda>k. k \<in> set names \<longrightarrow> \<not> stale_service now ttl svcs k) svcs,
     survivors @ filter (\<lambda>k. \<not> stale_service now ttl svcs k) names,
     removed + int (length (filter (stale_service now ttl svcs) names)))"
  using assms
proof (induction names arbitrary: svcs survivors removed)
  case Nil
  then show ?case by (simp add: fmfilter_true)
next
  case (Cons name names)
  obtain st where st: "fmlookup svcs name = Some st" using Cons.prems(2) [of name] by auto
  let ?m = "fmdrop name svcs"
  have names: "distinct names" "name \<notin> set names" using Cons.prems(1) by auto
  show ?case
  proof (cases "time_sub now (lastSeen st) > ttl")
    case True
    then have stale: "stale_service now ttl svcs name" by (simp add: stale_service_def st)
    have same: "stale_service now ttl ?m k = stale_service now ttl svcs k" if "k \<in> set names" for k
      using that names by (intro stale_service_drop) auto
    have "fmfilter (\<lambda>k. k \<in> set names \<longrightarrow> \<not> stale_service now ttl ?m k) ?m =
        fmfilter (\<lambda>k. k \<in> set (name # names) \<longrightarrow> \<not> stale_service now ttl svcs k) svcs"
      using stale by (intro fmap_ext) (auto simp: same)
    moreover have "filter (\<lambda>k. \<not> stale_service now ttl ?m k) names = filter (\<lambda>k. \<not> stale_service now ttl svcs k) names"
      "filter (stale_service now ttl ?m) names = filter (stale_service now ttl svcs) names"
      by (auto intro!: filter_cong simp: same)
    moreover have "\<And>k. k \<in> set names \<Longrightarrow> fmlookup ?m k \<noteq> None" using Cons.prems names(2) by auto
    ultimately show ?thesis using True stale Cons.IH [of ?m survivors "removed + 1"] names(1) by (simp add: st)
  next
    case False
    then have fresh: "\<not> stale_service now ttl svcs name" by (simp add: stale_service_def st)
    have "fmfilter (\<lambda>k. k \<in> set names \<longrightarrow> \<not> stale_service now ttl svcs k) svcs =
        fmfilter (\<lambda>k. k \<in> set (name # names) \<longrightarrow> \<not> stale_service now ttl svcs k) svcs"
      using fresh by (intro fmap_ext) auto
    moreover have "\<And>k. k \<in> set names \<Longrightarrow> fmlookup svcs k \<noteq> None" using Cons.prems by auto
    ultimately show ?thesis using False fresh Cons.IH [of svcs "survivors @ [name]" removed] names(1) by (simp add: st)
  qed
qed

lemma PruneStale_eq:
  assumes "ev_ok e"
  shows "PruneStale now e =
    (e\<lparr>ev_services := fmfilter (\<lambda>k. \<not> stale_service now (ServiceTTL (ev_cfg e)) (ev_services e) k) (ev_services e),
       ev_order := filter (\<lambda>k. \<not> stale_service now (ServiceTTL (ev_cfg e)) (ev_services e) k) (ev_order e)\<rparr>,
     int (length (filter (stale_service now (ServiceTTL (ev_cfg e)) (ev_services e)) (ev_order e))))"
proof -
  have "fmfilter (\<lambda>k. k \<in> set (ev_order e) \<longrightarrow> \<not> stale_service now (ServiceTTL (ev_cfg e)) (ev_services e) k) (ev_services e)
      = fmfilter (\<lambda>k. \<not> stale_service now (ServiceTTL (ev_cfg e)) (ev_services e) k) (ev_services e)"
    by (intro fmap_ext) (auto simp: ev_order_mem [OF assms] stale_service_def split: option.split)
  moreover have "distinct (ev_order e)" using ev_ok_order [OF assms] by (rule order_ok_distinct)
  moreover have "\<And>k. k \<in> set (ev_order e) \<Longrightarrow> fmlookup (ev_services e) k \<noteq> None" by (simp add: ev_order_mem [OF assms])
  ultimately show ?thesis by (simp add: PruneStale_def pruneStale_loop_eq)
qed

lemma ev_ok_Prune: "ev_ok e \<Longrightarrow> ev_ok (fst (PruneStale now e))"
  by (auto simp: PruneStale_eq) (auto simp: ev_ok_def intro: order_ok_filter fmpred_filter order_trans [rotated])

lemma ev_ok_step: "ev_ok e \<Longrightarrow> ev_step arch oper e = Inr (e', r) \<Longrightarrow> ev_ok e'"
  by (cases oper) (auto intro: ev_ok_Start ev_ok_Complete ev_ok_Prune)

lemma ev_ok_run: "ev_ok e \<Longrightarrow> ev_run arch ops e = Inr (e', rs) \<Longrightarrow> ev_ok e'"
proof (induction ops arbitrary: e rs)
  case (Cons oper ops)
  then obtain e1 r rs' where "ev_step arch oper e = Inr (e1, r)" "ev_run arch ops e1 = Inr (e', rs')"
    by (auto split: sum.splits)
  then show ?case using Cons.IH ev_ok_step [OF Cons.prems(1)] by blast
qed simp

section \<open>The order of the services is least-recently-used\<close>

fun touched :: "ev_op \<Rightarrow> string list" where
  "touched (EvStart now service) = (if service = [] then [] else [service])"
| "touched (EvComplete now touchNow service sig) = (if service = [] then [] else [service])"
| "touched (EvPrune now) = []"

fun is_prune :: "ev_op \<Rightarrow> bool" where
  "is_prune (EvPrune now) = True"
| "is_prune _ = False"

lemma last_n_step:
  assumes "distinct L" "0 < cap"
  shows "remove1 x (if x \<in> set (last_n cap L) then last_n cap L
            else drop (Suc (length (last_n cap L)) - cap) (last_n cap L)) @ [x] =
    last_n cap (filter (\<lambda>y. y \<noteq> x) L @ [x])"
proof -
  define A where "A = take (length L - cap) L"
  have L: "L = A @ last_n cap L" by (simp add: A_def last_n_def)
  have len: "A \<noteq> [] \<Longrightarrow> length (last_n cap L) = cap" by (auto simp: A_def)
  have dist: "distinct (last_n cap L)" using assms(1) by (simp add: last_n_def)
  show ?thesis
  proof (cases "x \<in> set (last_n cap L)")
    case True
    then have "x \<notin> set A" using assms(1) by (subst (asm) L) auto
    then have F: "filter (\<lambda>y. y \<noteq> x) L = A @ remove1 x (last_n cap L)"
      by (subst L) (auto simp: remove1_filter [OF dist] filter_id_conv)
    have "length (remove1 x (last_n cap L)) = length (last_n cap L) - 1" "0 < length (last_n cap L)"
      using True length_pos_if_in_set [OF True] by (auto simp: length_remove1)
    then show ?thesis
      using True len assms(2) unfolding F by (cases "A = []") (auto simp: last_n_def length_remove1)
  next
    case False
    then have F: "filter (\<lambda>y. y \<noteq> x) L = filter (\<lambda>y. y \<noteq> x) A @ last_n cap L"
      by (subst L) (auto simp: filter_id_conv)
    have "x \<notin> set (drop n (last_n cap L))" for n using False by (auto dest: in_set_dropD)
    then have R: "remove1 x (drop n (last_n cap L)) = drop n (last_n cap L)" for n by (rule remove1_idem)
    show ?thesis
    proof (cases "A = []")
      case True
      then have "last_n cap L = L" using L by simp
      then show ?thesis using False R [of "Suc (length L) - cap"] L assms(2) unfolding F True by (simp add: last_n_def)
    next
      case ne: False
      with R [of 1] False len [OF ne] assms(2) show ?thesis unfolding F by (simp add: last_n_append) (simp add: last_n_def)
    qed
  qed
qed

lemma ev_step_order:
  assumes "ev_ok e" "ev_step arch oper e = Inr (e', r)" "\<not> is_prune oper"
  shows "ev_cfg e' = ev_cfg e \<and>
    ev_order e' = (case touched oper of [] \<Rightarrow> ev_order e | service # _ \<Rightarrow> remove1 service (kept e service) @ [service])"
proof (cases oper)
  case (EvStart now service)
  then show ?thesis using assms by (cases "service = []") (auto simp: OnRequestStart_eq ev_upd_def)
next
  case (EvComplete now touchNow service sig)
  show ?thesis
  proof (cases "service = []")
    case False
    obtain st where "e' = ev_upd service st e"
      using OnRequestComplete_Inr [OF assms(1) False, of arch now touchNow sig e' r] assms(2) EvComplete by auto
    then show ?thesis using False EvComplete by (simp add: ev_upd_def)
  qed (use assms EvComplete in simp)
qed (use assms in simp)

lemma ev_order_run:
  assumes "ev_ok e" "ev_run arch ops e = Inr (e', rs)" "\<forall>oper\<in>set ops. \<not> is_prune oper"
    and "ev_order e = last_n (nat (MaxServices (ev_cfg e))) (remdups hist)"
  shows "ev_order e' = last_n (nat (MaxServices (ev_cfg e))) (remdups (hist @ concat (map touched ops)))"
  using assms
proof (induction ops arbitrary: e rs hist)
  case (Cons oper ops)
  let ?n = "nat (MaxServices (ev_cfg e))"
  obtain e1 r rs' where run: "ev_step arch oper e = Inr (e1, r)" "ev_run arch ops e1 = Inr (e', rs')"
    using Cons.prems(2) by (auto split: sum.splits)
  have "\<not> is_prune oper" using Cons.prems(3) by simp
  note ord = ev_step_order [OF Cons.prems(1) run(1) this]
  have n: "0 < ?n" using Cons.prems(1) by (simp add: ev_ok_def)
  have "ev_order e1 = last_n ?n (remdups (hist @ touched oper))"
  proof (cases "touched oper")
    case (Cons service ss)
    then have one: "touched oper = [service]" by (cases oper) (auto split: if_splits)
    have "nat (int (length (ev_order e)) - MaxServices (ev_cfg e) + 1) = Suc (length (ev_order e)) - ?n"
      using \<open>ev_ok e\<close> by (auto simp: ev_ok_def)
    with last_n_step [OF distinct_remdups n, of service hist] show ?thesis
      using ord one Cons.prems(4) by (simp add: kept_def remdups_snoc split: if_splits)
  qed (use ord Cons.prems(4) in simp)
  with Cons.IH [OF ev_ok_step [OF Cons.prems(1) run(1)] run(2), of "hist @ touched oper"] ord Cons.prems(3)
  show ?case by simp
qed simp

section \<open>Services do not influence one another\<close>

text \<open>
  The part of a history that a service sees: its own calls and every pruning. Its state and
  its reasons then follow from a machine for one service.
\<close>

fun concerns :: "string \<Rightarrow> ev_op \<Rightarrow> bool" where
  "concerns s (EvStart now service) = (service = s)"
| "concerns s (EvComplete now touchNow service sig) = (service = s)"
| "concerns s (EvPrune now) = True"

fun svc_step :: "goarch \<Rightarrow> trig_config \<Rightarrow> string \<Rightarrow> ev_op \<Rightarrow> service_state option \<Rightarrow> (service_state option \<times> flush_reason option) go_result" where
  "svc_step arch cfg s (EvStart now service) so =
     Inr (Some (startRequest ((case so of None \<Rightarrow> newServiceState | Some st \<Rightarrow> st)\<lparr>lastSeen := now\<rparr>)), None)"
| "svc_step arch cfg s (EvComplete now touchNow service sig) so =
     map_sum (\<lambda>x. x) (\<lambda>(st, r). (Some st, r))
       (completeRequest arch cfg s (resolve_time now sig) ((case so of None \<Rightarrow> newServiceState | Some st \<Rightarrow> st)\<lparr>lastSeen := touchNow\<rparr>))"
| "svc_step arch cfg s (EvPrune now) so =
     Inr (case so of None \<Rightarrow> None | Some st \<Rightarrow> if time_sub now (lastSeen st) > ServiceTTL cfg then None else Some st, None)"

lemma ev_step_concerns:
  assumes "ev_ok e" "concerns s oper" "s \<noteq> []"
  shows "map_sum (\<lambda>x. x) (\<lambda>(e', r). (fmlookup (ev_services e') s, r)) (ev_step arch oper e) =
    svc_step arch (ev_cfg e) s oper (fmlookup (ev_services e) s)"
proof (cases oper)
  case (EvStart now service)
  then show ?thesis using assms by (simp add: OnRequestStart_eq ev_lookup_upd svc_state_def)
next
  case (EvComplete now touchNow service sig)
  then have "service = s" using assms(2) by simp
  then show ?thesis using assms(1,3) EvComplete
    by (simp add: OnRequestComplete_eq svc_state_def ev_lookup_upd sum.map_comp o_def split_def)
next
  case (EvPrune now)
  then show ?thesis using assms(1)
    by (auto simp: PruneStale_eq stale_service_def split: option.split)
qed

lemma ev_step_unconcerned:
  assumes ok: "ev_ok e" and step: "ev_step arch oper e = Inr (e', r)" and n: "\<not> concerns s oper"
    and room: "int (card (set (ev_order e) \<union> set (touched oper))) \<le> MaxServices (ev_cfg e)"
  shows "fmlookup (ev_services e') s = fmlookup (ev_services e) s"
proof -
  have K: "kept e service = ev_order e" if "set (touched oper) = {service}" for service
  proof (cases "service \<in> set (ev_order e)")
    case False
    have "card (set (ev_order e)) = length (ev_order e)"
      using order_ok_distinct [OF ev_ok_order [OF ok]] by (rule distinct_card)
    then have "int (length (ev_order e)) < MaxServices (ev_cfg e)" using room that False by simp
    then show ?thesis by (simp add: kept_def)
  qed (simp add: kept_def)
  have upd: "fmlookup (ev_services (ev_upd service st e)) s = fmlookup (ev_services e) s"
    if "service \<noteq> s" "set (touched oper) = {service}" for service st
    using that K [of service] ev_order_mem [OF ok, of s] by (auto simp: ev_lookup_upd)
  show ?thesis
  proof (cases oper)
    case (EvStart now service)
    then show ?thesis using step n upd [of service] ok by (cases "service = []") (auto simp: OnRequestStart_eq)
  next
    case (EvComplete now touchNow service sig)
    show ?thesis
    proof (cases "service = []")
      case False
      obtain st where "e' = ev_upd service st e"
        using OnRequestComplete_Inr [OF ok False, of arch now touchNow sig e' r] step EvComplete by auto
      then show ?thesis using False EvComplete n upd [of service] by simp
    qed (use step EvComplete in simp)
  qed (use n in simp)
qed

lemma ev_step_grows:
  assumes "ev_ok e" "ev_step arch oper e = Inr (e', r)"
  shows "set (ev_order e') \<subseteq> set (ev_order e) \<union> set (touched oper)" "ev_cfg e' = ev_cfg e"
proof -
  have "set (ev_order e') \<subseteq> set (ev_order e) \<union> set (touched oper) \<and> ev_cfg e' = ev_cfg e"
  proof (cases "is_prune oper")
    case True
    then show ?thesis using assms by (cases oper) (auto simp: PruneStale_eq)
  next
    case False
    have "set (kept e service) \<subseteq> set (ev_order e)" for service
      by (auto simp: kept_def dest: in_set_dropD)
    then show ?thesis using ev_step_order [OF assms False]
      by (auto split: list.splits dest!: notin_set_remove1 [THEN contrapos_pp, rotated] set_remove1_subset [THEN subsetD])
  qed
  then show "set (ev_order e') \<subseteq> set (ev_order e) \<union> set (touched oper)" "ev_cfg e' = ev_cfg e" by auto
qed

text \<open>The reasons that the concerned operations of a history returned.\<close>

definition reasons_of :: "string \<Rightarrow> ev_op list \<Rightarrow> flush_reason option list \<Rightarrow> flush_reason option list" where
  "reasons_of s ops rs = map snd (filter (\<lambda>x. concerns s (fst x)) (zip ops rs))"

lemma ev_run_isolated:
  assumes "ev_ok e" "ev_ok e'" "ev_cfg e' = ev_cfg e"
    "fmlookup (ev_services e') s = fmlookup (ev_services e) s" "s \<noteq> []"
    "int (card (set (ev_order e) \<union> set (concat (map touched ops)))) \<le> MaxServices (ev_cfg e)"
    "ev_run arch ops e = Inr (f, rs)"
  shows "\<exists>f'. ev_run arch (filter (concerns s) ops) e' = Inr (f', reasons_of s ops rs)
    \<and> fmlookup (ev_services f') s = fmlookup (ev_services f) s"
  using assms
proof (induction ops arbitrary: e e' rs)
  case Nil
  then show ?case by (simp add: reasons_of_def)
next
  case (Cons oper ops)
  obtain e1 r rs' where run: "ev_step arch oper e = Inr (e1, r)" "ev_run arch ops e1 = Inr (f, rs')" "rs = r # rs'"
    using Cons.prems(7) by (auto split: sum.splits)
  note grows = ev_step_grows [OF Cons.prems(1) run(1)]
  have "set (ev_order e1) \<union> set (concat (map touched ops)) \<subseteq> set (ev_order e) \<union> set (concat (map touched (oper # ops)))"
    using grows(1) by auto
  then have "card (set (ev_order e1) \<union> set (concat (map touched ops))) \<le> card (set (ev_order e) \<union> set (concat (map touched (oper # ops))))"
    by (rule card_mono [rotated]) simp
  then have room: "int (card (set (ev_order e1) \<union> set (concat (map touched ops)))) \<le> MaxServices (ev_cfg e1)"
    using Cons.prems(6) unfolding grows(2) by linarith
  have ok1: "ev_ok e1" by (rule ev_ok_step [OF Cons.prems(1) run(1)])
  show ?case
  proof (cases "concerns s oper")
    case True
    from ev_step_concerns [OF Cons.prems(1) True Cons.prems(5), of arch]
      ev_step_concerns [OF Cons.prems(2) True Cons.prems(5), of arch] run(1) Cons.prems(3,4)
    have "map_sum (\<lambda>x. x) (\<lambda>(e', r). (fmlookup (ev_services e') s, r)) (ev_step arch oper e') = Inr (fmlookup (ev_services e1) s, r)"
      by simp
    then obtain e1' where e1': "ev_step arch oper e' = Inr (e1', r)" "fmlookup (ev_services e1') s = fmlookup (ev_services e1) s"
      by (cases "ev_step arch oper e'") auto
    have "ev_cfg e1' = ev_cfg e1" using ev_step_grows(2) [OF Cons.prems(2) e1'(1)] grows(2) Cons.prems(3) by simp
    from Cons.IH [OF ok1 ev_ok_step [OF Cons.prems(2) e1'(1)] this e1'(2) Cons.prems(5) room run(2)]
    show ?thesis using True e1'(1) run(3) by (auto simp: reasons_of_def)
  next
    case False
    have "card (set (ev_order e) \<union> set (touched oper)) \<le> card (set (ev_order e) \<union> set (concat (map touched (oper # ops))))"
      by (rule card_mono) auto
    with Cons.prems(6) have "int (card (set (ev_order e) \<union> set (touched oper))) \<le> MaxServices (ev_cfg e)" by linarith
    from ev_step_unconcerned [OF Cons.prems(1) run(1) False this] Cons.prems(4)
    have same: "fmlookup (ev_services e') s = fmlookup (ev_services e1) s" by simp
    have "ev_cfg e' = ev_cfg e1" using Cons.prems(3) grows(2) by simp
    from Cons.IH [OF ok1 Cons.prems(2) this same Cons.prems(5) room run(2)]
    show ?thesis using False run(3) by (simp add: reasons_of_def)
  qed
qed

section \<open>Reasons\<close>

fun last_sev :: "trigger_type \<Rightarrow> service_state \<Rightarrow> severity" where
  "last_sev TriggerErrorRate5xx st = lastErrSev st"
| "last_sev TriggerSlowSuccessRate st = lastSlowSev st"
| "last_sev TriggerRetryRate st = lastRetrySev st"
| "last_sev TriggerInFlightPileup st = lastInFlightSev st"

lemma last_sev_evaluate:
  "tt \<noteq> TriggerErrorRate5xx \<Longrightarrow> last_sev tt (fst (evaluate5xx cfg nowMs service st)) = last_sev tt st"
  "tt \<noteq> TriggerSlowSuccessRate \<Longrightarrow> last_sev tt (fst (evaluateSlowSuccess cfg nowMs service st)) = last_sev tt st"
  "tt \<noteq> TriggerRetryRate \<Longrightarrow> last_sev tt (fst (evaluateRetry cfg nowMs service st)) = last_sev tt st"
  using evaluate5xx_state [of cfg nowMs service st] evaluateSlow_state [of cfg nowMs service st]
    evaluateRetry_state [of cfg nowMs service st]
  by (cases tt; auto)+

lemma last_sev_prep [simp]:
  "last_sev tt (leave st) = last_sev tt st" "last_sev tt (advanceBucket b sec st) = last_sev tt st"
  "last_sev tt (recordSignal arch sig b st) = last_sev tt st" "last_sev tt (st\<lparr>lastSeen := t\<rparr>) = last_sev tt st"
  by (cases tt; simp add: leave_def advanceBucket_def recordSignal_def Let_def split: signal_kind.split prod.split)+

lemma evaluate_None_keeps: "evaluate5xx cfg nowMs service st = (st', None) \<Longrightarrow> tt \<noteq> TriggerErrorRate5xx \<Longrightarrow> last_sev tt st' = last_sev tt st"
  "evaluateSlowSuccess cfg nowMs service st = (st', None) \<Longrightarrow> tt \<noteq> TriggerSlowSuccessRate \<Longrightarrow> last_sev tt st' = last_sev tt st"
  "evaluateRetry cfg nowMs service st = (st', None) \<Longrightarrow> tt \<noteq> TriggerRetryRate \<Longrightarrow> last_sev tt st' = last_sev tt st"
  by (metis last_sev_evaluate fst_conv)+

definition justified :: "string \<Rightarrow> int \<Rightarrow> service_state \<Rightarrow> service_state \<Rightarrow> flush_reason \<Rightarrow> bool" where
  "justified service nowMs st st' r \<longleftrightarrow>
     fr_Service r = service \<and> fr_FiredAtUnixMs r = nowMs
     \<and> last_sev (fr_TriggerType r) st < fr_Severity r \<and> last_sev (fr_TriggerType r) st' = fr_Severity r
     \<and> (fr_TriggerType r \<noteq> TriggerInFlightPileup \<longrightarrow> f_le (fr_ThresholdValue r) (fr_ObservedValue r))"

lemma justified_rate:
  "evaluate5xx cfg nowMs service st = (st', Some r) \<Longrightarrow> justified service nowMs st st' r"
  "evaluateSlowSuccess cfg nowMs service st = (st', Some r) \<Longrightarrow> justified service nowMs st st' r"
  "evaluateRetry cfg nowMs service st = (st', Some r) \<Longrightarrow> justified service nowMs st st' r"
  using err.reason_fields [of cfg nowMs service st r] err.severity_of_reason [of cfg nowMs service st r]
    slow.reason_fields [of cfg nowMs service st r] slow.severity_of_reason [of cfg nowMs service st r]
    retry.reason_fields [of cfg nowMs service st r] retry.severity_of_reason [of cfg nowMs service st r]
  by (simp_all add: justified_def)

lemma evaluateInFlight_last: "snd (evaluateInFlight arch cfg nowMs service st) = Some r \<Longrightarrow>
   lastInFlightSev (fst (evaluateInFlight arch cfg nowMs service st)) = fr_Severity r"
  by (auto simp: evaluateInFlight_def Let_def split: if_splits)

lemma justified_inFlight:
  "evaluateInFlight arch cfg nowMs service st = (st', Some r) \<Longrightarrow> justified service nowMs st st' r"
  using evaluateInFlight_reason [of arch cfg nowMs service st r] evaluateInFlight_last [of arch cfg nowMs service st r]
  by (simp add: justified_def)

lemma justified_cong: "last_sev (fr_TriggerType r) st = last_sev (fr_TriggerType r) st0 \<Longrightarrow>
    justified service nowMs st st' r = justified service nowMs st0 st' r"
  by (simp add: justified_def)

lemma evaluateTriggers_type:
  "evaluate5xx cfg nowMs service st = (st', Some r) \<Longrightarrow> fr_TriggerType r = TriggerErrorRate5xx"
  "evaluateSlowSuccess cfg nowMs service st = (st', Some r) \<Longrightarrow> fr_TriggerType r = TriggerSlowSuccessRate"
  "evaluateRetry cfg nowMs service st = (st', Some r) \<Longrightarrow> fr_TriggerType r = TriggerRetryRate"
  using err.reason_fields [of cfg nowMs service st r] slow.reason_fields [of cfg nowMs service st r]
    retry.reason_fields [of cfg nowMs service st r] by simp_all

lemma justified_triggers:
  assumes "evaluateTriggers arch cfg nowMs service st = (st', Some r)"
  shows "justified service nowMs st st' r"
proof -
  obtain st1 r1 where e1: "evaluate5xx cfg nowMs service st = (st1, r1)" by fastforce
  obtain st2 r2 where e2: "evaluateSlowSuccess cfg nowMs service st1 = (st2, r2)" by fastforce
  obtain st3 r3 where e3: "evaluateRetry cfg nowMs service st2 = (st3, r3)" by fastforce
  consider "r1 = Some r \<and> st1 = st'" | "r1 = None \<and> r2 = Some r \<and> st2 = st'" | "r1 = None \<and> r2 = None \<and> r3 = Some r \<and> st3 = st'"
    | "r1 = None \<and> r2 = None \<and> r3 = None \<and> evaluateInFlight arch cfg nowMs service st3 = (st', Some r)"
    using assms e1 e2 e3 by (auto simp: evaluateTriggers_def split: option.splits)
  then show ?thesis
  proof cases
    case 1
    then show ?thesis using e1 justified_rate(1) by blast
  next
    case 2
    then have "justified service nowMs st1 st' r" "last_sev (fr_TriggerType r) st1 = last_sev (fr_TriggerType r) st"
      using e1 e2 justified_rate(2) evaluate_None_keeps(1) evaluateTriggers_type(2) by (blast, fastforce)
    then show ?thesis using justified_cong by blast
  next
    case 3
    then have "justified service nowMs st2 st' r" "last_sev (fr_TriggerType r) st2 = last_sev (fr_TriggerType r) st1"
      "last_sev (fr_TriggerType r) st1 = last_sev (fr_TriggerType r) st"
      using e1 e2 e3 justified_rate(3) evaluate_None_keeps(1,2) evaluateTriggers_type(3) by (blast, fastforce, fastforce)
    then show ?thesis using justified_cong by metis
  next
    case 4
    then have "fr_TriggerType r = TriggerInFlightPileup" using evaluateInFlight_reason(2) [of arch cfg nowMs service st3 r] by simp
    then have "last_sev (fr_TriggerType r) st3 = last_sev (fr_TriggerType r) st"
      using 4 e1 e2 e3 evaluate_None_keeps by (metis trigger_type.distinct)
    then show ?thesis using 4 justified_inFlight justified_cong by blast
  qed
qed

section \<open>Concurrent requests\<close>

text \<open>
  Several \<open>ConsumeTraces\<close> goroutines evaluate spans at the same time. Each call of the
  evaluator is atomic (it holds the mutex), but another goroutine's calls may come between
  the \<open>OnRequestStart\<close> and the \<open>OnRequestComplete\<close> of a server span. The first component
  of the state holds the services of the server spans between the two.
\<close>

datatype worker_event =
    WBegin string | WFinish string "flush_reason option" | WClient string "flush_reason option" | WPrune

inductive worker_step :: "goarch \<Rightarrow> string multiset \<times> evaluator \<Rightarrow> worker_event \<Rightarrow> string multiset \<times> evaluator \<Rightarrow> bool"
  for arch where
  worker_begin: "worker_step arch (m, e) (WBegin s) (add_mset s m, OnRequestStart now s e)"
| worker_finish: "s \<in># m \<Longrightarrow> sig_Kind sig = SignalServer \<Longrightarrow> OnRequestComplete arch now touchNow s sig e = Inr (e', r) \<Longrightarrow>
    worker_step arch (m, e) (WFinish s r) (m - {#s#}, e')"
| worker_client: "sig_Kind sig = SignalClient \<Longrightarrow> OnRequestComplete arch now touchNow s sig e = Inr (e', r) \<Longrightarrow>
    worker_step arch (m, e) (WClient s r) (m, e')"
| worker_prune: "worker_step arch (m, e) WPrune (m, fst (PruneStale now e))"

inductive_cases worker_finishE: "worker_step arch (m, e) (WFinish s r) (m', e')"

definition worker_inv :: "trig_config \<Rightarrow> string multiset \<times> evaluator \<Rightarrow> bool" where
  "worker_inv cfg w \<longleftrightarrow> ev_ok (snd w) \<and> ev_cfg (snd w) = cfg
     \<and> (\<forall>s. s \<noteq> [] \<longrightarrow> inFlightCurrent (svc_state (snd w) s) \<le> int (count (fst w) s))"

lemma inFlight_new [simp]: "inFlightCurrent newServiceState = 0"
  by (simp add: newServiceState_def)

lemma inFlight_evaluate:
  "inFlightCurrent (fst (evaluateTriggers arch cfg nowMs service st)) = inFlightCurrent st"
proof -
  have "inFlightCurrent (fst (evaluate5xx cfg nowMs service s)) = inFlightCurrent s"
    "inFlightCurrent (fst (evaluateSlowSuccess cfg nowMs service s)) = inFlightCurrent s"
    "inFlightCurrent (fst (evaluateRetry cfg nowMs service s)) = inFlightCurrent s"
    "inFlightCurrent (fst (evaluateInFlight arch cfg nowMs service s)) = inFlightCurrent s" for s
    using evaluate5xx_state [of cfg nowMs service s] evaluateSlow_state [of cfg nowMs service s]
      evaluateRetry_state [of cfg nowMs service s] evaluateInFlight_state [of arch cfg nowMs service s] by auto
  then show ?thesis
    by (auto simp: evaluateTriggers_def split: prod.split option.split) (metis fst_conv)+
qed

lemma inFlight_prep [simp]:
  "inFlightCurrent (advanceBucket b sec st) = inFlightCurrent st"
  "inFlightCurrent (recordSignal arch sig b st) = inFlightCurrent st"
  by (simp_all add: advanceBucket_def recordSignal_def Let_def split: signal_kind.split prod.split)

lemma inFlight_complete:
  assumes "completeRequest arch cfg service sig st = Inr (st', r)"
  shows "inFlightCurrent st' = inFlightCurrent (leave st)"
proof (rule completeRequest_Inr [OF assms])
  fix b assume "evaluateTriggers arch cfg (sig_NowUnixMs sig) service
       (recordSignal arch sig b (advanceBucket b (sig_NowUnixMs sig sdiv 1000) (leave st))) = (st', r)"
  from arg_cong [OF this, of "\<lambda>x. inFlightCurrent (fst x)"] show ?thesis by (simp add: inFlight_evaluate)
qed

lemma svc_state_upd: "svc_state (ev_upd service st e) k =
   (if k = service then st else if k \<in> set (kept e service) then svc_state e k else newServiceState)"
  by (simp add: svc_state_def ev_lookup_upd)

lemma svc_state_prune: "ev_ok e \<Longrightarrow> svc_state (fst (PruneStale now e)) k \<in> {svc_state e k, newServiceState}"
  by (auto simp: PruneStale_eq svc_state_def)

lemma inFlight_nonneg: "ev_ok e \<Longrightarrow> 0 \<le> inFlightCurrent (svc_state e s)"
  using svc_state_ok [of e s] by (simp add: service_ok_def)

lemma inFlight_after_complete:
  assumes "ev_ok e" "s \<noteq> []" "OnRequestComplete arch now touchNow s sig e = Inr (e', r)"
  shows "inFlightCurrent (svc_state e' k) \<le> (if k = s then max 0 (inFlightCurrent (svc_state e k) - 1) else inFlightCurrent (svc_state e k))"
    "inFlightCurrent (svc_state e' s) = max 0 (inFlightCurrent (svc_state e s) - 1)" "ev_cfg e' = ev_cfg e"
proof -
  obtain st where st: "completeRequest arch (ev_cfg e) s (resolve_time now sig)
      ((svc_state e s)\<lparr>lastSeen := touchNow\<rparr>) = Inr (st, r)" "e' = ev_upd s st e"
    by (rule OnRequestComplete_Inr [OF assms])
  have "inFlightCurrent st = max 0 (inFlightCurrent (svc_state e s) - 1)"
    using inFlight_complete [OF st(1)] inFlight_nonneg [OF assms(1), of s] by (simp add: leave_def)
  then show "inFlightCurrent (svc_state e' k) \<le> (if k = s then max 0 (inFlightCurrent (svc_state e k) - 1) else inFlightCurrent (svc_state e k))"
    "inFlightCurrent (svc_state e' s) = max 0 (inFlightCurrent (svc_state e s) - 1)" "ev_cfg e' = ev_cfg e"
    using inFlight_nonneg [OF assms(1), of k] st(2) by (simp_all add: svc_state_upd)
qed

lemma worker_inv_complete:
  assumes "worker_inv cfg (m, e)" "OnRequestComplete arch now touchNow s sig e = Inr (e', r)"
  shows "worker_inv cfg (m - {#s#}, e')" "worker_inv cfg (m, e')"
proof -
  have ok: "ev_ok e" and cfg: "ev_cfg e = cfg"
    and le: "\<And>k. k \<noteq> [] \<Longrightarrow> inFlightCurrent (svc_state e k) \<le> int (count m k)"
    using assms(1) by (auto simp: worker_inv_def)
  have ok': "ev_ok e'" by (rule ev_ok_Complete [OF ok assms(2)])
  have bound: "inFlightCurrent (svc_state e' k) \<le> int (count (m - {#s#}) k)" if "k \<noteq> []" for k
  proof (cases "s = []")
    case True
    then show ?thesis using assms(2) le [OF that] cfg that by simp
  next
    case False
    have "int (count m k) - (if k = s then 1 else 0) \<le> int (count (m - {#s#}) k)" by (simp, linarith)
    moreover have "0 \<le> int (count (m - {#s#}) k)" by simp
    ultimately show ?thesis
      using inFlight_after_complete(1) [OF ok False assms(2), of k] inFlight_after_complete(3) [OF ok False assms(2)] le [OF that] cfg
      by (simp split: if_splits)
  qed
  have cfg': "ev_cfg e' = cfg"
    using inFlight_after_complete(3) [OF ok _ assms(2)] assms(2) cfg by (cases "s = []") auto
  have "count (m - {#s#}) k \<le> count m k" for k by simp
  then have "inFlightCurrent (svc_state e' k) \<le> int (count m k)" if "k \<noteq> []" for k
    using bound [OF that] by (meson of_nat_le_iff order_trans)
  with bound cfg' ok' show "worker_inv cfg (m - {#s#}, e')" "worker_inv cfg (m, e')"
    by (simp_all add: worker_inv_def)
qed

lemma worker_inv_begin:
  assumes "worker_inv cfg (m, e)" shows "worker_inv cfg (add_mset s m, OnRequestStart now s e)"
proof (cases "s = []")
  case False
  have ok: "ev_ok e" and cfg: "ev_cfg e = cfg"
    and le: "\<And>k. k \<noteq> [] \<Longrightarrow> inFlightCurrent (svc_state e k) \<le> int (count m k)"
    using assms by (auto simp: worker_inv_def)
  note eq = OnRequestStart_eq [OF ok False, of now]
  have "inFlightCurrent (startRequest st) = inFlightCurrent st + 1" for st
    by (simp add: startRequest_def Let_def)
  then have "inFlightCurrent (svc_state (OnRequestStart now s e) k) \<le> int (count (add_mset s m) k)" if "k \<noteq> []" for k
    using le [OF that] by (simp add: eq svc_state_upd)
  moreover have "ev_cfg (OnRequestStart now s e) = cfg" by (simp add: eq cfg)
  ultimately show ?thesis using ev_ok_Start [OF ok] by (simp add: worker_inv_def)
qed (use assms in \<open>simp add: worker_inv_def\<close>)

lemma worker_inv_prune:
  assumes "worker_inv cfg (m, e)" shows "worker_inv cfg (m, fst (PruneStale now e))"
proof -
  have ok: "ev_ok e" and cfg: "ev_cfg e = cfg"
    and le: "\<And>k. k \<noteq> [] \<Longrightarrow> inFlightCurrent (svc_state e k) \<le> int (count m k)"
    using assms by (auto simp: worker_inv_def)
  have "inFlightCurrent (svc_state (fst (PruneStale now e)) k) \<le> int (count m k)" if "k \<noteq> []" for k
    using svc_state_prune [OF ok, of now k] le [OF that] by auto
  moreover have "ev_cfg (fst (PruneStale now e)) = cfg" by (simp add: PruneStale_eq [OF ok] cfg)
  ultimately show ?thesis using ev_ok_Prune [OF ok] by (simp add: worker_inv_def)
qed

interpretation workers: invariant_system "\<lambda>w. w = ({#}, ev_New cfg)" "worker_step arch" "worker_inv (ev_cfg (ev_New cfg))" for arch cfg
proof unfold_locales
  fix w :: "string multiset \<times> evaluator"
  assume "w = ({#}, ev_New cfg)"
  then show "worker_inv (ev_cfg (ev_New cfg)) w"
    using ev_ok_New [of cfg] by (simp add: worker_inv_def svc_state_def) (simp add: ev_New_def Let_def)
next
  fix w w' :: "string multiset \<times> evaluator" and l
  assume inv: "worker_inv (ev_cfg (ev_New cfg)) w" and step: "worker_step arch w l w'"
  from step show "worker_inv (ev_cfg (ev_New cfg)) w'"
  proof cases
    case (worker_begin m e s now)
    then show ?thesis using inv worker_inv_begin by simp
  next
    case (worker_finish s m sig now touchNow e e' r)
    then show ?thesis using inv worker_inv_complete(1) by simp
  next
    case (worker_client sig now touchNow s e e' r m)
    then show ?thesis using inv worker_inv_complete(2) by simp
  next
    case (worker_prune m e now)
    then show ?thesis using inv worker_inv_prune by simp
  qed
qed

text \<open>A pile-up reason needs the minimum of requests in flight.\<close>

lemma evaluateTriggers_pileup:
  assumes "evaluateTriggers arch cfg nowMs service st = (st', Some r)" "fr_TriggerType r = TriggerInFlightPileup"
  shows "InFlightMinAbsolute cfg \<le> inFlightCurrent st'"
proof -
  obtain st1 r1 where e1: "evaluate5xx cfg nowMs service st = (st1, r1)" by fastforce
  obtain st2 r2 where e2: "evaluateSlowSuccess cfg nowMs service st1 = (st2, r2)" by fastforce
  obtain st3 r3 where e3: "evaluateRetry cfg nowMs service st2 = (st3, r3)" by fastforce
  have "evaluateInFlight arch cfg nowMs service st3 = (st', Some r)"
    using assms e1 e2 e3 evaluateTriggers_type [of cfg nowMs service] by (auto simp: evaluateTriggers_def split: option.splits)
  then show ?thesis
    using evaluateInFlight_reason(5) [of arch cfg nowMs service st3 r] evaluateInFlight_state [of arch cfg nowMs service st3] by auto
qed

lemma complete_pileup:
  assumes "ev_ok e" "OnRequestComplete arch now touchNow s sig e = Inr (e', Some r)" "fr_TriggerType r = TriggerInFlightPileup"
  shows "s \<noteq> [] \<and> InFlightMinAbsolute (ev_cfg e) \<le> inFlightCurrent (svc_state e' s)"
proof -
  have s: "s \<noteq> []" using assms(2) by auto
  obtain st where st: "completeRequest arch (ev_cfg e) s (resolve_time now sig)
      ((svc_state e s)\<lparr>lastSeen := touchNow\<rparr>) = Inr (st, Some r)" "e' = ev_upd s st e"
    by (rule OnRequestComplete_Inr [OF assms(1) s assms(2)])
  have "InFlightMinAbsolute (ev_cfg e) \<le> inFlightCurrent st"
    by (rule completeRequest_Inr [OF st(1)]) (rule evaluateTriggers_pileup [OF _ assms(3)])
  with s st(2) show ?thesis by (simp add: svc_state_upd)
qed

section \<open>No panic\<close>

lemma sdiv_1000_nonneg: "- 1000 < ms \<Longrightarrow> 0 \<le> ms sdiv (1000 :: int)"
  by (cases "0 \<le> ms") (auto simp: signed_divide_int_def sgn_if)

lemma complete_total:
  assumes "- 1000 < sig_NowUnixMs sig"
  shows "\<exists>st' r. completeRequest arch cfg service sig st = Inr (st', r)"
  using sdiv_1000_nonneg [OF assms]
  by (simp add: completeRequest_def Let_def windowBuckets_def)

fun clock_ok :: "ev_op \<Rightarrow> bool" where
  "clock_ok (EvComplete now touchNow service sig) = (- 1000 < sig_NowUnixMs (resolve_time now sig))"
| "clock_ok _ = True"

lemma ev_step_total: "ev_ok e \<Longrightarrow> clock_ok oper \<Longrightarrow> \<exists>e' r. ev_step arch oper e = Inr (e', r)"
proof (cases oper)
  case (EvComplete now touchNow service sig)
  assume "ev_ok e" "clock_ok oper"
  then show ?thesis using EvComplete complete_total [of "resolve_time now sig" arch "ev_cfg e" service "(svc_state e service)\<lparr>lastSeen := touchNow\<rparr>"]
    by (cases "service = []") (auto simp: OnRequestComplete_eq)
qed auto

lemma ev_run_total: "ev_ok e \<Longrightarrow> list_all clock_ok ops \<Longrightarrow> \<exists>e' rs. ev_run arch ops e = Inr (e', rs) \<and> length rs = length ops"
proof (induction ops arbitrary: e)
  case (Cons oper ops)
  then obtain e1 r where step: "ev_step arch oper e = Inr (e1, r)" using ev_step_total by fastforce
  with Cons.IH [OF ev_ok_step [OF Cons.prems(1) step]] Cons.prems(2) show ?case by auto
qed simp

section \<open>Properties\<close>

text \<open>
  C22: bounded, well-formed evaluator state. After any history of starts, completions and
  prunings that does not panic, the number of services is at most the configured cap (the
  default where none is set), the eviction order lists exactly the services of the map
  without repetition, and every service's state is well-formed: its windows have
  $0 \le \mathrm{hits} \le \mathrm{total}$ in every bucket, its latency baseline is unset or between one millisecond and
  one hour, and its in-flight count is between zero and its peak.
\<close>

theorem evaluator_bounded:
  assumes "ev_run arch ops (ev_New cfg) = Inr (e, rs)"
  shows "Services e \<le> (if MaxServices cfg \<le> 0 then 4096 else MaxServices cfg)
    \<and> distinct (ev_order e) \<and> set (ev_order e) = fset (fmdom (ev_services e))
    \<and> (\<forall>service st. fmlookup (ev_services e) service = Some st \<longrightarrow> service_ok st)"
proof -
  have ok: "ev_ok e" by (rule ev_ok_run [OF ev_ok_New assms])
  have "ev_cfg e' = ev_cfg e0" if "ev_run arch ops e0 = Inr (e', rs')" "ev_ok e0" for e0 e' ops rs'
    using that
  proof (induction ops arbitrary: e0 rs')
    case (Cons oper ops)
    then obtain e1 r rs1 where "ev_step arch oper e0 = Inr (e1, r)" "ev_run arch ops e1 = Inr (e', rs1)"
      by (auto split: sum.splits)
    then show ?case using Cons ev_step_grows(2) ev_ok_step by metis
  qed simp
  from this [OF assms ev_ok_New] have "MaxServices (ev_cfg e) = (if MaxServices cfg \<le> 0 then 4096 else MaxServices cfg)"
    by (simp add: ev_New_def defaultMaxServices_def Let_def)
  moreover have "Services e = int (length (ev_order e))"
    by (simp add: Services_def order_ok_fcard [OF ev_ok_order [OF ok]])
  ultimately show ?thesis
    using ok by (auto simp: ev_ok_def order_ok_def dest: fmpredD)
qed

theorem evaluator_bounded_witness:
  "Services (OnRequestStart 5 ''b'' (OnRequestStart 4 ''a'' (ev_New (trig_DefaultConfig\<lparr>MaxServices := 1\<rparr>)))) \<le> 1"
  using evaluator_bounded [of AMD64 "[EvStart 4 ''a'', EvStart 5 ''b'']" "trig_DefaultConfig\<lparr>MaxServices := 1\<rparr>"]
  by simp

text \<open>
  C23: the eviction order is true LRU. After any history without pruning, the services kept
  are exactly the most recently touched distinct ones, as many as the cap allows, in the
  order of their last use: a flood of new names evicts the least recently used service first.
\<close>

theorem services_lru:
  assumes "ev_run arch ops (ev_New cfg) = Inr (e, rs)" and "\<forall>oper\<in>set ops. \<not> is_prune oper"
  shows "ev_order e = last_n (nat (if MaxServices cfg \<le> 0 then 4096 else MaxServices cfg)) (remdups (concat (map touched ops)))"
  using ev_order_run [OF ev_ok_New assms, of "[]"]
  by (simp add: ev_New_def defaultMaxServices_def Let_def split: if_splits)

theorem services_lru_witness:
  "ev_order (OnRequestStart 7 ''a'' (OnRequestStart 6 ''c'' (OnRequestStart 5 ''b'' (OnRequestStart 4 ''a''
     (ev_New (trig_DefaultConfig\<lparr>MaxServices := 2\<rparr>)))))) = [''c'', ''a'']"
  using services_lru [of AMD64 "[EvStart 4 ''a'', EvStart 5 ''b'', EvStart 6 ''c'', EvStart 7 ''a'']" "trig_DefaultConfig\<lparr>MaxServices := 2\<rparr>"]
  by (simp add: last_n_def)

text \<open>
  C24: services do not influence one another. In any history that touches no more distinct
  services than the cap, what a service gets, the reasons returned for it and its final
  state, is exactly what it gets from a history with every other service's calls left out.
\<close>

theorem services_isolated:
  assumes "ev_run arch ops (ev_New cfg) = Inr (e, rs)" and "s \<noteq> []"
    and "int (card (set (concat (map touched ops)))) \<le> MaxServices cfg"
  shows "\<exists>e'. ev_run arch (filter (concerns s) ops) (ev_New cfg) = Inr (e', reasons_of s ops rs)
    \<and> fmlookup (ev_services e') s = fmlookup (ev_services e) s"
proof -
  have "ev_order (ev_New cfg) = []" "MaxServices cfg \<le> MaxServices (ev_cfg (ev_New cfg))"
    by (auto simp: ev_New_def Let_def defaultMaxServices_def)
  with assms(3) show ?thesis
    by (intro ev_run_isolated [OF ev_ok_New ev_ok_New refl refl assms(2) _ assms(1)]) simp
qed

theorem services_isolated_witness:
  "\<exists>e'. ev_run AMD64 [EvStart 4 ''a'', EvPrune 6] (ev_New trig_DefaultConfig) = Inr (e', [None, None])"
  using services_isolated [of AMD64 "[EvStart 4 ''a'', EvStart 5 ''b'', EvPrune 6]" trig_DefaultConfig
    "fst (PruneStale 6 (OnRequestStart 5 ''b'' (OnRequestStart 4 ''a'' (ev_New trig_DefaultConfig))))" "[None, None, None]" "''a''"]
  by (simp add: reasons_of_def trig_DefaultConfig_def defaultMaxServices_def)

text \<open>
  C25: every reason is justified. When a completion in any reachable state returns a reason,
  it names that service and the time of the signal, its severity is above the last severity
  that trigger had recorded for the service and is the one it has recorded now, so the same
  level is not reported twice in a row, and for the three rate triggers the observed rate has
  reached the reported threshold.
\<close>

theorem reasons_justified:
  assumes "ev_run arch ops (ev_New cfg) = Inr (e, rs)"
    and "OnRequestComplete arch now touchNow service sig e = Inr (e', Some r)"
  shows "justified service (sig_NowUnixMs (resolve_time now sig)) (svc_state e service) (svc_state e' service) r"
proof -
  have ok: "ev_ok e" by (rule ev_ok_run [OF ev_ok_New assms(1)])
  have s: "service \<noteq> []" using assms(2) by auto
  obtain st where st: "completeRequest arch (ev_cfg e) service (resolve_time now sig)
      ((svc_state e service)\<lparr>lastSeen := touchNow\<rparr>) = Inr (st, Some r)" "e' = ev_upd service st e"
    by (rule OnRequestComplete_Inr [OF ok s assms(2)])
  show ?thesis
  proof (rule completeRequest_Inr [OF st(1)])
    fix b assume "evaluateTriggers arch (ev_cfg e) (sig_NowUnixMs (resolve_time now sig)) service
       (recordSignal arch (resolve_time now sig) b (advanceBucket b (sig_NowUnixMs (resolve_time now sig) sdiv 1000)
         (leave ((svc_state e service)\<lparr>lastSeen := touchNow\<rparr>)))) = (st, Some r)"
    from justified_triggers [OF this] show ?thesis by (simp add: justified_def st(2) svc_state_upd)
  qed
qed

definition example_error :: request_signal where
  "example_error = \<lparr>sig_Kind = SignalServer, sig_StatusCode = 503, sig_DurationNs = 5,
     sig_OutboundRetryKeyHash = 0, sig_IsRetry = None, sig_NowUnixMs = 1000\<rparr>"

lemma example_error_fires:
  "\<exists>e' r. OnRequestComplete AMD64 0 0 ''a'' example_error (ev_New (trig_DefaultConfig\<lparr>MinSamples := 1\<rparr>)) = Inr (e', Some r)"
proof -
  let ?cfg = "trig_DefaultConfig\<lparr>MinSamples := 1\<rparr>"
  define st where "st = recordSignal AMD64 example_error 1 (advanceBucket 1 1 (newServiceState\<lparr>lastSeen := 0\<rparr>))"
  have c: "collect 1 (errorWindow st) = (1, 1)"
    by (simp add: st_def recordSignal_def example_error_def advanceBucket_def newServiceState_def maybeRoll_def incTotal_def
        incHits_def collect_def cw_init_def cw_zero_def windowBuckets_def windowSeconds_def upt_rec Let_def)
  have l: "lastErrSev st = SeverityNone"
    by (simp add: st_def recordSignal_def example_error_def advanceBucket_def newServiceState_def Let_def)
  have "f_le (f64 (of_int 10 / 100)) (f_div (f_of_int 1) (f_of_int 1))"
    by (subst rate_ge_threshold) simp_all
  then have "rate_level 1 (ErrorRate5xxLow ?cfg) (ErrorRate5xxHigh ?cfg) (1, 1) = SeveritySevere"
    by (simp add: rate_level_def classifyTwoTier_def trig_DefaultConfig_def)
  then obtain r where "snd (evaluate5xx ?cfg 1000 ''a'' st) = Some r"
    by (simp add: err.reason_eval c l)
  then have t: "evaluateTriggers AMD64 ?cfg 1000 ''a'' st = (fst (evaluate5xx ?cfg 1000 ''a'' st), Some r)"
    by (cases "evaluate5xx ?cfg 1000 ''a'' st") (simp add: evaluateTriggers_def)
  have "ev_cfg (ev_New ?cfg) = ?cfg" "svc_state (ev_New ?cfg) ''a'' = newServiceState"
    by (simp_all add: ev_New_def svc_state_def trig_DefaultConfig_def defaultMaxServices_def defaultServiceTTL_def duration_defs)
  moreover have "completeRequest AMD64 ?cfg ''a'' example_error (newServiceState\<lparr>lastSeen := 0\<rparr>) = Inr (fst (evaluate5xx ?cfg 1000 ''a'' st), Some r)"
    using t by (simp add: completeRequest_def st_def Let_def windowBuckets_def example_error_def)
  moreover have "resolve_time 0 example_error = example_error" by (simp add: resolve_time_def example_error_def)
  ultimately show ?thesis by (simp add: OnRequestComplete_eq [OF ev_ok_New])
qed

theorem reasons_justified_witness:
  "\<exists>e' r. OnRequestComplete AMD64 0 0 ''a'' example_error (ev_New (trig_DefaultConfig\<lparr>MinSamples := 1\<rparr>)) = Inr (e', Some r)
     \<and> justified ''a'' 1000 (svc_state (ev_New (trig_DefaultConfig\<lparr>MinSamples := 1\<rparr>)) ''a'') (svc_state e' ''a'') r"
proof -
  let ?e = "ev_New (trig_DefaultConfig\<lparr>MinSamples := 1\<rparr>)"
  obtain e' r where *: "OnRequestComplete AMD64 0 0 ''a'' example_error ?e = Inr (e', Some r)"
    using example_error_fires by blast
  have "ev_run AMD64 [] ?e = Inr (?e, [])" by simp
  from reasons_justified [OF this *] * show ?thesis by (auto simp: resolve_time_def example_error_def)
qed

text \<open>
  No panic. Whatever the calls, as long as no completion carries a time a full second
  or more before the Unix epoch (where the bucket index would be negative), every call
  returns, one result per call.
\<close>

lemma evaluator_total:
  assumes "list_all clock_ok ops"
  shows "\<exists>e rs. ev_run arch ops (ev_New cfg) = Inr (e, rs) \<and> length rs = length ops"
  by (rule ev_run_total [OF ev_ok_New assms])

text \<open>
  C26: a pile-up needs real concurrency. In any interleaving of goroutines that evaluate
  spans, a completion that finishes a server span reports an in-flight pile-up only if, after
  it, at least \<open>InFlightMinAbsolute\<close> other server spans of the service are still between
  their start and their completion: the count never exceeds the requests that are in flight.
\<close>

theorem pileup_needs_concurrency:
  assumes "reaches (worker_step arch) ({#}, ev_New cfg) (m, e)"
    and "worker_step arch (m, e) (WFinish s r) (m', e')"
    and "int (count m' s) < InFlightMinAbsolute cfg"
  shows "\<forall>x. r = Some x \<longrightarrow> fr_TriggerType x \<noteq> TriggerInFlightPileup"
proof (intro allI impI notI)
  fix x assume x: "r = Some x" "fr_TriggerType x = TriggerInFlightPileup"
  have inv: "worker_inv (ev_cfg (ev_New cfg)) (m, e)" by (rule workers.inv_reaches [OF assms(1) refl])
  have "reaches (worker_step arch) ({#}, ev_New cfg) (m', e')" using assms(1,2) by (rule reaches_step)
  then have inv': "worker_inv (ev_cfg (ev_New cfg)) (m', e')" by (rule workers.inv_reaches [OF _ refl])
  obtain sig now touchNow where "OnRequestComplete arch now touchNow s sig e = Inr (e', r)"
    using assms(2) by (rule worker_finishE) auto
  with complete_pileup [of e arch now touchNow s sig e' x] x inv
  have "s \<noteq> []" "InFlightMinAbsolute (ev_cfg e) \<le> inFlightCurrent (svc_state e' s)" by (auto simp: worker_inv_def)
  moreover have "InFlightMinAbsolute (ev_cfg (ev_New cfg)) = InFlightMinAbsolute cfg" by (simp add: ev_New_def Let_def)
  ultimately show False using inv inv' assms(3) by (force simp: worker_inv_def)
qed

theorem pileup_needs_concurrency_witness:
  "\<exists>e' r. worker_step AMD64 ({#''a''#}, OnRequestStart 0 ''a'' (ev_New trig_DefaultConfig)) (WFinish ''a'' r) ({#}, e')
     \<and> (\<forall>x. r = Some x \<longrightarrow> fr_TriggerType x \<noteq> TriggerInFlightPileup)"
proof -
  let ?e = "OnRequestStart 0 ''a'' (ev_New trig_DefaultConfig)"
  have "ev_ok ?e" by (rule ev_ok_Start [OF ev_ok_New])
  moreover have "clock_ok (EvComplete 0 0 ''a'' example_error)" by (simp add: resolve_time_def example_error_def)
  ultimately obtain e' r where "OnRequestComplete AMD64 0 0 ''a'' example_error ?e = Inr (e', r)"
    using ev_step_total [of ?e "EvComplete 0 0 ''a'' example_error" AMD64] by auto
  then have step: "worker_step AMD64 ({#''a''#}, ?e) (WFinish ''a'' r) ({#}, e')"
    using worker_finish [of "''a''" "{#''a''#}" example_error AMD64 0 0 ?e e' r] by (simp add: example_error_def)
  have "reaches (worker_step AMD64) ({#}, ev_New trig_DefaultConfig) ({#''a''#}, ?e)"
    by (rule reaches_step [OF reaches_refl]) (rule worker_begin)
  moreover have "int (count {#} ''a'') < InFlightMinAbsolute trig_DefaultConfig" by (simp add: trig_DefaultConfig_def)
  ultimately show ?thesis using pileup_needs_concurrency [OF _ step] step by blast
qed

end
