(* ===== verification/Telemetry.thy ===== *)
theory Telemetry
  imports Prelude
begin

text \<open>
  The metrics of \<open>internal/metadata/telemetry.go\<close>. The OpenTelemetry SDK behind the
  instruments is a log: \<open>sdk_adds\<close> lists every counter increment made so far, with its
  labels, and \<open>sdk_active\<close> the registered gauge callbacks. A \<open>*Telemetry\<close> is an \<open>option\<close>,
  \<open>None\<close> being the nil receiver on which every method is a no-op.

  Whether the SDK accepts an instrument or a callback is up to the SDK: \<open>meter\<close> holds its
  answers, an error message or \<open>None\<close>.
\<close>

definition scopeName :: string where
  "scopeName = ''github.com/incidentary/opentelemetry-collector-incidentary/processor/incidentaryprocessor''"

datatype counter_add = CounterAdd (add_name: string) (add_labels: "(string \<times> string) list")

record sdk =
  sdk_adds :: "counter_add list"
  sdk_active :: "nat list"
  sdk_next :: nat

record meter =
  meter_Int64Counter :: "string \<Rightarrow> string option"
  meter_Int64ObservableGauge :: "string \<Rightarrow> string option"
  meter_RegisterCallback :: "string \<Rightarrow> string option"

type_synonym meter_provider = "string \<Rightarrow> meter"

text \<open>An instrument is represented by the name it was created with.\<close>

record telemetry =
  DLQEnqueuedTotal :: string
  DLQDroppedTotal :: string
  DLQFlushedTotal :: string
  CircuitBreakerOpenTotal :: string
  TriggerFiredTotal :: string
  DLQSize :: string
  dlqSizeRegistration :: "nat option"

definition Meter :: "meter_provider \<Rightarrow> meter" where
  "Meter provider = provider scopeName"

definition new_counter :: "meter \<Rightarrow> string \<Rightarrow> string \<Rightarrow> string go_result" where
  "new_counter mt name short =
     (case meter_Int64Counter mt name of None \<Rightarrow> Inr name | Some err \<Rightarrow> Inl (short @ '': '' @ err))"

definition new_gauge :: "meter \<Rightarrow> string \<Rightarrow> string \<Rightarrow> string go_result" where
  "new_gauge mt name short =
     (case meter_Int64ObservableGauge mt name of None \<Rightarrow> Inr name | Some err \<Rightarrow> Inl (short @ '': '' @ err))"

definition bind_result :: "'a go_result \<Rightarrow> ('a \<Rightarrow> 'b go_result) \<Rightarrow> 'b go_result" where
  "bind_result r f = (case r of Inl err \<Rightarrow> Inl err | Inr x \<Rightarrow> f x)"

definition NewTelemetry :: "meter_provider option \<Rightarrow> telemetry go_result" where
  "NewTelemetry provider =
     (case provider of
        None \<Rightarrow> Inl ''metadata.NewTelemetry: MeterProvider is nil''
      | Some mp \<Rightarrow>
          let mt = mp scopeName in
          bind_result (new_counter mt ''incidentary_processor_dlq_enqueued_total'' ''dlq_enqueued_total'') (\<lambda>enq.
          bind_result (new_counter mt ''incidentary_processor_dlq_dropped_total'' ''dlq_dropped_total'') (\<lambda>dropped.
          bind_result (new_counter mt ''incidentary_processor_dlq_flushed_total'' ''dlq_flushed_total'') (\<lambda>flushed.
          bind_result (new_counter mt ''incidentary_processor_circuit_breaker_open_total'' ''circuit_breaker_open_total'') (\<lambda>cb.
          bind_result (new_counter mt ''incidentary_processor_trigger_fired_total'' ''trigger_fired_total'') (\<lambda>trig.
          bind_result (new_gauge mt ''incidentary_processor_dlq_size'' ''dlq_size'') (\<lambda>size.
          Inr \<lparr>DLQEnqueuedTotal = enq, DLQDroppedTotal = dropped, DLQFlushedTotal = flushed,
               CircuitBreakerOpenTotal = cb, TriggerFiredTotal = trig, DLQSize = size,
               dlqSizeRegistration = None\<rparr>)))))))"

text \<open>\<open>counter.Add(ctx, 1, labels)\<close>.\<close>

definition add_one :: "string \<Rightarrow> (string \<times> string) list \<Rightarrow> sdk \<Rightarrow> sdk" where
  "add_one name labels k = k\<lparr>sdk_adds := sdk_adds k @ [CounterAdd name labels]\<rparr>"

definition RecordDLQEnqueued :: "telemetry option \<Rightarrow> string \<Rightarrow> sdk \<Rightarrow> sdk" where
  "RecordDLQEnqueued t reason k =
     (case t of None \<Rightarrow> k | Some tel \<Rightarrow> add_one (DLQEnqueuedTotal tel) [(''reason'', reason)] k)"

definition RecordDLQDropped :: "telemetry option \<Rightarrow> string \<Rightarrow> sdk \<Rightarrow> sdk" where
  "RecordDLQDropped t reason k =
     (case t of None \<Rightarrow> k | Some tel \<Rightarrow> add_one (DLQDroppedTotal tel) [(''reason'', reason)] k)"

definition RecordDLQFlushed :: "telemetry option \<Rightarrow> string \<Rightarrow> sdk \<Rightarrow> sdk" where
  "RecordDLQFlushed t outcome k =
     (case t of None \<Rightarrow> k | Some tel \<Rightarrow> add_one (DLQFlushedTotal tel) [(''outcome'', outcome)] k)"

definition RecordCircuitBreakerOpen :: "telemetry option \<Rightarrow> string \<Rightarrow> sdk \<Rightarrow> sdk" where
  "RecordCircuitBreakerOpen t tier k =
     (case t of None \<Rightarrow> k | Some tel \<Rightarrow> add_one (CircuitBreakerOpenTotal tel) [(''tier'', tier)] k)"

definition RecordTriggerFired :: "telemetry option \<Rightarrow> string \<Rightarrow> string \<Rightarrow> sdk \<Rightarrow> sdk" where
  "RecordTriggerFired t trigger sev k =
     (case t of None \<Rightarrow> k
      | Some tel \<Rightarrow> add_one (TriggerFiredTotal tel) [(''trigger'', trigger), (''severity'', sev)] k)"

text \<open>
  Registering returns a fresh registration; the callback observes the queue length for as
  long as its registration is active.
\<close>

definition RegisterDLQSizeCallback :: "telemetry option \<Rightarrow> meter \<Rightarrow> sdk \<Rightarrow> telemetry option \<times> sdk \<times> string option" where
  "RegisterDLQSizeCallback t mt k =
     (case t of None \<Rightarrow> (t, k, None)
      | Some tel \<Rightarrow>
          (case meter_RegisterCallback mt (DLQSize tel) of
             Some err \<Rightarrow> (t, k, Some (''register dlq_size callback: '' @ err))
           | None \<Rightarrow> (Some (tel\<lparr>dlqSizeRegistration := Some (sdk_next k)\<rparr>),
                     k\<lparr>sdk_active := sdk_active k @ [sdk_next k], sdk_next := sdk_next k + 1\<rparr>, None)))"

definition Unregister :: "telemetry option \<Rightarrow> sdk \<Rightarrow> sdk" where
  "Unregister t k =
     (case t of None \<Rightarrow> k
      | Some tel \<Rightarrow> (case dlqSizeRegistration tel of None \<Rightarrow> k
                    | Some reg \<Rightarrow> k\<lparr>sdk_active := remove1 reg (sdk_active k)\<rparr>))"

section \<open>Counter values\<close>

text \<open>The value of a counter for given labels is the number of its increments.\<close>

definition counter_value :: "string \<Rightarrow> (string \<times> string) list \<Rightarrow> sdk \<Rightarrow> nat" where
  "counter_value name labels k = length (filter (\<lambda>a. a = CounterAdd name labels) (sdk_adds k))"

lemma counter_value_add [simp]:
  "counter_value name labels (add_one name' labels' k) =
    counter_value name labels k + (if name' = name \<and> labels' = labels then 1 else 0)"
  by (auto simp: counter_value_def add_one_def)

text \<open>The six instruments of a successful construction, which are six different series.\<close>

definition instruments_ok :: "telemetry \<Rightarrow> bool" where
  "instruments_ok tel \<longleftrightarrow> distinct [DLQEnqueuedTotal tel, DLQDroppedTotal tel, DLQFlushedTotal tel,
     CircuitBreakerOpenTotal tel, TriggerFiredTotal tel, DLQSize tel]"

lemma NewTelemetry_ok: "NewTelemetry provider = Inr tel \<Longrightarrow> instruments_ok tel \<and> dlqSizeRegistration tel = None"
  by (auto simp: NewTelemetry_def bind_result_def new_counter_def new_gauge_def instruments_ok_def Let_def
      split: option.splits sum.splits)

lemma register_unregister:
  assumes "RegisterDLQSizeCallback (Some tel) mt k = (t, k', None)" "\<forall>r\<in>set (sdk_active k). r < sdk_next k"
  shows "sdk_active (Unregister t k') = sdk_active k"
  using assms by (auto simp: RegisterDLQSizeCallback_def Unregister_def remove1_append split: option.splits)

end
