(* ===== verification/Trace_Breaker.thy ===== *)
theory Trace_Breaker
  imports Pdata Telemetry
begin

text \<open>
  The cross-batch circuit breaker, \<open>processor/incidentaryprocessor/trace_breaker.go\<close>: a
  count of observed spans per trace id, three tiers, and the pruning of idle entries. The
  clock reading of each operation is an argument.
\<close>

definition CircuitBreakerWarnThreshold :: int where "CircuitBreakerWarnThreshold = 5000"
definition CircuitBreakerTruncateThreshold :: int where "CircuitBreakerTruncateThreshold = 50000"
definition CircuitBreakerHardThreshold :: int where "CircuitBreakerHardThreshold = 500000"

lemmas breaker_thresholds = CircuitBreakerWarnThreshold_def CircuitBreakerTruncateThreshold_def CircuitBreakerHardThreshold_def

datatype trace_tier = tierNone | tierWarn | tierTruncate | tierBreaker

text \<open>The tiers are the constants of an \<open>iota\<close> block and compared as integers.\<close>

fun tier_rank :: "trace_tier \<Rightarrow> nat" where
  "tier_rank tierNone = 0"
| "tier_rank tierWarn = 1"
| "tier_rank tierTruncate = 2"
| "tier_rank tierBreaker = 3"

instantiation trace_tier :: linorder
begin

definition less_eq_trace_tier :: "trace_tier \<Rightarrow> trace_tier \<Rightarrow> bool" where
  "less_eq_trace_tier a b \<longleftrightarrow> tier_rank a \<le> tier_rank b"

definition less_trace_tier :: "trace_tier \<Rightarrow> trace_tier \<Rightarrow> bool" where
  "less_trace_tier a b \<longleftrightarrow> tier_rank a < tier_rank b"

instance
proof
  fix a b :: trace_tier
  show "a \<le> b \<Longrightarrow> b \<le> a \<Longrightarrow> a = b"
    by (cases a; cases b) (simp_all add: less_eq_trace_tier_def)
qed (auto simp: less_eq_trace_tier_def less_trace_tier_def)

end

fun tier_String :: "trace_tier \<Rightarrow> string" where
  "tier_String tierWarn = ''warn''"
| "tier_String tierTruncate = ''truncate''"
| "tier_String tierBreaker = ''breaker''"
| "tier_String tierNone = ''none''"

record trace_counter_entry =
  tc_count :: int
  tc_lastSeen :: time
  tc_highestTier :: trace_tier

record trace_breaker =
  br_per :: "(trace_id, trace_counter_entry) fmap"
  br_ttl :: duration

definition newTraceBreaker :: "duration \<Rightarrow> trace_breaker" where
  "newTraceBreaker ttl = \<lparr>br_per = fmempty, br_ttl = ttl\<rparr>"

definition tierFromCount :: "int \<Rightarrow> trace_tier" where
  "tierFromCount count =
     (if count \<ge> CircuitBreakerHardThreshold then tierBreaker
      else if count \<ge> CircuitBreakerTruncateThreshold then tierTruncate
      else if count \<ge> CircuitBreakerWarnThreshold then tierWarn
      else tierNone)"

definition observe :: "time \<Rightarrow> trace_id \<Rightarrow> trace_breaker \<Rightarrow> trace_breaker \<times> trace_tier" where
  "observe now tid b =
     (let e = (case fmlookup (br_per b) tid of
                 None \<Rightarrow> \<lparr>tc_count = 0, tc_lastSeen = zero_time, tc_highestTier = tierNone\<rparr>
               | Some e \<Rightarrow> e);
          e1 = e\<lparr>tc_count := tc_count e + 1, tc_lastSeen := now\<rparr>;
          tier = tierFromCount (tc_count e1)
      in if tier > tc_highestTier e1
         then (b\<lparr>br_per := fmupd tid (e1\<lparr>tc_highestTier := tier\<rparr>) (br_per b)\<rparr>, tier)
         else (b\<lparr>br_per := fmupd tid e1 (br_per b)\<rparr>, tierNone))"

definition shouldDrop :: "trace_id \<Rightarrow> trace_breaker \<Rightarrow> bool" where
  "shouldDrop tid b = (case fmlookup (br_per b) tid of None \<Rightarrow> False | Some e \<Rightarrow> tc_highestTier e \<ge> tierBreaker)"

definition shouldTruncate :: "trace_id \<Rightarrow> trace_breaker \<Rightarrow> bool" where
  "shouldTruncate tid b = (case fmlookup (br_per b) tid of None \<Rightarrow> False | Some e \<Rightarrow> tc_highestTier e \<ge> tierTruncate)"

definition br_size :: "trace_breaker \<Rightarrow> int" where
  "br_size b = int (fcard (fmdom (br_per b)))"

text \<open>
  \<open>pruneStale\<close> ranges over the map deleting the idle entries; the result does not depend on
  the order in which Go visits them.
\<close>

definition stale_entry :: "time \<Rightarrow> duration \<Rightarrow> trace_counter_entry \<Rightarrow> bool" where
  "stale_entry now ttl e \<longleftrightarrow> time_sub now (tc_lastSeen e) > ttl"

definition br_pruneStale :: "time \<Rightarrow> trace_breaker \<Rightarrow> trace_breaker \<times> int" where
  "br_pruneStale now b =
     (let idle = (\<lambda>tid. case fmlookup (br_per b) tid of None \<Rightarrow> False | Some e \<Rightarrow> stale_entry now (br_ttl b) e)
      in (b\<lparr>br_per := fmfilter (\<lambda>tid. \<not> idle tid) (br_per b)\<rparr>,
          int (fcard (ffilter idle (fmdom (br_per b))))))"

definition recordTraceBreakerTransition :: "telemetry option \<Rightarrow> trace_tier \<Rightarrow> sdk \<Rightarrow> sdk" where
  "recordTraceBreakerTransition t tier k =
     (case tier of tierNone \<Rightarrow> k | _ \<Rightarrow> RecordCircuitBreakerOpen t (tier_String tier) k)"

section \<open>The counter of one trace\<close>

text \<open>
  What the breaker promises for a single trace id: the number of spans observed in its
  current life and the time of the last one. A life ends when a pruning finds it idle for
  longer than the time to live.
\<close>

datatype br_op = BrObserve time trace_id | BrPrune time

fun br_step :: "br_op \<Rightarrow> trace_breaker \<Rightarrow> trace_breaker" where
  "br_step (BrObserve now tid) b = fst (observe now tid b)"
| "br_step (BrPrune now) b = fst (br_pruneStale now b)"

definition br_run :: "br_op list \<Rightarrow> trace_breaker \<Rightarrow> trace_breaker" where
  "br_run ops b = fold br_step ops b"

fun life_step :: "duration \<Rightarrow> trace_id \<Rightarrow> br_op \<Rightarrow> (nat \<times> time) option \<Rightarrow> (nat \<times> time) option" where
  "life_step ttl tid (BrObserve now t) l =
     (if t = tid then Some (case l of None \<Rightarrow> (1, now) | Some (n, seen) \<Rightarrow> (n + 1, now)) else l)"
| "life_step ttl tid (BrPrune now) l =
     (case l of None \<Rightarrow> None | Some (n, seen) \<Rightarrow> if time_sub now seen > ttl then None else Some (n, seen))"

definition life :: "duration \<Rightarrow> trace_id \<Rightarrow> br_op list \<Rightarrow> (nat \<times> time) option" where
  "life ttl tid ops = fold (life_step ttl tid) ops None"

definition entry_of :: "nat \<times> time \<Rightarrow> trace_counter_entry" where
  "entry_of l = \<lparr>tc_count = int (fst l), tc_lastSeen = snd l, tc_highestTier = tierFromCount (int (fst l))\<rparr>"

lemma br_ttl_step [simp]: "br_ttl (br_step oper b) = br_ttl b"
  by (cases oper) (simp_all add: observe_def br_pruneStale_def Let_def)

lemma br_ttl_run [simp]: "br_ttl (br_run ops b) = br_ttl b"
  unfolding br_run_def by (induction ops arbitrary: b) simp_all

lemma tier_le_iff [simp]: "tierNone \<le> t" "tierBreaker \<le> t \<longleftrightarrow> t = tierBreaker"
  by (cases t; simp add: less_eq_trace_tier_def)+

lemma tierFromCount_mono: "m \<le> n \<Longrightarrow> tierFromCount m \<le> tierFromCount n"
  by (auto simp: tierFromCount_def breaker_thresholds less_eq_trace_tier_def)

lemma observe_entry:
  assumes "fmlookup (br_per b) tid = map_option entry_of l"
  shows "fmlookup (br_per (fst (observe now tid b))) tid = map_option entry_of (life_step ttl tid (BrObserve now tid) l)"
    "snd (observe now tid b) =
      (let n = int (case l of None \<Rightarrow> 0 | Some (n, seen) \<Rightarrow> n)
       in if tierFromCount n < tierFromCount (n + 1) then tierFromCount (n + 1) else tierNone)"
proof -
  have mono: "\<not> tierFromCount n < tierFromCount (1 + n) \<Longrightarrow> tierFromCount n = tierFromCount (1 + n)" for n
    using tierFromCount_mono [of n "1 + n"] by simp
  have none: "tierFromCount 0 = tierNone" "tierFromCount 1 = tierNone" by (simp_all add: tierFromCount_def breaker_thresholds)
  show "fmlookup (br_per (fst (observe now tid b))) tid = map_option entry_of (life_step ttl tid (BrObserve now tid) l)"
  proof (cases l)
    case (Some p)
    then show ?thesis using assms mono [of "int (fst p)"]
      by (cases p) (auto simp: observe_def entry_of_def Let_def add.commute)
  qed (use assms none in \<open>simp add: observe_def entry_of_def Let_def\<close>)
  show "snd (observe now tid b) =
      (let n = int (case l of None \<Rightarrow> 0 | Some (n, seen) \<Rightarrow> n)
       in if tierFromCount n < tierFromCount (n + 1) then tierFromCount (n + 1) else tierNone)"
    using assms none by (cases l) (auto simp: observe_def entry_of_def Let_def)
qed

lemma observe_other: "tid \<noteq> t \<Longrightarrow> fmlookup (br_per (fst (observe now t b))) tid = fmlookup (br_per b) tid"
  by (simp add: observe_def Let_def)

lemma br_run_life:
  "fmlookup (br_per (br_run ops (newTraceBreaker ttl))) tid = map_option entry_of (life ttl tid ops)"
proof (induction ops rule: rev_induct)
  case Nil
  then show ?case by (simp add: br_run_def life_def newTraceBreaker_def)
next
  case (snoc oper ops)
  let ?b = "br_run ops (newTraceBreaker ttl)"
  have ttl: "br_ttl ?b = ttl" by (simp add: newTraceBreaker_def)
  have "fmlookup (br_per (br_step oper ?b)) tid = map_option entry_of (life_step ttl tid oper (life ttl tid ops))"
  proof (cases oper)
    case (BrObserve now t)
    then show ?thesis using observe_entry(1) [OF snoc.IH] snoc.IH
      by (cases "t = tid") (auto simp: observe_other)
  next
    case (BrPrune now)
    then show ?thesis using snoc.IH ttl
      by (cases "life ttl tid ops") (auto simp: br_pruneStale_def stale_entry_def entry_of_def Let_def)
  qed
  then show ?case by (simp add: br_run_def life_def)
qed

lemma tier_steps:
  "(if tierFromCount n < tierFromCount (n + 1) then tierFromCount (n + 1) else tierNone) =
    (if n + 1 = 5000 then tierWarn else if n + 1 = 50000 then tierTruncate else if n + 1 = 500000 then tierBreaker else tierNone)"
  by (auto simp: tierFromCount_def breaker_thresholds less_trace_tier_def)

section \<open>Properties\<close>

text \<open>
  C36: per-trace accounting. After any history of observations and prunings over any number of
  trace ids, the entry of a trace is exactly the count of its own observations in its current
  life, the time of the last one and the tier of that count; it does not depend on other
  traces, and there is no entry when the trace was never seen or its life has ended.
\<close>

theorem breaker_counts_lives:
  "fmlookup (br_per (br_run ops (newTraceBreaker ttl))) tid = map_option entry_of (life ttl tid ops)"
  by (rule br_run_life)

text \<open>
  C37: each tier is reported once, at its threshold. Observing a span returns \<open>warn\<close> exactly
  when it is the 5,000th of the trace's current life, \<open>truncate\<close> at the 50,000th, \<open>breaker\<close>
  at the 500,000th, and nothing otherwise, whatever else was observed and pruned before.
\<close>

theorem breaker_transitions:
  "snd (observe now tid (br_run ops (newTraceBreaker ttl))) =
    (let nth = (case life ttl tid (ops @ [BrObserve now tid]) of Some (n, seen) \<Rightarrow> n | None \<Rightarrow> 0)
     in if nth = 5000 then tierWarn else if nth = 50000 then tierTruncate
        else if nth = 500000 then tierBreaker else tierNone)"
proof -
  let ?n = "case life ttl tid ops of None \<Rightarrow> 0 | Some (n, seen) \<Rightarrow> n"
  have "(case life ttl tid (ops @ [BrObserve now tid]) of Some (n, seen) \<Rightarrow> n | None \<Rightarrow> 0) = ?n + 1"
    by (auto simp: life_def split: option.splits)
  then show ?thesis
    using observe_entry(2) [OF br_run_life, of now tid ops ttl] tier_steps [of "int ?n"]
    by (simp add: Let_def)
qed

text \<open>
  C38: the hard breaker. A trace's spans are dropped from evaluation exactly when at least
  500,000 of its spans were observed in its current life, and the truncate test holds exactly
  from 50,000 on, past the hard threshold too, although its comment says \<open>but not yet the
  breaker threshold\<close>; only going idle past the time to live ends either.
\<close>

theorem breaker_drop_iff:
  "(shouldDrop tid (br_run ops (newTraceBreaker ttl)) \<longleftrightarrow>
     (case life ttl tid ops of None \<Rightarrow> False | Some (n, seen) \<Rightarrow> 500000 \<le> n))
   \<and> (shouldTruncate tid (br_run ops (newTraceBreaker ttl)) \<longleftrightarrow>
     (case life ttl tid ops of None \<Rightarrow> False | Some (n, seen) \<Rightarrow> 50000 \<le> n))"
  by (auto simp: shouldDrop_def shouldTruncate_def br_run_life entry_of_def tierFromCount_def breaker_thresholds
      less_eq_trace_tier_def split: option.splits)

text \<open>
  The breaker's memory is reclaimed. Pruning removes exactly the traces idle for longer
  than the time to live, leaves every other entry as it was, and reports how many entries
  went.
\<close>

lemma breaker_prune:
  "fmlookup (br_per (fst (br_pruneStale now b))) tid =
     (case fmlookup (br_per b) tid of None \<Rightarrow> None
      | Some e \<Rightarrow> if time_sub now (tc_lastSeen e) > br_ttl b then None else Some e)
   \<and> br_size (fst (br_pruneStale now b)) = br_size b - snd (br_pruneStale now b)"
proof -
  let ?idle = "\<lambda>tid. case fmlookup (br_per b) tid of None \<Rightarrow> False | Some e \<Rightarrow> stale_entry now (br_ttl b) e"
  have "fset (fmdom (fmfilter (\<lambda>tid. \<not> ?idle tid) (br_per b))) = fset (fmdom (br_per b)) - fset (ffilter ?idle (fmdom (br_per b)))"
    by auto
  then have "fcard (fmdom (fmfilter (\<lambda>tid. \<not> ?idle tid) (br_per b))) = fcard (fmdom (br_per b)) - fcard (ffilter ?idle (fmdom (br_per b)))"
    by (simp add: fcard.rep_eq) (rule card_Diff_subset, auto)
  moreover have "fcard (ffilter ?idle (fmdom (br_per b))) \<le> fcard (fmdom (br_per b))"
    by (simp add: fcard.rep_eq card_mono)
  ultimately have "br_size (fst (br_pruneStale now b)) = br_size b - snd (br_pruneStale now b)"
    by (simp add: br_size_def br_pruneStale_def Let_def)
  then show ?thesis
    by (auto simp: br_pruneStale_def stale_entry_def Let_def split: option.split)
qed

end
