(* ===== verification/Go_Net.thy ===== *)
theory Go_Net
  imports Prelude
begin

unbundle bit_operations_syntax

text \<open>
  The parts of Go's standard library that the configuration check and the forwarder compute
  with: \<open>url.Parse\<close> and \<open>URL.Hostname\<close>, \<open>net.ParseIP\<close> and the address predicates of
  \<open>net.IP\<close>, as of Go 1.25.0, the version \<open>go.mod\<close> names. A \<open>string\<close> is a list of bytes
  (\<open>char\<close> is 8 bits wide), as in Go.

  Of a \<open>url.URL\<close> the octets the Bridge reads are kept, with the user information and the
  opaque part that decide whether parsing succeeds. Error values say which check failed; the
  quoted input in Go's messages is left out.
\<close>

section \<open>Bytes and strings\<close>

definition code :: "char \<Rightarrow> nat" where
  "code c = of_char c"

definition is_digit :: "char \<Rightarrow> bool" where
  "is_digit c \<longleftrightarrow> 48 \<le> code c \<and> code c \<le> 57"

definition is_lower :: "char \<Rightarrow> bool" where
  "is_lower c \<longleftrightarrow> 97 \<le> code c \<and> code c \<le> 122"

definition is_upper :: "char \<Rightarrow> bool" where
  "is_upper c \<longleftrightarrow> 65 \<le> code c \<and> code c \<le> 90"

definition is_alpha :: "char \<Rightarrow> bool" where
  "is_alpha c \<longleftrightarrow> is_lower c \<or> is_upper c"

definition is_hex :: "char \<Rightarrow> bool" where
  "is_hex c \<longleftrightarrow> is_digit c \<or> (97 \<le> code c \<and> code c \<le> 102) \<or> (65 \<le> code c \<and> code c \<le> 70)"

definition unhex :: "char \<Rightarrow> nat" where
  "unhex c = (if is_digit c then code c - 48 else if is_lower c then code c - 87 else code c - 55)"

definition ascii_lower :: "char \<Rightarrow> char" where
  "ascii_lower c = (if is_upper c then char_of (code c + 32) else c)"

text \<open>\<open>strings.Cut\<close>, and the two sides of \<open>strings.LastIndex\<close>.\<close>

definition str_cut :: "char \<Rightarrow> string \<Rightarrow> string \<times> string" where
  "str_cut sep s = (takeWhile (\<lambda>c. c \<noteq> sep) s, tl (dropWhile (\<lambda>c. c \<noteq> sep) s))"

definition split_last :: "char \<Rightarrow> string \<Rightarrow> (string \<times> string) option" where
  "split_last sep s =
     (if sep \<in> set s
      then let after = rev (takeWhile (\<lambda>c. c \<noteq> sep) (rev s))
           in Some (butlast (take (length s - length after) s), after)
      else None)"

fun has_prefix :: "string \<Rightarrow> string \<Rightarrow> bool" where
  "has_prefix s [] = True"
| "has_prefix [] (p # ps) = False"
| "has_prefix (c # s) (p # ps) = (c = p \<and> has_prefix s ps)"

section \<open>URLs\<close>

datatype url_error =
    ErrCtlByte | ErrMissingScheme | ErrFirstSegmentColon | ErrMissingBracket | ErrInvalidPort
  | ErrInvalidUserinfo | ErrEscape | ErrInvalidHost

record go_url =
  u_Scheme :: string
  u_Opaque :: string
  u_User :: "(string \<times> string option) option"
  u_Host :: string
  u_Path :: string
  u_RawQuery :: string
  u_Fragment :: string

definition empty_url :: go_url where
  "empty_url = \<lparr>u_Scheme = [], u_Opaque = [], u_User = None, u_Host = [], u_Path = [], u_RawQuery = [], u_Fragment = []\<rparr>"

datatype encoding = encodePath | encodeHost | encodeZone | encodeUserPassword | encodeFragment

text \<open>\<open>shouldEscape\<close> in the two modes in which \<open>unescape\<close> consults it.\<close>

definition shouldEscape_host :: "char \<Rightarrow> bool" where
  "shouldEscape_host c \<longleftrightarrow> \<not> (is_alpha c \<or> is_digit c \<or>
     c \<in> {CHR ''!'', CHR ''$'', CHR ''&'', CHR 0x27, CHR ''('', CHR '')'', CHR ''*'', CHR ''+'', CHR '','',
          CHR '';'', CHR ''='', CHR '':'', CHR ''['', CHR '']'', CHR ''<'', CHR ''>'', CHR 0x22,
          CHR ''-'', CHR ''_'', CHR ''.'', CHR ''~''})"

definition cons_result :: "char \<Rightarrow> url_error + string \<Rightarrow> url_error + string" where
  "cons_result c r = (case r of Inl err \<Rightarrow> Inl err | Inr s \<Rightarrow> Inr (c # s))"

fun unescape :: "encoding \<Rightarrow> string \<Rightarrow> url_error + string" where
  "unescape mode [] = Inr []"
| "unescape mode (c # s) =
     (if c = CHR 0x25
      then (case s of
              a # b # s' \<Rightarrow>
                if \<not> is_hex a \<or> \<not> is_hex b then Inl ErrEscape
                else if mode = encodeHost \<and> unhex a < 8 \<and> \<not> (a = CHR ''2'' \<and> b = CHR ''5'') then Inl ErrEscape
                else
                  let v = char_of (16 * unhex a + unhex b) in
                  if mode = encodeZone \<and> \<not> (a = CHR ''2'' \<and> b = CHR ''5'') \<and> v \<noteq> CHR 0x20 \<and> shouldEscape_host v
                  then Inl ErrEscape
                  else cons_result v (unescape mode s')
            | _ \<Rightarrow> Inl ErrEscape)
      else if (mode = encodeHost \<or> mode = encodeZone) \<and> code c < 128 \<and> shouldEscape_host c then Inl ErrInvalidHost
      else cons_result c (unescape mode s))"

text \<open>\<open>getScheme\<close> with the index \<open>i\<close> of the loop kept as the bytes already seen.\<close>

fun getScheme_loop :: "string \<Rightarrow> string \<Rightarrow> url_error + (string \<times> string)" where
  "getScheme_loop seen [] = Inr ([], seen)"
| "getScheme_loop seen (c # s) =
     (if is_alpha c then getScheme_loop (seen @ [c]) s
      else if is_digit c \<or> c = CHR ''+'' \<or> c = CHR ''-'' \<or> c = CHR ''.''
      then (if seen = [] then Inr ([], c # s) else getScheme_loop (seen @ [c]) s)
      else if c = CHR '':''
      then (if seen = [] then Inl ErrMissingScheme else Inr (seen, s))
      else Inr ([], seen @ c # s))"

definition getScheme :: "string \<Rightarrow> url_error + (string \<times> string)" where
  "getScheme rawURL = getScheme_loop [] rawURL"

definition validOptionalPort :: "string \<Rightarrow> bool" where
  "validOptionalPort port = (case port of [] \<Rightarrow> True | c # cs \<Rightarrow> c = CHR '':'' \<and> list_all is_digit cs)"

definition validUserinfo :: "string \<Rightarrow> bool" where
  "validUserinfo s = list_all (\<lambda>c. is_alpha c \<or> is_digit c \<or>
     c \<in> {CHR ''-'', CHR ''.'', CHR ''_'', CHR '':'', CHR ''~'', CHR ''!'', CHR ''$'', CHR ''&'', CHR 0x27,
          CHR ''('', CHR '')'', CHR ''*'', CHR ''+'', CHR '','', CHR '';'', CHR ''='', CHR 0x25, CHR ''@''}) s"

text \<open>The text before the first \<open>%25\<close>, and the rest from there on.\<close>

fun split_zone :: "string \<Rightarrow> (string \<times> string) option" where
  "split_zone [] = None"
| "split_zone (c # s) =
     (if has_prefix (c # s) [CHR 0x25, CHR ''2'', CHR ''5''] then Some ([], c # s)
      else (case split_zone s of None \<Rightarrow> None | Some (a, b) \<Rightarrow> Some (c # a, b)))"

definition parseHost :: "string \<Rightarrow> url_error + string" where
  "parseHost host =
     (if has_prefix host [CHR ''['']
      then (case split_last (CHR '']'') host of
              None \<Rightarrow> Inl ErrMissingBracket
            | Some (front, colonPort) \<Rightarrow>
                if \<not> validOptionalPort colonPort then Inl ErrInvalidPort
                else (case split_zone front of
                        None \<Rightarrow> unescape encodeHost host
                      | Some (h1, z) \<Rightarrow>
                          (case (unescape encodeHost h1, unescape encodeZone z, unescape encodeHost (CHR '']'' # colonPort)) of
                             (Inr host1, Inr host2, Inr host3) \<Rightarrow> Inr (host1 @ host2 @ host3)
                           | (Inl err, _, _) \<Rightarrow> Inl err
                           | (_, Inl err, _) \<Rightarrow> Inl err
                           | (_, _, Inl err) \<Rightarrow> Inl err)))
      else (case split_last (CHR '':'') host of
              Some (front, port) \<Rightarrow>
                if \<not> validOptionalPort (CHR '':'' # port) then Inl ErrInvalidPort else unescape encodeHost host
            | None \<Rightarrow> unescape encodeHost host))"

definition parseAuthority :: "string \<Rightarrow> url_error + ((string \<times> string option) option \<times> string)" where
  "parseAuthority authority =
     (case split_last (CHR ''@'') authority of
        None \<Rightarrow> (case parseHost authority of Inl err \<Rightarrow> Inl err | Inr host \<Rightarrow> Inr (None, host))
      | Some (userinfo, rest) \<Rightarrow>
          (case parseHost rest of
             Inl err \<Rightarrow> Inl err
           | Inr host \<Rightarrow>
               if \<not> validUserinfo userinfo then Inl ErrInvalidUserinfo
               else if CHR '':'' \<notin> set userinfo
               then (case unescape encodeUserPassword userinfo of
                       Inl err \<Rightarrow> Inl err | Inr name \<Rightarrow> Inr (Some (name, None), host))
               else (let (name, pw) = str_cut (CHR '':'') userinfo
                     in (case unescape encodeUserPassword name of
                           Inl err \<Rightarrow> Inl err
                         | Inr name' \<Rightarrow> (case unescape encodeUserPassword pw of
                                          Inl err \<Rightarrow> Inl err
                                        | Inr pw' \<Rightarrow> Inr (Some (name', Some pw'), host))))))"

definition contains_ctl :: "string \<Rightarrow> bool" where
  "contains_ctl s = list_ex (\<lambda>c. code c < 32 \<or> code c = 127) s"

definition setPath :: "string \<Rightarrow> go_url \<Rightarrow> url_error + go_url" where
  "setPath rest u = (case unescape encodePath rest of Inl err \<Rightarrow> Inl err | Inr p \<Rightarrow> Inr (u\<lparr>u_Path := p\<rparr>))"

definition url_parse_nofrag :: "string \<Rightarrow> url_error + go_url" where
  "url_parse_nofrag rawURL =
     (if contains_ctl rawURL then Inl ErrCtlByte
      else if rawURL = ''*'' then Inr (empty_url\<lparr>u_Path := ''*''\<rparr>)
      else
        (case getScheme rawURL of
           Inl err \<Rightarrow> Inl err
         | Inr (sch, rest0) \<Rightarrow>
             let scheme = map ascii_lower sch;
                 (rest, query) =
                   (if rest0 \<noteq> [] \<and> List.last rest0 = CHR ''?'' \<and> count_list rest0 (CHR ''?'') = 1
                    then (butlast rest0, []) else str_cut (CHR ''?'') rest0);
                 u = empty_url\<lparr>u_Scheme := scheme, u_RawQuery := query\<rparr>
             in if \<not> has_prefix rest ''/'' \<and> scheme \<noteq> [] then Inr (u\<lparr>u_Opaque := rest\<rparr>)
                else if \<not> has_prefix rest ''/'' \<and> CHR '':'' \<in> set (fst (str_cut (CHR ''/'') rest)) then Inl ErrFirstSegmentColon
                else if (scheme \<noteq> [] \<or> \<not> has_prefix rest ''///'') \<and> has_prefix rest ''//''
                then (let authority = takeWhile (\<lambda>c. c \<noteq> CHR ''/'') (drop 2 rest);
                          path = dropWhile (\<lambda>c. c \<noteq> CHR ''/'') (drop 2 rest)
                      in (case parseAuthority authority of
                            Inl err \<Rightarrow> Inl err
                          | Inr (user, host) \<Rightarrow> setPath path (u\<lparr>u_User := user, u_Host := host\<rparr>)))
                else setPath rest u))"

definition url_Parse :: "string \<Rightarrow> url_error + go_url" where
  "url_Parse rawURL =
     (let (u, frag) = str_cut (CHR ''#'') rawURL
      in (case url_parse_nofrag u of
            Inl err \<Rightarrow> Inl err
          | Inr url \<Rightarrow>
              if frag = [] then Inr url
              else (case unescape encodeFragment frag of
                      Inl err \<Rightarrow> Inl err | Inr f \<Rightarrow> Inr (url\<lparr>u_Fragment := f\<rparr>))))"

text \<open>\<open>URL.Hostname\<close>: the host without a port and without the brackets of an IPv6 literal.\<close>

definition url_Hostname :: "go_url \<Rightarrow> string" where
  "url_Hostname u =
     (let host = (case split_last (CHR '':'') (u_Host u) of
                    Some (front, port) \<Rightarrow> if validOptionalPort (CHR '':'' # port) then front else u_Host u
                  | None \<Rightarrow> u_Host u)
      in if has_prefix host ''['' \<and> host \<noteq> [] \<and> List.last host = CHR '']'' then butlast (tl host) else host)"

section \<open>IP addresses\<close>

text \<open>A \<open>net.IP\<close> as \<open>ParseIP\<close> returns it: sixteen bytes, an IPv4 address in its mapped form.\<close>

type_synonym ip = "byte list"

definition v4_prefix :: ip where
  "v4_prefix = replicate 10 0 @ [255, 255]"

text \<open>
  The loop of \<open>parseIPv4Fields\<close>: the value and the digit count of the current octet,
  whether a dot (or the start) was just read, the octets so far.
\<close>

fun ipv4_loop :: "nat \<Rightarrow> nat \<Rightarrow> bool \<Rightarrow> byte list \<Rightarrow> string \<Rightarrow> byte list option" where
  "ipv4_loop v digLen dot octets [] = (if length octets < 3 then None else Some (octets @ [of_nat v]))"
| "ipv4_loop v digLen dot octets (c # s) =
     (if is_digit c
      then (if digLen = 1 \<and> v = 0 then None
            else let v' = v * 10 + (code c - 48)
                 in if v' > 255 then None else ipv4_loop v' (digLen + 1) False octets s)
      else if c = CHR ''.''
      then (if dot \<or> s = [] then None
            else if length octets = 3 then None
            else ipv4_loop 0 0 True (octets @ [of_nat v]) s)
      else None)"

definition parseIPv4Fields :: "string \<Rightarrow> byte list option" where
  "parseIPv4Fields s = ipv4_loop 0 0 True [] s"

fun hex_value :: "nat \<Rightarrow> string \<Rightarrow> nat" where
  "hex_value acc [] = acc"
| "hex_value acc (c # s) = hex_value (16 * acc + unhex c) s"

text \<open>
  One iteration of the loop of \<open>parseIPv6\<close>: it returns an error, breaks, or goes on. Its
  state is the bytes so far, the position of the ellipsis and the unread text.
\<close>

datatype group_step = GroupFail | GroupBreak "byte list" "nat option" string | GroupNext "byte list" "nat option" string

definition ipv6_group :: "byte list \<Rightarrow> nat option \<Rightarrow> string \<Rightarrow> group_step" where
  "ipv6_group bs ell s =
     (let digs = takeWhile is_hex s; rest = dropWhile is_hex s;
          bs' = bs @ [of_nat (hex_value 0 digs div 256), of_nat (hex_value 0 digs mod 256)]
      in if length digs > 4 \<or> digs = [] then GroupFail
         else
           (case rest of
              [] \<Rightarrow> GroupBreak bs' ell []
            | c # r \<Rightarrow>
                if c = CHR ''.''
                then (if ell = None \<and> length bs \<noteq> 12 then GroupFail
                      else if length bs + 4 > 16 then GroupFail
                      else (case parseIPv4Fields s of None \<Rightarrow> GroupFail | Some f \<Rightarrow> GroupBreak (bs @ f) ell []))
                else if c \<noteq> CHR '':'' then GroupFail
                else
                  (case r of
                     [] \<Rightarrow> GroupFail
                   | c2 # r2 \<Rightarrow>
                       if c2 \<noteq> CHR '':'' then GroupNext bs' ell r
                       else if ell \<noteq> None then GroupFail
                       else if r2 = [] then GroupBreak bs' (Some (length bs')) []
                       else GroupNext bs' (Some (length bs')) r2)))"

text \<open>The loop \<open>for i < 16\<close>; each iteration fills two bytes, so eight iterations are left at most.\<close>

fun ipv6_loop :: "nat \<Rightarrow> byte list \<Rightarrow> nat option \<Rightarrow> string \<Rightarrow> (byte list \<times> nat option \<times> string) option" where
  "ipv6_loop 0 bs ell s = Some (bs, ell, s)"
| "ipv6_loop (Suc n) bs ell s =
     (case ipv6_group bs ell s of
        GroupFail \<Rightarrow> None
      | GroupBreak bs' ell' rest \<Rightarrow> Some (bs', ell', rest)
      | GroupNext bs' ell' rest \<Rightarrow> ipv6_loop n bs' ell' rest)"

text \<open>After the loop: nothing left to read, and an ellipsis exactly when bytes are missing.\<close>

definition ipv6_finish :: "byte list \<times> nat option \<times> string \<Rightarrow> byte list option" where
  "ipv6_finish r =
     (let (bs, ell, rest) = r
      in if rest \<noteq> [] then None
         else if length bs < 16
         then (case ell of None \<Rightarrow> None
               | Some e \<Rightarrow> Some (take e bs @ replicate (16 - length bs) 0 @ drop e bs))
         else if ell \<noteq> None then None else Some bs)"

definition parseIPv6 :: "string \<Rightarrow> byte list option" where
  "parseIPv6 s =
     (if has_prefix s ''::''
      then (if drop 2 s = [] then Some (replicate 16 0)
            else Option.bind (ipv6_loop 8 [] (Some 0) (drop 2 s)) ipv6_finish)
      else Option.bind (ipv6_loop 8 [] None s) ipv6_finish)"

text \<open>A zone makes \<open>ParseIP\<close> fail, so every text with a percent sign does.\<close>

definition ParseIP :: "string \<Rightarrow> ip option" where
  "ParseIP s =
     (case List.find (\<lambda>c. c = CHR ''.'' \<or> c = CHR '':'' \<or> c = CHR 0x25) s of
        None \<Rightarrow> None
      | Some c \<Rightarrow>
          if c = CHR ''.'' then map_option (\<lambda>f. v4_prefix @ f) (parseIPv4Fields s)
          else if c = CHR '':'' \<and> CHR 0x25 \<notin> set s then parseIPv6 s
          else None)"

definition To4 :: "ip \<Rightarrow> byte list option" where
  "To4 ip = (if length ip = 4 then Some ip
             else if length ip = 16 \<and> take 12 ip = v4_prefix then Some (drop 12 ip) else None)"

definition IsLoopback :: "ip \<Rightarrow> bool" where
  "IsLoopback ip = (case To4 ip of Some ip4 \<Rightarrow> ip4 ! 0 = 127 | None \<Rightarrow> ip = replicate 15 0 @ [1])"

definition IsLinkLocalUnicast :: "ip \<Rightarrow> bool" where
  "IsLinkLocalUnicast ip =
     (case To4 ip of Some ip4 \<Rightarrow> ip4 ! 0 = 169 \<and> ip4 ! 1 = 254
      | None \<Rightarrow> length ip = 16 \<and> ip ! 0 = 254 \<and> ip ! 1 AND 192 = 128)"

definition IsLinkLocalMulticast :: "ip \<Rightarrow> bool" where
  "IsLinkLocalMulticast ip =
     (case To4 ip of Some ip4 \<Rightarrow> ip4 ! 0 = 224 \<and> ip4 ! 1 = 0 \<and> ip4 ! 2 = 0
      | None \<Rightarrow> length ip = 16 \<and> ip ! 0 = 255 \<and> ip ! 1 AND 15 = 2)"

definition IsPrivate :: "ip \<Rightarrow> bool" where
  "IsPrivate ip =
     (case To4 ip of Some ip4 \<Rightarrow> ip4 ! 0 = 10 \<or> (ip4 ! 0 = 172 \<and> ip4 ! 1 AND 240 = 16) \<or> (ip4 ! 0 = 192 \<and> ip4 ! 1 = 168)
      | None \<Rightarrow> length ip = 16 \<and> ip ! 0 AND 254 = 252)"

definition IsUnspecified :: "ip \<Rightarrow> bool" where
  "IsUnspecified ip = (case To4 ip of Some ip4 \<Rightarrow> ip4 = [0, 0, 0, 0] | None \<Rightarrow> ip = replicate 16 0)"

definition IsMulticast :: "ip \<Rightarrow> bool" where
  "IsMulticast ip = (case To4 ip of Some ip4 \<Rightarrow> ip4 ! 0 AND 240 = 224 | None \<Rightarrow> length ip = 16 \<and> ip ! 0 = 255)"

section \<open>Shape of the results\<close>

lemma ipv4_loop_length: "length octets \<le> 3 \<Longrightarrow> ipv4_loop v d dot octets s = Some bs \<Longrightarrow> length bs = 4"
  by (induction v d dot octets s rule: ipv4_loop.induct) (auto simp: Let_def split: if_splits)

lemma parseIPv4_length: "parseIPv4Fields s = Some bs \<Longrightarrow> length bs = 4"
  unfolding parseIPv4Fields_def by (rule ipv4_loop_length [of "[]"]) simp

definition ell_ok :: "nat option \<Rightarrow> byte list \<Rightarrow> bool" where
  "ell_ok ell bs = (case ell of Some e \<Rightarrow> e \<le> length bs | None \<Rightarrow> True)"

lemma ell_ok_append: "ell_ok ell bs \<Longrightarrow> ell_ok ell (bs @ cs)"
  by (simp add: ell_ok_def split: option.splits)

lemma ipv6_group_break:
  "ipv6_group bs ell s = GroupBreak bs' ell' rest \<Longrightarrow> length bs \<le> 14 \<Longrightarrow> ell_ok ell bs \<Longrightarrow>
   length bs' \<le> 16 \<and> ell_ok ell' bs'"
  unfolding ipv6_group_def Let_def
  by (auto simp: ell_ok_append parseIPv4_length split: if_splits option.splits list.splits) (simp_all add: ell_ok_def)

lemma ipv6_group_next:
  "ipv6_group bs ell s = GroupNext bs' ell' rest \<Longrightarrow> ell_ok ell bs \<Longrightarrow>
   length bs' = length bs + 2 \<and> ell_ok ell' bs'"
  unfolding ipv6_group_def Let_def
  by (auto simp: ell_ok_append split: if_splits option.splits list.splits) (simp_all add: ell_ok_def)

lemma ipv6_loop_length:
  "length bs + 2 * n = 16 \<Longrightarrow> ell_ok ell bs \<Longrightarrow> ipv6_loop n bs ell s = Some (bs', ell', rest) \<Longrightarrow>
   length bs' \<le> 16 \<and> ell_ok ell' bs'"
proof (induction n bs ell s rule: ipv6_loop.induct)
  case (2 n bs ell s)
  show ?case
  proof (cases "ipv6_group bs ell s")
    case (GroupBreak b e r)
    then show ?thesis using 2 ipv6_group_break [OF GroupBreak] by simp
  next
    case (GroupNext b e r)
    then show ?thesis using 2 ipv6_group_next [OF GroupNext] by simp
  qed (use 2 in simp)
qed simp

lemma ipv6_finish_length:
  "length bs \<le> 16 \<Longrightarrow> ell_ok ell bs \<Longrightarrow> ipv6_finish (bs, ell, rest) = Some r \<Longrightarrow> length r = 16"
  by (auto simp: ipv6_finish_def ell_ok_def split: if_splits option.splits)

lemma ipv6_bind_length:
  assumes "Option.bind (ipv6_loop 8 [] ell s) ipv6_finish = Some r" "ell_ok ell []"
  shows "length r = 16"
proof -
  obtain bs ell' rest where l: "ipv6_loop 8 [] ell s = Some (bs, ell', rest)" and f: "ipv6_finish (bs, ell', rest) = Some r"
    using assms(1) by (auto simp: bind_eq_Some_conv)
  have "length bs \<le> 16 \<and> ell_ok ell' bs" using ipv6_loop_length [OF _ assms(2) l] by simp
  then show ?thesis using ipv6_finish_length [OF _ _ f] by blast
qed

lemma parseIPv6_length: "parseIPv6 s = Some bs \<Longrightarrow> length bs = 16"
  by (auto simp: parseIPv6_def ell_ok_def intro: ipv6_bind_length split: if_splits)

lemma ParseIP_length: "ParseIP s = Some ip \<Longrightarrow> length ip = 16"
  by (auto simp: ParseIP_def v4_prefix_def parseIPv4_length parseIPv6_length split: option.splits if_splits)

end
