(* ===== verification/Config.thy ===== *)
theory Config
  imports Go_Net Triggers
begin

unbundle bit_operations_syntax

text \<open>
  The configuration of the processor and its validation,
  \<open>processor/incidentaryprocessor/config.go\<close>. The name server behind \<open>net.LookupHost\<close> is the
  parameter \<open>lookup\<close>: \<open>None\<close> is a failed lookup, \<open>Some\<close> the addresses it answers. An error is
  a constructor that says which check failed, with the values its message prints.
\<close>

section \<open>Configuration\<close>

record error_rate_config =
  er_High :: float64
  er_Low :: float64

record slow_success_config =
  ss_High :: float64
  ss_Mild :: float64

record retry_rate_config =
  rr_High :: float64
  rr_Mild :: float64

record in_flight_config =
  if_MinAbsoluteInFlight :: int
  if_BaselineMultiplier :: float64
  if_NetGrowthMin :: int
  if_SevereHoldSecs :: int
  if_MildHoldSecs :: int

record triggers_config =
  tg_ErrorRate5xx :: error_rate_config
  tg_SlowSuccessRate :: slow_success_config
  tg_RetryRate :: retry_rate_config
  tg_InFlightPileup :: in_flight_config

record forward_section =
  fw_IncidentaryEndpoint :: string
  fw_IncidentaryToken :: string
  fw_PassThrough :: bool
  fw_Timeout :: duration
  fw_AllowInsecure :: bool

record config =
  c_PreAlertWindow :: duration
  c_MaxBufferSize :: int
  c_Triggers :: triggers_config
  c_ExtraFlushConditions :: "string list"
  c_Forward :: forward_section
  c_Routing :: "string list"
  c_PersistPath :: string

definition DefaultPreAlertWindow :: duration where "DefaultPreAlertWindow = 5 * minute"
definition DefaultMaxBufferSize :: int where "DefaultMaxBufferSize = 50000"
definition DefaultForwardEndpoint :: string where
  "DefaultForwardEndpoint = ''https://api.incidentary.com/api/v1/otlp/v1/traces''"
definition DefaultForwardTimeout :: duration where "DefaultForwardTimeout = 30 * second"

definition DefaultConfig :: config where
  "DefaultConfig = \<lparr>
     c_PreAlertWindow = DefaultPreAlertWindow, c_MaxBufferSize = DefaultMaxBufferSize,
     c_Triggers = \<lparr>
       tg_ErrorRate5xx = \<lparr>er_High = f64 (10 / 100), er_Low = f64 (2 / 100)\<rparr>,
       tg_SlowSuccessRate = \<lparr>ss_High = f64 (20 / 100), ss_Mild = f64 (10 / 100)\<rparr>,
       tg_RetryRate = \<lparr>rr_High = f64 (10 / 100), rr_Mild = f64 (5 / 100)\<rparr>,
       tg_InFlightPileup = \<lparr>if_MinAbsoluteInFlight = 16, if_BaselineMultiplier = f64 3, if_NetGrowthMin = 8,
         if_SevereHoldSecs = 6, if_MildHoldSecs = 3\<rparr>\<rparr>,
     c_ExtraFlushConditions = [],
     c_Forward = \<lparr>fw_IncidentaryEndpoint = DefaultForwardEndpoint, fw_IncidentaryToken = [], fw_PassThrough = True,
       fw_Timeout = DefaultForwardTimeout, fw_AllowInsecure = False\<rparr>,
     c_Routing = [], c_PersistPath = []\<rparr>"

section \<open>Addresses the forwarder must not reach\<close>

definition blockedIPReason :: "ip \<Rightarrow> string \<times> bool" where
  "blockedIPReason ip =
     (if IsLoopback ip then (''a loopback address'', True)
      else if IsLinkLocalUnicast ip \<or> IsLinkLocalMulticast ip then (''a link-local address'', True)
      else if IsPrivate ip then (''a private (RFC1918/ULA) address'', True)
      else if IsUnspecified ip then (''the unspecified address'', True)
      else if IsMulticast ip then (''a multicast address'', True)
      else ([], False))"

text \<open>The loop over the addresses of a host name.\<close>

fun blocked_addrs :: "string list \<Rightarrow> string \<times> bool" where
  "blocked_addrs [] = ([], False)"
| "blocked_addrs (addr # addrs) =
     (case ParseIP addr of
        Some ip \<Rightarrow> if snd (blockedIPReason ip) then (fst (blockedIPReason ip), True) else blocked_addrs addrs
      | None \<Rightarrow> blocked_addrs addrs)"

definition isBlockedHost :: "(string \<Rightarrow> string list option) \<Rightarrow> string \<Rightarrow> string \<times> bool" where
  "isBlockedHost lookup host =
     (case ParseIP host of
        Some ip \<Rightarrow> blockedIPReason ip
      | None \<Rightarrow>
          if host = ''localhost'' then (''loopback (localhost)'', True)
          else (case lookup host of None \<Rightarrow> ([], False) | Some addrs \<Rightarrow> blocked_addrs addrs))"

datatype endpoint_error =
    EndpointUnparsable url_error | EndpointScheme string | EndpointInsecure string | EndpointNoHost
  | EndpointBlocked string string

definition validateForwardEndpoint :: "(string \<Rightarrow> string list option) \<Rightarrow> string \<Rightarrow> bool \<Rightarrow> endpoint_error option" where
  "validateForwardEndpoint lookup raw allowInsecure =
     (case url_Parse raw of
        Inl err \<Rightarrow> Some (EndpointUnparsable err)
      | Inr u \<Rightarrow>
          if u_Scheme u \<noteq> ''https'' \<and> u_Scheme u \<noteq> ''http'' then Some (EndpointScheme (u_Scheme u))
          else if u_Scheme u = ''http'' \<and> \<not> allowInsecure then Some (EndpointInsecure (u_Scheme u))
          else
            let host = url_Hostname u in
            if host = [] then Some EndpointNoHost
            else if \<not> allowInsecure \<and> snd (isBlockedHost lookup host)
            then Some (EndpointBlocked host (fst (isBlockedHost lookup host)))
            else None)"

section \<open>Validation\<close>

datatype rate_error = RateHigh float64 | RateLow float64

text \<open>The three rate sections; \<open>Fin 0\<close> and \<open>Fin 1\<close> are the constants 0 and 1.\<close>

definition er_validate :: "error_rate_config \<Rightarrow> rate_error option" where
  "er_validate e =
     (if f_le (er_High e) (Fin 0) \<or> f_lt (Fin 1) (er_High e) then Some (RateHigh (er_High e))
      else if f_le (er_Low e) (Fin 0) \<or> f_lt (er_High e) (er_Low e) then Some (RateLow (er_Low e))
      else None)"

definition ss_validate :: "slow_success_config \<Rightarrow> rate_error option" where
  "ss_validate s =
     (if f_le (ss_High s) (Fin 0) \<or> f_lt (Fin 1) (ss_High s) then Some (RateHigh (ss_High s))
      else if f_le (ss_Mild s) (Fin 0) \<or> f_lt (ss_High s) (ss_Mild s) then Some (RateLow (ss_Mild s))
      else None)"

definition rr_validate :: "retry_rate_config \<Rightarrow> rate_error option" where
  "rr_validate r =
     (if f_le (rr_High r) (Fin 0) \<or> f_lt (Fin 1) (rr_High r) then Some (RateHigh (rr_High r))
      else if f_le (rr_Mild r) (Fin 0) \<or> f_lt (rr_High r) (rr_Mild r) then Some (RateLow (rr_Mild r))
      else None)"

datatype in_flight_error = InFlightMinAbsoluteErr | InFlightMultiplierErr | InFlightNetGrowthErr | InFlightHoldErr

definition if_validate :: "in_flight_config \<Rightarrow> in_flight_error option" where
  "if_validate i =
     (if if_MinAbsoluteInFlight i \<le> 0 then Some InFlightMinAbsoluteErr
      else if f_le (if_BaselineMultiplier i) (Fin 0) then Some InFlightMultiplierErr
      else if if_NetGrowthMin i < 0 then Some InFlightNetGrowthErr
      else if if_SevereHoldSecs i < if_MildHoldSecs i then Some InFlightHoldErr
      else None)"

datatype config_error =
    ErrPreAlertWindow | ErrMaxBufferSize | ErrEndpointUnset | ErrEndpoint endpoint_error | ErrTimeout
  | ErrErrorRate5xx rate_error | ErrSlowSuccessRate rate_error | ErrRetryRate rate_error
  | ErrInFlightPileup in_flight_error

definition Validate :: "(string \<Rightarrow> string list option) \<Rightarrow> config \<Rightarrow> config_error option" where
  "Validate lookup c =
     (if c_PreAlertWindow c \<le> 0 then Some ErrPreAlertWindow
      else if c_MaxBufferSize c \<le> 0 then Some ErrMaxBufferSize
      else if fw_IncidentaryEndpoint (c_Forward c) = [] then Some ErrEndpointUnset
      else (case validateForwardEndpoint lookup (fw_IncidentaryEndpoint (c_Forward c)) (fw_AllowInsecure (c_Forward c)) of
              Some err \<Rightarrow> Some (ErrEndpoint err)
            | None \<Rightarrow>
      if fw_Timeout (c_Forward c) < 0 then Some ErrTimeout
      else (case er_validate (tg_ErrorRate5xx (c_Triggers c)) of
              Some err \<Rightarrow> Some (ErrErrorRate5xx err)
            | None \<Rightarrow>
           (case ss_validate (tg_SlowSuccessRate (c_Triggers c)) of
              Some err \<Rightarrow> Some (ErrSlowSuccessRate err)
            | None \<Rightarrow>
           (case rr_validate (tg_RetryRate (c_Triggers c)) of
              Some err \<Rightarrow> Some (ErrRetryRate err)
            | None \<Rightarrow>
           (case if_validate (tg_InFlightPileup (c_Triggers c)) of
              Some err \<Rightarrow> Some (ErrInFlightPileup err)
            | None \<Rightarrow> None))))))"

section \<open>Address blocks\<close>

text \<open>
  The blocks that must be refused, as network prefixes: an address of sixteen bytes is in a
  block when its leading bits agree. IPv4 blocks are written over the mapped form.
\<close>

definition byte_bits :: "byte \<Rightarrow> bool list" where
  "byte_bits b = [bit b 7, bit b 6, bit b 5, bit b 4, bit b 3, bit b 2, bit b 1, bit b 0]"

definition ip_bits :: "ip \<Rightarrow> bool list" where
  "ip_bits ip = concat (map byte_bits ip)"

definition in_block :: "ip \<Rightarrow> nat \<Rightarrow> ip \<Rightarrow> bool" where
  "in_block net len ip \<longleftrightarrow> take len (ip_bits ip) = take len (ip_bits net)"

definition v4_block :: "byte list \<Rightarrow> nat \<Rightarrow> ip \<times> nat" where
  "v4_block octets len = (v4_prefix @ octets, 96 + len)"

definition v6_block :: "byte list \<Rightarrow> nat \<Rightarrow> ip \<times> nat" where
  "v6_block bs len = (bs @ replicate (16 - length bs) 0, len)"

definition forbidden_blocks :: "(ip \<times> nat) list" where
  "forbidden_blocks =
     [v4_block [127, 0, 0, 0] 8, v4_block [169, 254, 0, 0] 16, v4_block [10, 0, 0, 0] 8, v4_block [172, 16, 0, 0] 12,
      v4_block [192, 168, 0, 0] 16, v4_block [0, 0, 0, 0] 32, v4_block [224, 0, 0, 0] 4,
      v6_block (replicate 15 0 @ [1]) 128, v6_block [254, 128] 10, v6_block [252] 7, v6_block [] 128, v6_block [255] 8]"

definition public_ip :: "ip \<Rightarrow> bool" where
  "public_ip ip \<longleftrightarrow> (\<forall>(net, len)\<in>set forbidden_blocks. \<not> in_block net len ip)"

lemma less_8: "n < (8::nat) \<longleftrightarrow> n = 0 \<or> n = 1 \<or> n = 2 \<or> n = 3 \<or> n = 4 \<or> n = 5 \<or> n = 6 \<or> n = 7"
  by auto

lemma byte_eq_bits: "(a::byte) = b \<longleftrightarrow> bit a 7 = bit b 7 \<and> bit a 6 = bit b 6 \<and> bit a 5 = bit b 5 \<and> bit a 4 = bit b 4
   \<and> bit a 3 = bit b 3 \<and> bit a 2 = bit b 2 \<and> bit a 1 = bit b 1 \<and> bit a 0 = bit b 0"
proof
  assume r: "bit a 7 = bit b 7 \<and> bit a 6 = bit b 6 \<and> bit a 5 = bit b 5 \<and> bit a 4 = bit b 4
   \<and> bit a 3 = bit b 3 \<and> bit a 2 = bit b 2 \<and> bit a 1 = bit b 1 \<and> bit a 0 = bit b 0"
  show "a = b"
  proof (rule bit_word_eqI)
    fix n assume "n < LENGTH(8)"
    then have "n < 8" by simp
    with r show "bit a n = bit b n" unfolding less_8 by blast
  qed
qed simp

lemma byte_bits_inj: "byte_bits a = byte_bits b \<longleftrightarrow> a = b"
  unfolding byte_bits_def byte_eq_bits [of a b] by (simp only: list.inject) blast

lemma byte_bits_mask:
  "take 4 (byte_bits a) = take 4 (byte_bits 16) \<longleftrightarrow> a AND 240 = 16"
  "take 4 (byte_bits a) = take 4 (byte_bits 224) \<longleftrightarrow> a AND 240 = 224"
  "take 2 (byte_bits a) = take 2 (byte_bits 128) \<longleftrightarrow> a AND 192 = 128"
  "take 7 (byte_bits a) = take 7 (byte_bits 252) \<longleftrightarrow> a AND 254 = 252"
  by (subst byte_eq_bits, simp add: byte_bits_def bit_and_iff, blast?)+

lemma length_byte_bits [simp]: "length (byte_bits b) = 8"
  by (simp add: byte_bits_def)

lemma ip_bits_simps [simp]: "ip_bits [] = []" "ip_bits (b # bs) = byte_bits b @ ip_bits bs"
  by (simp_all add: ip_bits_def)

lemma length_ip_bits [simp]: "length (ip_bits bs) = 8 * length bs"
  by (induction bs) simp_all

lemma byte_bits_nonempty [simp]: "byte_bits b \<noteq> []"
  by (simp add: byte_bits_def)

lemma ip_bits_inj: "ip_bits as = ip_bits bs \<longleftrightarrow> as = bs"
proof (induction as arbitrary: bs)
  case Nil
  then show ?case by (cases bs) simp_all
next
  case (Cons a as)
  then show ?case by (cases bs) (simp_all add: byte_bits_inj append_eq_append_conv)
qed

lemma take_ip_bits: "k < length bs \<Longrightarrow> r \<le> 8 \<Longrightarrow> take (8 * k + r) (ip_bits bs) = ip_bits (take k bs) @ take r (byte_bits (bs ! k))"
proof (induction bs arbitrary: k)
  case (Cons b bs)
  then show ?case by (cases k) (simp_all)
qed simp

lemma in_block_split:
  assumes "length ip = 16" "length net = 16" "k < 16" "r \<le> 8"
  shows "in_block net (8 * k + r) ip \<longleftrightarrow> take k ip = take k net \<and> take r (byte_bits (ip ! k)) = take r (byte_bits (net ! k))"
  using assms by (simp add: in_block_def take_ip_bits ip_bits_inj append_eq_append_conv)

lemma in_block_bytes:
  assumes "length ip = 16" "length net = 16" "k < 16"
  shows "in_block net (8 * k + 8) ip \<longleftrightarrow> take k ip = take k net \<and> ip ! k = net ! k"
  using in_block_split [OF assms, of 8] by (simp add: byte_bits_inj)

lemma v4_prefix_length [simp]: "length v4_prefix = 12"
  by (simp add: v4_prefix_def)

lemma list4: "length xs = 4 \<longleftrightarrow> (\<exists>a b c d. xs = [a, b, c, d])"
  by (auto simp: length_Suc_conv numeral_eq_Suc)

lemma v4_blocks:
  assumes "ip = v4_prefix @ [a, b, c, d]"
  shows "(\<exists>(net, len)\<in>set forbidden_blocks. in_block net len ip) \<longleftrightarrow>
    a = 127 \<or> a = 169 \<and> b = 254 \<or> a = 10 \<or> a = 172 \<and> b AND 240 = 16 \<or> a = 192 \<and> b = 168 \<or> [a, b, c, d] = [0, 0, 0, 0] \<or> a AND 240 = 224"
proof -
  have len: "length ip = 16" using assms by simp
  note B = in_block_bytes [OF len, unfolded assms] note S = in_block_split [OF len, unfolded assms]
  have "in_block (v4_prefix @ [127, 0, 0, 0]) 104 ip \<longleftrightarrow> a = 127"
    using B [of "v4_prefix @ [127, 0, 0, 0]" 12] by (simp add: assms nth_append)
  moreover have "in_block (v4_prefix @ [10, 0, 0, 0]) 104 ip \<longleftrightarrow> a = 10"
    using B [of "v4_prefix @ [10, 0, 0, 0]" 12] by (simp add: assms nth_append)
  moreover have "in_block (v4_prefix @ [169, 254, 0, 0]) 112 ip \<longleftrightarrow> a = 169 \<and> b = 254"
    using B [of "v4_prefix @ [169, 254, 0, 0]" 13] by (simp add: assms nth_append)
  moreover have "in_block (v4_prefix @ [192, 168, 0, 0]) 112 ip \<longleftrightarrow> a = 192 \<and> b = 168"
    using B [of "v4_prefix @ [192, 168, 0, 0]" 13] by (simp add: assms nth_append)
  moreover have "in_block (v4_prefix @ [0, 0, 0, 0]) 128 ip \<longleftrightarrow> [a, b, c, d] = [0, 0, 0, 0]"
    using B [of "v4_prefix @ [0, 0, 0, 0]" 15] by (simp add: assms nth_append)
  moreover have "in_block (v4_prefix @ [172, 16, 0, 0]) 108 ip \<longleftrightarrow> a = 172 \<and> b AND 240 = 16"
    using S [of "v4_prefix @ [172, 16, 0, 0]" 13 4] by (simp add: assms nth_append byte_bits_mask)
  moreover have "in_block (v4_prefix @ [224, 0, 0, 0]) 100 ip \<longleftrightarrow> a AND 240 = 224"
    using S [of "v4_prefix @ [224, 0, 0, 0]" 12 4] by (simp add: assms nth_append byte_bits_mask)
  moreover have "replicate 10 0 @ 255 # xs \<noteq> replicate n (0 :: byte)" for xs n
  proof
    assume "replicate 10 0 @ 255 # xs = replicate n (0 :: byte)"
    then have "255 \<in> set (replicate n (0 :: byte))" by (metis in_set_conv_decomp)
    then show False by auto
  qed
  then have "\<not> in_block (replicate 15 0 @ [1]) 128 ip" "\<not> in_block (replicate 16 0) 128 ip"
    using B [of "replicate 15 0 @ [1]" 15] B [of "replicate 16 0" 15]
    by (simp_all add: assms v4_prefix_def)
  moreover have "\<not> in_block ([254, 128] @ replicate 14 0) 10 ip" "\<not> in_block ([252] @ replicate 15 0) 7 ip" "\<not> in_block ([255] @ replicate 15 0) 8 ip"
    using S [of "[254, 128] @ replicate 14 0" 1 2] S [of "[252] @ replicate 15 0" 0 7] B [of "[255] @ replicate 15 0" 0]
    by (simp_all add: assms v4_prefix_def byte_bits_mask nth_append)
  ultimately show ?thesis
    by (simp add: forbidden_blocks_def v4_block_def v6_block_def)
qed

lemma v6_blocks:
  assumes len: "length ip = 16" and v6: "take 12 ip \<noteq> v4_prefix"
  shows "(\<exists>(net, len)\<in>set forbidden_blocks. in_block net len ip) \<longleftrightarrow>
    ip = replicate 15 0 @ [1] \<or> ip ! 0 = 254 \<and> ip ! 1 AND 192 = 128 \<or> ip ! 0 AND 254 = 252 \<or> ip = replicate 16 0 \<or> ip ! 0 = 255"
proof -
  note B = in_block_bytes [OF len] note S = in_block_split [OF len]
  have no: "\<not> in_block (v4_prefix @ [a, b, c, d]) (8 * k + r) ip" if "12 \<le> k" "k < 16" "r \<le> 8" for a b c d k r
  proof
    assume "in_block (v4_prefix @ [a, b, c, d]) (8 * k + r) ip"
    then have "take k ip = take k (v4_prefix @ [a, b, c, d])" using S [of "v4_prefix @ [a, b, c, d]" k r] that by simp
    from arg_cong [OF this, of "take 12"] that(1) v6 show False by (simp add: min_def)
  qed
  have split15: "ip = xs @ [y] \<longleftrightarrow> take 15 ip = xs \<and> ip ! 15 = y" if "length xs = 15" for xs y
  proof -
    have "take (Suc 15) ip = take 15 ip @ [ip ! 15]" using len by (intro take_Suc_conv_app_nth) simp
    moreover have "take (Suc 15) ip = ip" using len by simp
    ultimately have "ip = take 15 ip @ [ip ! 15]" by simp
    moreover have "xs @ [y] = take 15 ip @ [ip ! 15] \<longleftrightarrow> take 15 ip = xs \<and> ip ! 15 = y" by auto
    ultimately show ?thesis by metis
  qed
  have "in_block (replicate 15 0 @ [1]) 128 ip \<longleftrightarrow> ip = replicate 15 0 @ [1]"
    using B [of "replicate 15 0 @ [1]" 15] by (simp add: split15 nth_append)
  moreover have "in_block (replicate 15 0 @ [0]) 128 ip \<longleftrightarrow> ip = replicate 15 0 @ [0]"
    using B [of "replicate 15 0 @ [0]" 15] by (simp add: split15 nth_append)
  moreover have "replicate 15 0 @ [0] = replicate 16 (0 :: byte)" by (simp add: replicate_append_same numeral_eq_Suc)
  moreover have "in_block ([254, 128] @ replicate 14 0) 10 ip \<longleftrightarrow> ip ! 0 = 254 \<and> ip ! 1 AND 192 = 128"
  proof -
    have "take 1 ip = [ip ! 0]" using len by (cases ip) auto
    then show ?thesis using S [of "[254, 128] @ replicate 14 0" 1 2] by (simp add: byte_bits_mask)
  qed
  moreover have "in_block ([252] @ replicate 15 0) 7 ip \<longleftrightarrow> ip ! 0 AND 254 = 252"
    using S [of "[252] @ replicate 15 0" 0 7] by (simp add: byte_bits_mask)
  moreover have "in_block ([255] @ replicate 15 0) 8 ip \<longleftrightarrow> ip ! 0 = 255"
    using B [of "[255] @ replicate 15 0" 0] by simp
  moreover note no [of 12 8 127 0 0 0] no [of 12 8 10 0 0 0] no [of 13 8 169 254 0 0] no [of 13 8 192 168 0 0]
    no [of 15 8 0 0 0 0] no [of 13 4 172 16 0 0] no [of 12 4 224 0 0 0]
  ultimately show ?thesis
    by (simp add: forbidden_blocks_def v4_block_def v6_block_def)
qed

lemma blocked_iff_not_public:
  assumes "length ip = 16"
  shows "snd (blockedIPReason ip) \<longleftrightarrow> \<not> public_ip ip"
proof -
  have pub: "\<not> public_ip ip \<longleftrightarrow> (\<exists>(net, len)\<in>set forbidden_blocks. in_block net len ip)"
    by (auto simp: public_ip_def)
  show ?thesis
  proof (cases "take 12 ip = v4_prefix")
    case True
    have "length (drop 12 ip) = 4" using assms by simp
    then obtain a b c d where d: "drop 12 ip = [a, b, c, d]" unfolding list4 by blast
    then have ip: "ip = v4_prefix @ [a, b, c, d]" using True by (metis append_take_drop_id)
    have t4: "To4 ip = Some [a, b, c, d]" using assms True d by (simp add: To4_def)
    show ?thesis unfolding pub v4_blocks [OF ip]
      by (auto simp: blockedIPReason_def IsLoopback_def IsLinkLocalUnicast_def IsLinkLocalMulticast_def IsPrivate_def
          IsUnspecified_def IsMulticast_def t4)
  next
    case False
    have t4: "To4 ip = None" using assms False by (simp add: To4_def)
    show ?thesis unfolding pub v6_blocks [OF assms False]
      using assms by (auto simp: blockedIPReason_def IsLoopback_def IsLinkLocalUnicast_def IsLinkLocalMulticast_def IsPrivate_def
          IsUnspecified_def IsMulticast_def t4)
  qed
qed
section \<open>What an accepted configuration guarantees\<close>

lemma ParseIP_blocked: "ParseIP s = Some ip \<Longrightarrow> snd (blockedIPReason ip) \<longleftrightarrow> \<not> public_ip ip"
  by (intro blocked_iff_not_public ParseIP_length)

lemma blocked_addrs_iff:
  "snd (blocked_addrs addrs) \<longleftrightarrow> (\<exists>addr\<in>set addrs. \<exists>ip. ParseIP addr = Some ip \<and> \<not> public_ip ip)"
  by (induction addrs) (auto simp: ParseIP_blocked split: option.split)

lemma isBlockedHost_iff:
  "snd (isBlockedHost lookup host) \<longleftrightarrow>
     (case ParseIP host of
        Some ip \<Rightarrow> \<not> public_ip ip
      | None \<Rightarrow> host = ''localhost'' \<or>
          (\<exists>addrs. lookup host = Some addrs \<and> (\<exists>addr\<in>set addrs. \<exists>ip. ParseIP addr = Some ip \<and> \<not> public_ip ip)))"
  by (auto simp: isBlockedHost_def ParseIP_blocked blocked_addrs_iff split: option.split)

definition rate_pair_ok :: "float64 \<Rightarrow> float64 \<Rightarrow> bool" where
  "rate_pair_ok high low \<longleftrightarrow> \<not> f_le high (Fin 0) \<and> \<not> f_lt (Fin 1) high \<and> \<not> f_le low (Fin 0) \<and> \<not> f_lt high low"

lemma rate_validate_iff:
  "er_validate e = None \<longleftrightarrow> rate_pair_ok (er_High e) (er_Low e)"
  "ss_validate s = None \<longleftrightarrow> rate_pair_ok (ss_High s) (ss_Mild s)"
  "rr_validate r = None \<longleftrightarrow> rate_pair_ok (rr_High r) (rr_Mild r)"
  by (auto simp: er_validate_def ss_validate_def rr_validate_def rate_pair_ok_def)

lemma rate_pair_finite: "rate_pair_ok (Fin h) (Fin l) \<longleftrightarrow> 0 < l \<and> l \<le> h \<and> h \<le> 1"
  by (auto simp: rate_pair_ok_def)

lemma rate_pair_nan:
  "rate_pair_ok high low \<longleftrightarrow> (high = NaN \<or> f_lt (Fin 0) high \<and> f_le high (Fin 1)) \<and> (low = NaN \<or> f_lt (Fin 0) low)
     \<and> (high = NaN \<or> low = NaN \<or> f_le low high)"
  by (cases high; cases low) (auto simp: rate_pair_ok_def)

lemma not_f_le_0: "\<not> f_le x (Fin 0) \<longleftrightarrow> x = NaN \<or> f_lt (Fin 0) x"
  by (cases x) auto

lemma rate_pair_cases:
  "rate_pair_ok high low \<longleftrightarrow>
     (case (high, low) of
        (Fin h, Fin l) \<Rightarrow> 0 < l \<and> l \<le> h \<and> h \<le> 1
      | (Fin h, NaN) \<Rightarrow> 0 < h \<and> h \<le> 1
      | (NaN, Fin l) \<Rightarrow> 0 < l
      | (NaN, PInf) \<Rightarrow> True
      | (NaN, NaN) \<Rightarrow> True
      | _ \<Rightarrow> False)"
  by (cases high; cases low) (auto simp: rate_pair_ok_def)

lemma Validate_None:
  "Validate lookup c = None \<longleftrightarrow>
     0 < c_PreAlertWindow c \<and> 0 < c_MaxBufferSize c \<and> fw_IncidentaryEndpoint (c_Forward c) \<noteq> []
     \<and> validateForwardEndpoint lookup (fw_IncidentaryEndpoint (c_Forward c)) (fw_AllowInsecure (c_Forward c)) = None
     \<and> 0 \<le> fw_Timeout (c_Forward c)
     \<and> rate_pair_ok (er_High (tg_ErrorRate5xx (c_Triggers c))) (er_Low (tg_ErrorRate5xx (c_Triggers c)))
     \<and> rate_pair_ok (ss_High (tg_SlowSuccessRate (c_Triggers c))) (ss_Mild (tg_SlowSuccessRate (c_Triggers c)))
     \<and> rate_pair_ok (rr_High (tg_RetryRate (c_Triggers c))) (rr_Mild (tg_RetryRate (c_Triggers c)))
     \<and> if_validate (tg_InFlightPileup (c_Triggers c)) = None"
  by (auto simp: Validate_def not_le not_less simp flip: rate_validate_iff split: option.split)

lemma if_validate_None:
  "if_validate i = None \<longleftrightarrow> 0 < if_MinAbsoluteInFlight i \<and> \<not> f_le (if_BaselineMultiplier i) (Fin 0)
     \<and> 0 \<le> if_NetGrowthMin i \<and> if_MildHoldSecs i \<le> if_SevereHoldSecs i"
  by (auto simp: if_validate_def)

section \<open>Properties\<close>

text \<open>
  C33: what the SSRF guard accepts. Without the \<open>allow_insecure\<close> opt-out, an endpoint is
  accepted exactly when it parses, its scheme is https, it names a host, and: if \<open>ParseIP\<close>
  reads the host as an address, then it lies in none of the loopback, link-local, private,
  unspecified and multicast blocks; otherwise the host is not \<open>localhost\<close>, and of the name
  server's answers, if it answers at all, none that \<open>ParseIP\<close> reads lies in one of them.
  So a host that does not resolve is accepted, and so is a literal that \<open>ParseIP\<close> does not
  read, such as one with an IPv6 zone. With the opt-out any http or https URL with a host is.
\<close>

theorem endpoint_guard:
  "(validateForwardEndpoint lookup raw False = None \<longleftrightarrow>
     (\<exists>u. url_Parse raw = Inr u \<and> u_Scheme u = ''https'' \<and> url_Hostname u \<noteq> []
       \<and> (case ParseIP (url_Hostname u) of
            Some ip \<Rightarrow> public_ip ip
          | None \<Rightarrow> url_Hostname u \<noteq> ''localhost'' \<and>
              (case lookup (url_Hostname u) of None \<Rightarrow> True
               | Some addrs \<Rightarrow> list_all (\<lambda>addr. case ParseIP addr of Some ip \<Rightarrow> public_ip ip | None \<Rightarrow> True) addrs))))
   \<and> (validateForwardEndpoint lookup raw True = None \<longleftrightarrow>
     (\<exists>u. url_Parse raw = Inr u \<and> u_Scheme u \<in> {''http'', ''https''} \<and> url_Hostname u \<noteq> []))"
proof -
  have host: "\<not> snd (isBlockedHost lookup h) \<longleftrightarrow>
      (case ParseIP h of
         Some ip \<Rightarrow> public_ip ip
       | None \<Rightarrow> h \<noteq> ''localhost'' \<and>
           (case lookup h of None \<Rightarrow> True
            | Some addrs \<Rightarrow> list_all (\<lambda>addr. case ParseIP addr of Some ip \<Rightarrow> public_ip ip | None \<Rightarrow> True) addrs))" for h
    by (auto simp: isBlockedHost_iff list_all_iff split: option.splits)
  show ?thesis unfolding host [symmetric]
    by (auto simp: validateForwardEndpoint_def Let_def split: sum.splits)
qed

text \<open>
  C34: the address test is the list of blocks. For every 16-byte address, \<open>blockedIPReason\<close>
  blocks it exactly when it lies in one of the blocks 127/8, 169.254/16, 10/8, 172.16/12,
  192.168/16, 0.0.0.0/32, 224/4 (also in their IPv4-mapped form), \<open>::1\<close>, \<open>fe80::/10\<close>,
  \<open>fc00::/7\<close>, \<open>::\<close> or \<open>ff00::/8\<close>.
\<close>

theorem blocked_addresses:
  assumes "ParseIP s = Some ip"
  shows "snd (blockedIPReason ip) \<longleftrightarrow> (\<exists>(net, len)\<in>set forbidden_blocks. in_block net len ip)"
  using ParseIP_blocked [OF assms] by (auto simp: public_ip_def)

theorem blocked_addresses_witness:
  "\<exists>(net, len)\<in>set forbidden_blocks. in_block net len (v4_prefix @ [169, 254, 169, 254])"
proof -
  have p: "ParseIP ''169.254.169.254'' = Some (v4_prefix @ [169, 254, 169, 254])" by code_simp
  have "snd (blockedIPReason (v4_prefix @ [169, 254, 169, 254]))" by code_simp
  with blocked_addresses [OF p] show ?thesis by blast
qed

text \<open>
  C35: what validation accepts. A configuration is accepted exactly when the window and the
  buffer size are positive, the endpoint is set and passes its check, the timeout is not
  negative, every rate section has its high threshold in (0, 1] and its low one in (0, high], and
  the in-flight section has a positive minimum and multiplier, a non-negative growth and
  its holds in order; except that a threshold or a multiplier that is NaN passes every one of
  these bounds, on itself and on the other threshold of its section.
\<close>

theorem Validate_accepts_iff:
  "Validate lookup c = None \<longleftrightarrow>
     0 < c_PreAlertWindow c \<and> 0 < c_MaxBufferSize c \<and> fw_IncidentaryEndpoint (c_Forward c) \<noteq> []
     \<and> validateForwardEndpoint lookup (fw_IncidentaryEndpoint (c_Forward c)) (fw_AllowInsecure (c_Forward c)) = None
     \<and> 0 \<le> fw_Timeout (c_Forward c)
     \<and> list_all (\<lambda>(high, low). (high = NaN \<or> f_lt (Fin 0) high \<and> f_le high (Fin 1)) \<and> (low = NaN \<or> f_lt (Fin 0) low)
            \<and> (high = NaN \<or> low = NaN \<or> f_le low high))
         [(er_High (tg_ErrorRate5xx (c_Triggers c)), er_Low (tg_ErrorRate5xx (c_Triggers c))),
          (ss_High (tg_SlowSuccessRate (c_Triggers c)), ss_Mild (tg_SlowSuccessRate (c_Triggers c))),
          (rr_High (tg_RetryRate (c_Triggers c)), rr_Mild (tg_RetryRate (c_Triggers c)))]
     \<and> 0 < if_MinAbsoluteInFlight (tg_InFlightPileup (c_Triggers c))
     \<and> (if_BaselineMultiplier (tg_InFlightPileup (c_Triggers c)) = NaN \<or> f_lt (Fin 0) (if_BaselineMultiplier (tg_InFlightPileup (c_Triggers c))))
     \<and> 0 \<le> if_NetGrowthMin (tg_InFlightPileup (c_Triggers c))
     \<and> if_MildHoldSecs (tg_InFlightPileup (c_Triggers c)) \<le> if_SevereHoldSecs (tg_InFlightPileup (c_Triggers c))"
  unfolding Validate_None if_validate_None rate_pair_nan not_f_le_0 by auto

lemma DefaultConfig_thresholds:
  "er_High (tg_ErrorRate5xx (c_Triggers DefaultConfig)) = Fin (fl (10 / 100))"
  "er_Low (tg_ErrorRate5xx (c_Triggers DefaultConfig)) = Fin (fl (2 / 100))"
  "ss_High (tg_SlowSuccessRate (c_Triggers DefaultConfig)) = Fin (fl (20 / 100))"
  "ss_Mild (tg_SlowSuccessRate (c_Triggers DefaultConfig)) = Fin (fl (10 / 100))"
  "rr_High (tg_RetryRate (c_Triggers DefaultConfig)) = Fin (fl (10 / 100))"
  "rr_Mild (tg_RetryRate (c_Triggers DefaultConfig)) = Fin (fl (5 / 100))"
  "if_BaselineMultiplier (tg_InFlightPileup (c_Triggers DefaultConfig)) = Fin (fl 3)"
  by (simp_all add: DefaultConfig_def, (subst f64_Fin; simp add: le_2_1000)+)

text \<open>The default endpoint, and the default configuration with it.\<close>

lemma default_endpoint_url:
  "url_Parse DefaultForwardEndpoint = Inr (empty_url\<lparr>u_Scheme := ''https'', u_Host := ''api.incidentary.com'', u_Path := ''/api/v1/otlp/v1/traces''\<rparr>)"
  by code_simp

lemma default_hostname: "url_Hostname (empty_url\<lparr>u_Scheme := ''https'', u_Host := ''api.incidentary.com'', u_Path := p\<rparr>) = ''api.incidentary.com''"
  by code_simp

lemma fl_percent_bounds: "1 / 64 \<le> x \<Longrightarrow> x \<le> 1 \<Longrightarrow> 0 < fl x \<and> fl x \<le> 1"
  using fl_ge [of "1 / 64" x] fl_le [of x 1] fl_powi2 [of "- 6"] fl_of_int [of 1]
  by (simp add: power_int_minus divide_simps)

lemma fl_three: "fl 3 = 3"
  using fl_of_int [of 3] by simp

lemma default_thresholds:
  "0 < fl (2 / 100)" "fl (2 / 100) \<le> fl (10 / 100)" "fl (10 / 100) \<le> 1" "0 < fl (10 / 100)" "fl (10 / 100) \<le> fl (20 / 100)"
  "fl (20 / 100) \<le> 1" "0 < fl (5 / 100)" "fl (5 / 100) \<le> fl (10 / 100)"
  using fl_percent_bounds [of "2 / 100"] fl_percent_bounds [of "5 / 100"] fl_percent_bounds [of "10 / 100"] fl_percent_bounds [of "20 / 100"]
    fl_mono [of "2 / 100" "10 / 100"] fl_mono [of "5 / 100" "10 / 100"] fl_mono [of "10 / 100" "20 / 100"]
  by simp_all

lemma default_endpoint_valid: "validateForwardEndpoint (\<lambda>_. None) DefaultForwardEndpoint False = None"
proof -
  have ip: "ParseIP ''api.incidentary.com'' = None" by code_simp
  show ?thesis by (simp add: validateForwardEndpoint_def default_endpoint_url default_hostname isBlockedHost_def ip)
qed

lemma default_fields:
  "fw_IncidentaryEndpoint (c_Forward DefaultConfig) = DefaultForwardEndpoint" "\<not> fw_AllowInsecure (c_Forward DefaultConfig)"
  "DefaultForwardEndpoint \<noteq> []"
  by (simp_all add: DefaultConfig_def DefaultForwardEndpoint_def)

text \<open>The default configuration is valid, with any token, timeout and queue file.\<close>

lemma default_config_valid:
  assumes "0 \<le> t"
  shows "Validate (\<lambda>_. None) (DefaultConfig\<lparr>c_Forward := (c_Forward DefaultConfig)\<lparr>fw_IncidentaryToken := tok, fw_Timeout := t\<rparr>, c_PersistPath := path\<rparr>) = None"
proof -
  have "if_validate (tg_InFlightPileup (c_Triggers DefaultConfig)) = None"
    unfolding if_validate_None DefaultConfig_thresholds(7) by (simp add: fl_three) (simp add: DefaultConfig_def)
  then show ?thesis
    using assms default_thresholds unfolding Validate_None
    by (simp add: DefaultConfig_thresholds rate_pair_finite default_fields default_endpoint_valid)
      (simp add: DefaultConfig_def duration_defs DefaultPreAlertWindow_def DefaultMaxBufferSize_def)
qed

theorem Validate_accepts_iff_witness:
  "Validate (\<lambda>_. None) (DefaultConfig\<lparr>c_MaxBufferSize := 0\<rparr>) \<noteq> None \<and> Validate (\<lambda>_. None) DefaultConfig = None"
  unfolding Validate_accepts_iff
  using default_thresholds default_endpoint_valid default_fields
  by (simp add: DefaultConfig_thresholds fl_three)
    (simp add: DefaultConfig_def duration_defs DefaultPreAlertWindow_def DefaultMaxBufferSize_def DefaultForwardTimeout_def)

theorem endpoint_guard_witness:
  "public_ip (v4_prefix @ [93, 184, 216, 34])"
proof -
  have "validateForwardEndpoint (\<lambda>_. None) ''https://93.184.216.34/'' False = None" by code_simp
  with endpoint_guard [of "\<lambda>_. None" "''https://93.184.216.34/''"] obtain u where
    "url_Parse ''https://93.184.216.34/'' = Inr u"
    "case ParseIP (url_Hostname u) of Some ip \<Rightarrow> public_ip ip | None \<Rightarrow> url_Hostname u \<noteq> ''localhost'' \<and> True"
    by (auto split: option.splits)
  moreover have "url_Parse ''https://93.184.216.34/'' = Inr (empty_url\<lparr>u_Scheme := ''https'', u_Host := ''93.184.216.34'', u_Path := ''/''\<rparr>)"
    by code_simp
  moreover have "ParseIP (url_Hostname (empty_url\<lparr>u_Scheme := ''https'', u_Host := ''93.184.216.34'', u_Path := ''/''\<rparr>)) = Some (v4_prefix @ [93, 184, 216, 34])"
    by code_simp
  ultimately show ?thesis by simp
qed

section \<open>Gaps in the checks\<close>

text \<open>
  Two inputs the checks let through. A loopback literal with an IPv6 zone is not an address
  for \<open>ParseIP\<close>, neither as the host nor in the answer of \<open>LookupHost\<close>, which returns a
  literal unchanged. And a NaN threshold fails no comparison, after which the trigger never
  fires.
\<close>

lemma zone_literal_accepted:
  "validateForwardEndpoint (\<lambda>host. Some [host]) ''https://[::1%25lo]/'' False = None"
  by code_simp

lemma nan_thresholds_accepted:
  "er_validate \<lparr>er_High = NaN, er_Low = NaN\<rparr> = None"
  "classifyTwoTier rate NaN NaN = SeverityNone"
  by (simp_all add: er_validate_def classifyTwoTier_def)

end
