(* ===== verification/Forward.thy ===== *)
theory Forward
  imports Pdata Go_Net
begin

text \<open>
  The forwarder, \<open>internal/forward/client.go\<close>. The HTTP client proper, with its retries and
  headers, is the package \<open>incidentary-go-core/ingest\<close>, and the OTLP/JSON encoder belongs to
  the collector's \<open>pdata\<close>: neither is part of the repository. They are the parameters

    \<^item> \<open>new_core\<close>, the constructor \<open>ingest.NewClient\<close>, on the configuration the code builds,
    \<^item> \<open>marshal\<close>, the encoder \<open>ExportRequest.MarshalJSON\<close>, and
    \<^item> \<open>post\<close>, one call of \<open>PostOTLP\<close>: \<open>None\<close> when the backend took the body.
\<close>

datatype http_client = InjectedClient nat | TimeoutClient duration

record fwd_config =
  fc_Endpoint :: string
  fc_APIKey :: string
  fc_AgentVersion :: string
  fc_Timeout :: duration
  fc_HTTPClient :: "http_client option"

record core_config =
  cc_BaseURL :: string
  cc_APIKey :: string
  cc_AgentVersion :: string
  cc_Surface :: string
  cc_HTTPClient :: http_client
  cc_UserAgent :: string

datatype forward_error =
    FwdEndpointRequired | FwdAPIKeyRequired | FwdParse url_error | FwdNotAbsolute string
  | FwdCore string | FwdMarshal string | FwdPost string

definition splitEndpoint :: "string \<Rightarrow> forward_error + (string \<times> string)" where
  "splitEndpoint endpoint =
     (case url_Parse endpoint of
        Inl err \<Rightarrow> Inl (FwdParse err)
      | Inr u \<Rightarrow>
          if u_Scheme u = [] \<or> u_Host u = [] then Inl (FwdNotAbsolute endpoint)
          else Inr (u_Scheme u @ ''://'' @ u_Host u, u_Path u))"

definition SurfaceProcessor :: string where "SurfaceProcessor = ''processor''"

definition NewClient :: "(core_config \<Rightarrow> string + 'core) \<Rightarrow> fwd_config \<Rightarrow> forward_error + 'core" where
  "NewClient new_core cfg =
     (if fc_Endpoint cfg = [] then Inl FwdEndpointRequired
      else if fc_APIKey cfg = [] then Inl FwdAPIKeyRequired
      else
        let version = (if fc_AgentVersion cfg = [] then ''0.1.0'' else fc_AgentVersion cfg)
        in (case splitEndpoint (fc_Endpoint cfg) of
              Inl err \<Rightarrow> Inl err
            | Inr (base, path) \<Rightarrow>
                let http = (case fc_HTTPClient cfg of
                              Some c \<Rightarrow> c
                            | None \<Rightarrow> TimeoutClient (if fc_Timeout cfg \<le> 0 then 30 * second else fc_Timeout cfg))
                in (case new_core \<lparr>cc_BaseURL = base, cc_APIKey = fc_APIKey cfg, cc_AgentVersion = version,
                           cc_Surface = SurfaceProcessor, cc_HTTPClient = http,
                           cc_UserAgent = ''incidentary-bridge/'' @ version\<rparr> of
                      Inl err \<Rightarrow> Inl (FwdCore err)
                    | Inr core \<Rightarrow> Inr core)))"

definition SendTraces :: "(traces \<Rightarrow> string + byte list) \<Rightarrow> (byte list \<Rightarrow> string option) \<Rightarrow> traces \<Rightarrow> forward_error option" where
  "SendTraces marshal post td =
     (if rss_spanCount td = 0 then None
      else (case marshal td of
              Inl err \<Rightarrow> Some (FwdMarshal err)
            | Inr body \<Rightarrow> (case post body of Some err \<Rightarrow> Some (FwdPost err) | None \<Rightarrow> None)))"

section \<open>What the client is built for\<close>

lemma SendTraces_ok:
  "SendTraces marshal post td = None \<longleftrightarrow>
     rss_spanCount td = 0 \<or> (\<exists>body. marshal td = Inr body \<and> post body = None)"
  by (auto simp: SendTraces_def split: sum.split option.split)

text \<open>
  The configuration a core is built with: the endpoint's scheme and host as its base, never
  its path or user information, the given key and the processor surface.
\<close>

definition core_for :: "fwd_config \<Rightarrow> go_url \<Rightarrow> core_config \<Rightarrow> bool" where
  "core_for cfg u cc \<longleftrightarrow> cc_BaseURL cc = u_Scheme u @ ''://'' @ u_Host u \<and> cc_APIKey cc = fc_APIKey cfg
     \<and> cc_Surface cc = ''processor'' \<and> (fc_HTTPClient cfg = None \<longrightarrow> (\<exists>d>0. cc_HTTPClient cc = TimeoutClient d))"

lemma NewClient_Inr:
  assumes "NewClient new_core cfg = Inr core"
  obtains u cc where "url_Parse (fc_Endpoint cfg) = Inr u" "u_Scheme u \<noteq> []" "u_Host u \<noteq> []"
    "core_for cfg u cc" "new_core cc = Inr core" "fc_APIKey cfg \<noteq> []"
proof -
  let ?v = "if fc_AgentVersion cfg = [] then ''0.1.0'' else fc_AgentVersion cfg"
  let ?http = "case fc_HTTPClient cfg of Some c \<Rightarrow> c | None \<Rightarrow> TimeoutClient (if fc_Timeout cfg \<le> 0 then 30 * second else fc_Timeout cfg)"
  let ?cc = "\<lambda>u. \<lparr>cc_BaseURL = u_Scheme u @ ''://'' @ u_Host u, cc_APIKey = fc_APIKey cfg, cc_AgentVersion = ?v,
     cc_Surface = ''processor'', cc_HTTPClient = ?http, cc_UserAgent = ''incidentary-bridge/'' @ ?v\<rparr>"
  obtain u where u: "url_Parse (fc_Endpoint cfg) = Inr u" "u_Scheme u \<noteq> []" "u_Host u \<noteq> []" "new_core (?cc u) = Inr core"
      "fc_APIKey cfg \<noteq> []"
    using assms unfolding NewClient_def splitEndpoint_def SurfaceProcessor_def Let_def
    by (auto split: sum.splits if_splits)
  have "core_for cfg u (?cc u)"
    by (simp add: core_for_def second_def)
  then show ?thesis using that u by blast
qed

end
