(* ===== verification/Dlq.thy ===== *)
theory Dlq
  imports Forward Telemetry "HOL-Library.Multiset"
begin

text \<open>
  The in-memory dead-letter queue of \<open>processor/incidentaryprocessor/processor.go\<close>: batches
  whose forwarding failed, retried by a background loop. \<open>enqueueDLQ\<close> and the two halves of
  \<open>drainDLQOnce\<close> hold the queue's mutex; the attempts between the halves do not, so other
  goroutines enqueue meanwhile. Each critical section is one definition; \<open>drainDLQOnce\<close>
  composes them without interference, the step relation below with any.
\<close>

record dlq_entry =
  de_td :: traces
  de_enqueueAt :: time
  de_attempts :: int

definition dlqMaxEntries :: nat where "dlqMaxEntries = 32"
definition dlqRetryInterval :: duration where "dlqRetryInterval = 30 * second"
definition dlqRetryMaxAttempts :: int where "dlqRetryMaxAttempts = 5"

section \<open>Operations\<close>

definition enqueueDLQ :: "telemetry option \<Rightarrow> time \<Rightarrow> traces \<Rightarrow> dlq_entry list \<times> sdk \<Rightarrow> dlq_entry list \<times> sdk" where
  "enqueueDLQ tel now td s =
     (let (q, k) = s;
          (q1, k1) = (if length q \<ge> dlqMaxEntries then (tl q, RecordDLQDropped tel ''fifo_evict'' k) else (q, k))
      in (q1 @ [\<lparr>de_td = td, de_enqueueAt = now, de_attempts = 0\<rparr>], RecordDLQEnqueued tel ''forward_failed'' k1))"

text \<open>One iteration of the retry loop, given the result of its \<open>SendTraces\<close>.\<close>

definition retryEntry :: "telemetry option \<Rightarrow> forward_error option \<Rightarrow> dlq_entry \<Rightarrow> dlq_entry list \<times> sdk \<Rightarrow> dlq_entry list \<times> sdk" where
  "retryEntry tel err entry s =
     (let (stillFailing, k) = s;
          e = entry\<lparr>de_attempts := de_attempts entry + 1\<rparr>
      in if err = None then (stillFailing, RecordDLQFlushed tel ''success'' k)
         else if de_attempts e \<ge> dlqRetryMaxAttempts then (stillFailing, RecordDLQDropped tel ''max_attempts_exceeded'' k)
         else (stillFailing @ [e], k))"

text \<open>
  The first critical section: the queue is taken as \<open>pending\<close> and left nil, which appending
  does not tell from an empty one.
\<close>

definition takeDLQ :: "dlq_entry list \<Rightarrow> dlq_entry list \<times> dlq_entry list" where
  "takeDLQ q = (q, [])"

text \<open>
  The loop. Besides the still failing entries and the metrics it carries the log of the sends
  made so far, those of earlier calls included; \<open>send n td\<close> is the result of the \<open>n\<close>-th send.
\<close>

type_synonym retry_state = "dlq_entry list \<times> sdk \<times> (traces \<times> forward_error option) list"

fun retryLoop :: "telemetry option \<Rightarrow> (nat \<Rightarrow> traces \<Rightarrow> forward_error option) \<Rightarrow> dlq_entry list \<Rightarrow> retry_state \<Rightarrow> retry_state" where
  "retryLoop tel send [] s = s"
| "retryLoop tel send (entry # pending) (stillFailing, k, sent) =
     (let err = send (length sent) (de_td entry);
          (stillFailing', k') = retryEntry tel err entry (stillFailing, k)
      in retryLoop tel send pending (stillFailing', k', sent @ [(de_td entry, err)]))"

text \<open>The loop that caps the queue again after the merge.\<close>

fun capFront :: "dlq_entry list \<Rightarrow> dlq_entry list" where
  "capFront [] = []"
| "capFront (dropped # q) = (if length (dropped # q) > dlqMaxEntries then capFront q else dropped # q)"

definition mergeDLQ :: "dlq_entry list \<Rightarrow> dlq_entry list \<Rightarrow> dlq_entry list" where
  "mergeDLQ stillFailing q = (if stillFailing \<noteq> [] then capFront (stillFailing @ q) else q)"

definition drainDLQOnce :: "telemetry option \<Rightarrow> (nat \<Rightarrow> traces \<Rightarrow> forward_error option) \<Rightarrow> retry_state \<Rightarrow> retry_state" where
  "drainDLQOnce tel send s =
     (let (q, k, sent) = s
      in if q = [] then (q, k, sent)
         else let (pending, q1) = takeDLQ q;
                  (stillFailing, k1, sent1) = retryLoop tel send pending ([], k, sent)
              in (mergeDLQ stillFailing q1, k1, sent1))"

definition dlqSize :: "dlq_entry list \<Rightarrow> int" where
  "dlqSize q = int (length q)"

text \<open>The part of \<open>Start\<close> that takes over the entries loaded from disk.\<close>

fun restoreDLQ :: "dlq_entry list \<Rightarrow> dlq_entry list \<Rightarrow> dlq_entry list" where
  "restoreDLQ [] q = q"
| "restoreDLQ (e # entries) q = (if length q < dlqMaxEntries then restoreDLQ entries (q @ [e]) else q)"

section \<open>The operations in closed form\<close>

lemma capFront_last_n: "capFront q = last_n dlqMaxEntries q"
  by (induction q) (simp_all add: last_n_def Suc_diff_le)

lemma mergeDLQ_last_n: "length q \<le> dlqMaxEntries \<Longrightarrow> mergeDLQ stillFailing q = last_n dlqMaxEntries (stillFailing @ q)"
  by (simp add: mergeDLQ_def capFront_last_n)

lemma restoreDLQ_eq: "restoreDLQ entries q = q @ take (dlqMaxEntries - length q) entries"
  by (induction entries q rule: restoreDLQ.induct) (auto simp: take_Cons' Suc_diff_le)

lemma enqueueDLQ_queue:
  "length q \<le> dlqMaxEntries \<Longrightarrow>
   fst (enqueueDLQ tel now td (q, k)) = last_n dlqMaxEntries (q @ [\<lparr>de_td = td, de_enqueueAt = now, de_attempts = 0\<rparr>])"
  by (cases q) (auto simp: enqueueDLQ_def last_n_def dlqMaxEntries_def)

text \<open>What one round does to an entry: the entries that stay, with their attempt counted.\<close>

definition retried :: "dlq_entry \<Rightarrow> dlq_entry" where
  "retried e = e\<lparr>de_attempts := de_attempts e + 1\<rparr>"

fun survivors :: "(nat \<Rightarrow> traces \<Rightarrow> forward_error option) \<Rightarrow> nat \<Rightarrow> dlq_entry list \<Rightarrow> dlq_entry list" where
  "survivors send i [] = []"
| "survivors send i (e # es) =
     (if send i (de_td e) \<noteq> None \<and> de_attempts e + 1 < dlqRetryMaxAttempts
      then retried e # survivors send (i + 1) es else survivors send (i + 1) es)"

lemma retryEntry_still:
  "retryEntry tel err e (still, k) = (still', k') \<Longrightarrow>
   still' = still @ (if err \<noteq> None \<and> de_attempts e + 1 < dlqRetryMaxAttempts then [retried e] else [])"
  by (auto simp: retryEntry_def retried_def Let_def split: if_splits)

lemma retryLoop_queue: "fst (retryLoop tel send pending (still, k, sent)) = still @ survivors send (length sent) pending"
proof (induction pending arbitrary: still k sent)
  case (Cons e es)
  obtain still' k' where r: "retryEntry tel (send (length sent) (de_td e)) e (still, k) = (still', k')" by fastforce
  from Cons r retryEntry_still [OF r] show ?case by simp
qed simp

text \<open>The sends of a round: one for each entry, in order.\<close>

definition round_sends :: "(nat \<Rightarrow> traces \<Rightarrow> forward_error option) \<Rightarrow> nat \<Rightarrow> dlq_entry list \<Rightarrow> (traces \<times> forward_error option) list" where
  "round_sends send n q = map (\<lambda>(i, e). (de_td e, send i (de_td e))) (List.enumerate n q)"

lemma retryLoop_sent: "snd (snd (retryLoop tel send pending (still, k, sent))) = sent @ round_sends send (length sent) pending"
proof (induction pending arbitrary: still k sent)
  case (Cons e es)
  obtain still' k' where r: "retryEntry tel (send (length sent) (de_td e)) e (still, k) = (still', k')" by fastforce
  with Cons show ?case by (simp add: round_sends_def)
qed (simp add: round_sends_def)

lemma survivors_filter:
  "survivors send n q = map (\<lambda>(i, e). e\<lparr>de_attempts := de_attempts e + 1\<rparr>)
     (filter (\<lambda>(i, e). send i (de_td e) \<noteq> None \<and> de_attempts e + 1 < 5) (List.enumerate n q))"
  by (induction q arbitrary: n) (auto simp: retried_def dlqRetryMaxAttempts_def)

lemma length_survivors: "length (survivors send i es) \<le> length es"
  by (induction es arbitrary: i) (auto intro: le_SucI)

lemma drainDLQOnce_queue:
  assumes "length q \<le> dlqMaxEntries"
  shows "fst (drainDLQOnce tel send (q, k, sent)) = survivors send (length sent) q"
proof (cases "q = []")
  case False
  then show ?thesis
    using retryLoop_queue [of tel send q "[]" k sent] length_survivors [of send "length sent" q] assms
    by (cases "retryLoop tel send q ([], k, sent)") (simp add: drainDLQOnce_def takeDLQ_def mergeDLQ_last_n)
qed (simp add: drainDLQOnce_def)

lemma drainDLQOnce_sent: "snd (snd (drainDLQOnce tel send (q, k, sent))) = sent @ round_sends send (length sent) q"
  using retryLoop_sent [of tel send q "[]" k sent]
  by (cases "retryLoop tel send q ([], k, sent)") (simp add: drainDLQOnce_def takeDLQ_def round_sends_def)

section \<open>The queue under interleaving\<close>

text \<open>
  The processor's queue together with the retry goroutine: \<open>ds_retry\<close> is \<open>None\<close> between
  ticks and holds the pending and the still failing entries of a running \<open>drainDLQOnce\<close>. The
  fields after the clock are history: the batches ever handed to the queue, those delivered
  by a retry, those dropped with a metric, those dropped by the merge.
\<close>

record dlq_sys =
  ds_queue :: "dlq_entry list"
  ds_retry :: "(dlq_entry list \<times> dlq_entry list) option"
  ds_sdk :: sdk
  ds_clock :: time
  ds_enqueued :: "traces list"
  ds_flushed :: "traces list"
  ds_dropped :: "traces list"
  ds_merged :: "traces list"

datatype dlq_event =
    DlqEnqueue traces | DlqTick | DlqAttempt "forward_error option" | DlqMerge

inductive dlq_step :: "telemetry option \<Rightarrow> dlq_sys \<Rightarrow> dlq_event \<Rightarrow> dlq_sys \<Rightarrow> bool" for tel where
  dlq_enqueue:
    "ds_clock s \<le> now \<Longrightarrow> enqueueDLQ tel now td (ds_queue s, ds_sdk s) = (q, k) \<Longrightarrow>
     dlq_step tel s (DlqEnqueue td)
       (s\<lparr>ds_queue := q, ds_sdk := k, ds_clock := now, ds_enqueued := ds_enqueued s @ [td],
          ds_dropped := ds_dropped s @ (if length (ds_queue s) \<ge> dlqMaxEntries then [de_td (hd (ds_queue s))] else [])\<rparr>)"
| dlq_tick:
    "ds_retry s = None \<Longrightarrow> ds_queue s \<noteq> [] \<Longrightarrow> takeDLQ (ds_queue s) = (pending, q) \<Longrightarrow>
     dlq_step tel s DlqTick (s\<lparr>ds_queue := q, ds_retry := Some (pending, [])\<rparr>)"
| dlq_attempt:
    "ds_retry s = Some (e # pending, still) \<Longrightarrow> retryEntry tel err e (still, ds_sdk s) = (still', k) \<Longrightarrow>
     dlq_step tel s (DlqAttempt err)
       (s\<lparr>ds_retry := Some (pending, still'), ds_sdk := k,
          ds_flushed := ds_flushed s @ (if err = None then [de_td e] else []),
          ds_dropped := ds_dropped s @ (if err \<noteq> None \<and> length still' = length still then [de_td e] else [])\<rparr>)"
| dlq_merge:
    "ds_retry s = Some ([], still) \<Longrightarrow>
     dlq_step tel s DlqMerge
       (s\<lparr>ds_queue := mergeDLQ still (ds_queue s), ds_retry := None,
          ds_merged := ds_merged s @ map de_td (take (length (still @ ds_queue s) - dlqMaxEntries) (still @ ds_queue s))\<rparr>)"

inductive_cases dlq_enqueueE: "dlq_step tel s (DlqEnqueue td) s'"

text \<open>A start of the processor, with the queue it restored.\<close>

definition dlq_init :: "dlq_sys \<Rightarrow> bool" where
  "dlq_init s \<longleftrightarrow> length (ds_queue s) \<le> dlqMaxEntries \<and> ds_retry s = None
     \<and> sorted (map de_enqueueAt (ds_queue s)) \<and> (\<forall>e\<in>set (ds_queue s). de_enqueueAt e \<le> ds_clock s \<and> 0 \<le> de_attempts e \<and> de_attempts e < 5)
     \<and> sdk_adds (ds_sdk s) = [] \<and> ds_enqueued s = map de_td (ds_queue s)
     \<and> ds_flushed s = [] \<and> ds_dropped s = [] \<and> ds_merged s = []"

definition in_retry :: "dlq_sys \<Rightarrow> dlq_entry list" where
  "in_retry s = (case ds_retry s of None \<Rightarrow> [] | Some (pending, still) \<Rightarrow> still @ pending)"

definition dlq_inv :: "dlq_sys \<Rightarrow> bool" where
  "dlq_inv s \<longleftrightarrow> length (ds_queue s) \<le> dlqMaxEntries \<and> length (in_retry s) \<le> dlqMaxEntries
     \<and> sorted (map de_enqueueAt (in_retry s @ ds_queue s))
     \<and> (\<forall>e\<in>set (in_retry s @ ds_queue s). de_enqueueAt e \<le> ds_clock s \<and> 0 \<le> de_attempts e \<and> de_attempts e < 5)
     \<and> mset (ds_enqueued s) = mset (map de_td (in_retry s @ ds_queue s)) + mset (ds_flushed s) + mset (ds_dropped s) + mset (ds_merged s)"

lemma dlq_inv_init: "dlq_init s \<Longrightarrow> dlq_inv s"
  by (auto simp: dlq_init_def dlq_inv_def in_retry_def)

lemma dlq_inv_enqueue:
  assumes inv: "dlq_inv s" and le: "ds_clock s \<le> now" and q: "enqueueDLQ tel now td (ds_queue s, ds_sdk s) = (q, k)"
  shows "dlq_inv (s\<lparr>ds_queue := q, ds_sdk := k, ds_clock := now, ds_enqueued := ds_enqueued s @ [td],
      ds_dropped := ds_dropped s @ (if length (ds_queue s) \<ge> dlqMaxEntries then [de_td (hd (ds_queue s))] else [])\<rparr>)"
proof -
  let ?e = "\<lparr>de_td = td, de_enqueueAt = now, de_attempts = 0\<rparr>"
  have old: "\<forall>e\<in>set (in_retry s @ ds_queue s). de_enqueueAt e \<le> now \<and> 0 \<le> de_attempts e \<and> de_attempts e < 5"
    using inv order_trans [OF _ le] by (simp add: dlq_inv_def)
  show ?thesis
  proof (cases "length (ds_queue s) \<ge> dlqMaxEntries")
    case True
    then obtain h t where ht: "ds_queue s = h # t" by (cases "ds_queue s") (auto simp: dlqMaxEntries_def)
    then have "q = t @ [?e]" using q True by (auto simp: enqueueDLQ_def)
    then show ?thesis using inv old True
      by (auto simp: dlq_inv_def in_retry_def ht sorted_append split: option.splits)
  next
    case False
    then have "q = ds_queue s @ [?e]" using q by (auto simp: enqueueDLQ_def)
    then show ?thesis using inv old False
      by (auto simp: dlq_inv_def in_retry_def sorted_append split: option.splits)
  qed
qed

lemma dlq_inv_tick:
  "dlq_inv s \<Longrightarrow> ds_retry s = None \<Longrightarrow> takeDLQ (ds_queue s) = (pending, q)
   \<Longrightarrow> dlq_inv (s\<lparr>ds_queue := q, ds_retry := Some (pending, [])\<rparr>)"
  by (auto simp: dlq_inv_def in_retry_def takeDLQ_def)

lemma dlq_inv_attempt:
  assumes inv: "dlq_inv s" and r: "ds_retry s = Some (e # pending, still)"
    and step: "retryEntry tel err e (still, ds_sdk s) = (still', k)"
  shows "dlq_inv (s\<lparr>ds_retry := Some (pending, still'), ds_sdk := k,
          ds_flushed := ds_flushed s @ (if err = None then [de_td e] else []),
          ds_dropped := ds_dropped s @ (if err \<noteq> None \<and> length still' = length still then [de_td e] else [])\<rparr>)"
  using inv r unfolding retryEntry_still [OF step]
  by (auto simp: dlq_inv_def in_retry_def sorted_append retried_def dlqRetryMaxAttempts_def)

lemma dlq_inv_merge:
  assumes inv: "dlq_inv s" and r: "ds_retry s = Some ([], still)"
  shows "dlq_inv (s\<lparr>ds_queue := mergeDLQ still (ds_queue s), ds_retry := None,
          ds_merged := ds_merged s @ map de_td (take (length (still @ ds_queue s) - dlqMaxEntries) (still @ ds_queue s))\<rparr>)"
proof -
  let ?all = "still @ ds_queue s" let ?n = "length ?all - dlqMaxEntries"
  have q: "mergeDLQ still (ds_queue s) = drop ?n ?all"
    using inv by (simp add: mergeDLQ_last_n dlq_inv_def last_n_def)
  have "mset (map de_td ?all) = mset (map de_td (take ?n ?all)) + mset (map de_td (drop ?n ?all))"
    by (metis append_take_drop_id map_append mset_append)
  moreover have "set (drop ?n ?all) \<subseteq> set ?all" by (rule set_drop_subset)
  moreover have "sorted (map de_enqueueAt (drop ?n ?all))"
    using inv r by (simp add: dlq_inv_def in_retry_def drop_map [symmetric] sorted_wrt_drop del: drop_append map_append)
  moreover have "length (drop ?n ?all) \<le> dlqMaxEntries" by simp
  ultimately show ?thesis
    using inv r unfolding q by (auto simp: dlq_inv_def in_retry_def simp del: drop_append take_append)
qed

interpretation dlq: invariant_system dlq_init "dlq_step tel" dlq_inv for tel
proof unfold_locales
  fix s l t assume "dlq_inv s" "dlq_step tel s l t"
  from this(2,1) show "dlq_inv t"
    by cases (simp_all only: dlq_inv_enqueue dlq_inv_tick dlq_inv_attempt dlq_inv_merge)
qed (rule dlq_inv_init)

section \<open>The queue and its metrics\<close>

definition dlq_counted :: "telemetry \<Rightarrow> nat \<Rightarrow> dlq_sys \<Rightarrow> bool" where
  "dlq_counted t restored s \<longleftrightarrow> instruments_ok t
     \<and> counter_value (DLQEnqueuedTotal t) [(''reason'', ''forward_failed'')] (ds_sdk s) + restored = length (ds_enqueued s)
     \<and> counter_value (DLQFlushedTotal t) [(''outcome'', ''success'')] (ds_sdk s) = length (ds_flushed s)
     \<and> counter_value (DLQDroppedTotal t) [(''reason'', ''fifo_evict'')] (ds_sdk s)
       + counter_value (DLQDroppedTotal t) [(''reason'', ''max_attempts_exceeded'')] (ds_sdk s) = length (ds_dropped s)"

lemma counters_enqueue:
  assumes "enqueueDLQ (Some t) now td (q, k) = (q', k')" "instruments_ok t"
  shows "counter_value (DLQEnqueuedTotal t) [(''reason'', ''forward_failed'')] k' = counter_value (DLQEnqueuedTotal t) [(''reason'', ''forward_failed'')] k + 1"
    "counter_value (DLQFlushedTotal t) l k' = counter_value (DLQFlushedTotal t) l k"
    "counter_value (DLQDroppedTotal t) [(''reason'', ''fifo_evict'')] k' =
       counter_value (DLQDroppedTotal t) [(''reason'', ''fifo_evict'')] k + (if length q \<ge> dlqMaxEntries then 1 else 0)"
    "counter_value (DLQDroppedTotal t) [(''reason'', ''max_attempts_exceeded'')] k' = counter_value (DLQDroppedTotal t) [(''reason'', ''max_attempts_exceeded'')] k"
  using assms by (auto simp: enqueueDLQ_def RecordDLQDropped_def RecordDLQEnqueued_def instruments_ok_def split: if_splits)

lemma counters_retry:
  assumes "retryEntry (Some t) err e (still, k) = (still', k')" "instruments_ok t"
  shows "counter_value (DLQEnqueuedTotal t) l k' = counter_value (DLQEnqueuedTotal t) l k"
    "counter_value (DLQFlushedTotal t) [(''outcome'', ''success'')] k' =
       counter_value (DLQFlushedTotal t) [(''outcome'', ''success'')] k + (if err = None then 1 else 0)"
    "counter_value (DLQDroppedTotal t) [(''reason'', ''fifo_evict'')] k' = counter_value (DLQDroppedTotal t) [(''reason'', ''fifo_evict'')] k"
    "counter_value (DLQDroppedTotal t) [(''reason'', ''max_attempts_exceeded'')] k' =
       counter_value (DLQDroppedTotal t) [(''reason'', ''max_attempts_exceeded'')] k + (if err \<noteq> None \<and> length still' = length still then 1 else 0)"
  using assms by (auto simp: retryEntry_def RecordDLQDropped_def RecordDLQFlushed_def instruments_ok_def Let_def split: if_splits)

lemma dlq_counted_init:
  "dlq_init s \<and> instruments_ok t \<and> length (ds_queue s) = restored \<Longrightarrow> dlq_counted t restored s"
  by (simp add: dlq_counted_def dlq_init_def counter_value_def)

lemma dlq_counted_step:
  assumes inv: "dlq_counted t restored s" and step: "dlq_step (Some t) s l s'"
  shows "dlq_counted t restored s'"
proof -
  have ok: "instruments_ok t" using inv by (simp add: dlq_counted_def)
  from step show ?thesis
  proof cases
    case (dlq_enqueue now td q k)
    note c = counters_enqueue [OF dlq_enqueue(4) ok]
    show ?thesis using inv dlq_enqueue(2) by (simp add: dlq_counted_def c)
  next
    case dlq_tick
    then show ?thesis using inv by (simp add: dlq_counted_def)
  next
    case (dlq_attempt e pending still err still' k)
    note c = counters_retry [OF dlq_attempt(4) ok]
    show ?thesis using inv dlq_attempt(2) by (simp add: dlq_counted_def c)
  next
    case (dlq_merge still)
    then show ?thesis using inv by (simp add: dlq_counted_def)
  qed
qed

interpretation dlq_metrics: invariant_system
  "\<lambda>s. dlq_init s \<and> instruments_ok t \<and> length (ds_queue s) = restored" "dlq_step (Some t)" "dlq_counted t restored"
  for t restored
  by unfold_locales (auto intro: dlq_counted_step dlq_counted_init)

section \<open>Rounds of retrying\<close>

fun drain_rounds :: "telemetry option \<Rightarrow> (nat \<Rightarrow> nat \<Rightarrow> traces \<Rightarrow> forward_error option) \<Rightarrow> nat \<Rightarrow> retry_state \<Rightarrow> retry_state" where
  "drain_rounds tel sends 0 s = s"
| "drain_rounds tel sends (Suc n) s = drain_rounds tel sends n (drainDLQOnce tel (sends n) s)"

lemma survivors_attempts:
  "(\<And>e. e \<in> set es \<Longrightarrow> a \<le> de_attempts e) \<Longrightarrow> e \<in> set (survivors send i es) \<Longrightarrow> a + 1 \<le> de_attempts e \<and> de_attempts e < 5"
  by (induction es arbitrary: i) (auto simp: retried_def dlqRetryMaxAttempts_def split: if_splits)

lemma drain_rounds_empty:
  assumes "length q \<le> dlqMaxEntries" "\<And>e. e \<in> set q \<Longrightarrow> 5 - int n \<le> de_attempts e" "0 < n"
  shows "fst (drain_rounds tel sends n (q, k, sent)) = []"
  using assms
proof (induction n arbitrary: q k sent)
  case (Suc n)
  obtain q' k' sent' where d: "drainDLQOnce tel (sends n) (q, k, sent) = (q', k', sent')" by (metis surj_pair)
  have q': "q' = survivors (sends n) (length sent) q" using drainDLQOnce_queue [OF Suc.prems(1), of tel "sends n" k sent] d by simp
  have att: "5 - int n \<le> de_attempts e \<and> de_attempts e < 5" if "e \<in> set q'" for e
    using survivors_attempts [of q "5 - int (Suc n)" e "sends n" "length sent"] Suc.prems(2) that q' by simp
  show ?case
  proof (cases "n = 0")
    case True
    then have "q' = []" using att by (cases q') force+
    then show ?thesis using d True by simp
  next
    case False
    have "length q' \<le> dlqMaxEntries" using q' length_survivors [of "sends n" "length sent" q] Suc.prems(1) by simp
    from Suc.IH [OF this] att False d show ?thesis by simp
  qed
qed simp

section \<open>Properties\<close>

text \<open>
  C28: bounded and ordered under any interleaving. From any start with a restored queue, and
  whatever the order of failures coming in, ticks, attempts with any result and merges, the
  queue holds at most 32 entries, a running retry round at most 32 more, all of them oldest
  first (the entries of a running round before the newer ones in the queue), none with five
  or more failed attempts.
\<close>

theorem dlq_bounded_ordered:
  assumes "reaches (dlq_step tel) s0 s" and "dlq_init s0"
  shows "dlqSize (ds_queue s) \<le> 32 \<and> length (in_retry s) \<le> 32
    \<and> sorted (map de_enqueueAt (in_retry s @ ds_queue s))
    \<and> list_all (\<lambda>e. 0 \<le> de_attempts e \<and> de_attempts e < dlqRetryMaxAttempts) (in_retry s @ ds_queue s)"
  using dlq.inv_reaches [OF assms]
  by (auto simp: dlq_inv_def dlqSize_def dlqMaxEntries_def dlqRetryMaxAttempts_def list_all_iff)

text \<open>
  C27: no batch disappears unnoticed, except in the merge. In every reachable state the
  batches handed to the queue are exactly those still queued or being retried, those
  delivered, those dropped and those the merge after a retry round cut off; and the metrics
  agree: enqueued, flushed and dropped (by eviction or by too many attempts) count exactly the
  first, third and fourth of these. The merge cuts without counting.
\<close>

theorem dlq_conservation:
  assumes "reaches (dlq_step (Some t)) s0 s" and "dlq_init s0" and "instruments_ok t"
  shows "mset (ds_enqueued s) = mset (map de_td (in_retry s @ ds_queue s)) + mset (ds_flushed s) + mset (ds_dropped s) + mset (ds_merged s)
    \<and> counter_value (DLQEnqueuedTotal t) [(''reason'', ''forward_failed'')] (ds_sdk s) + length (ds_queue s0) = length (ds_enqueued s)
    \<and> counter_value (DLQFlushedTotal t) [(''outcome'', ''success'')] (ds_sdk s) = length (ds_flushed s)
    \<and> counter_value (DLQDroppedTotal t) [(''reason'', ''fifo_evict'')] (ds_sdk s)
      + counter_value (DLQDroppedTotal t) [(''reason'', ''max_attempts_exceeded'')] (ds_sdk s) = length (ds_dropped s)"
  using dlq.inv_reaches [OF assms(1,2)] dlq_metrics.inv_reaches [OF assms(1), of "length (ds_queue s0)"] assms(2,3)
  by (simp add: dlq_inv_def dlq_counted_def)

text \<open>
  Eviction takes the oldest. Enqueueing in any reachable state appends the new batch and
  keeps the 32 newest entries; what it drops was enqueued no later than anything it keeps.
\<close>

lemma dlq_drops_oldest:
  assumes "reaches (dlq_step tel) s0 s" and "dlq_init s0" and "dlq_step tel s (DlqEnqueue td) s'"
  shows "ds_queue s' = last_n 32 (ds_queue s @ [\<lparr>de_td = td, de_enqueueAt = ds_clock s', de_attempts = 0\<rparr>])
    \<and> (\<forall>old\<in>set (ds_queue s) - set (ds_queue s'). \<forall>e\<in>set (ds_queue s'). de_enqueueAt old \<le> de_enqueueAt e)"
proof -
  have inv: "dlq_inv s" using assms(1,2) by (rule dlq.inv_reaches)
  let ?e = "\<lparr>de_td = td, de_enqueueAt = ds_clock s', de_attempts = 0\<rparr>"
  let ?all = "ds_queue s @ [?e]"
  have le: "ds_clock s \<le> ds_clock s'" and q: "ds_queue s' = last_n 32 ?all"
    using assms(3) inv enqueueDLQ_queue [of "ds_queue s" tel "ds_clock s'" td "ds_sdk s"]
    by (auto elim!: dlq_enqueueE simp: dlq_inv_def dlqMaxEntries_def)
  have "sorted (map de_enqueueAt ?all)" using inv order_trans [OF _ le] by (simp add: dlq_inv_def sorted_append)
  then have "sorted (map de_enqueueAt (take (length ?all - 32) ?all) @ map de_enqueueAt (drop (length ?all - 32) ?all))"
    by (metis append_take_drop_id map_append)
  then have A: "\<forall>old\<in>set (take (length ?all - 32) ?all). \<forall>e\<in>set (last_n 32 ?all). de_enqueueAt old \<le> de_enqueueAt e"
    by (auto simp: sorted_append last_n_def)
  have B: "set (ds_queue s) \<subseteq> set (take (length ?all - 32) ?all) \<union> set (last_n 32 ?all)"
    unfolding last_n_def set_append [symmetric] append_take_drop_id by auto
  show ?thesis unfolding q
  proof (intro conjI refl ballI)
    fix old e assume "old \<in> set (ds_queue s) - set (last_n 32 ?all)" "e \<in> set (last_n 32 ?all)"
    with A B show "de_enqueueAt old \<le> de_enqueueAt e" by blast
  qed
qed

text \<open>
  C39: one undisturbed retry round delivers or counts. It sends every entry once, in order,
  and keeps, in order and with their attempt counted, exactly the entries whose attempt failed
  and was not their fifth.
\<close>

theorem drain_round:
  assumes "length q \<le> dlqMaxEntries"
  shows "fst (drainDLQOnce tel send (q, k, sent)) =
      map (\<lambda>(i, e). e\<lparr>de_attempts := de_attempts e + 1\<rparr>)
        (filter (\<lambda>(i, e). send i (de_td e) \<noteq> None \<and> de_attempts e + 1 < 5) (List.enumerate (length sent) q))
    \<and> snd (snd (drainDLQOnce tel send (q, k, sent))) =
      sent @ map (\<lambda>(i, e). (de_td e, send i (de_td e))) (List.enumerate (length sent) q)"
  using drainDLQOnce_queue [OF assms] drainDLQOnce_sent by (simp add: survivors_filter round_sends_def)

text \<open>
  C40: retrying ends. Five rounds without new failures empty the queue, whatever the backend
  answers: every entry has been delivered or given up after at most five attempts.
\<close>

theorem dlq_gives_up:
  assumes "length q \<le> dlqMaxEntries" and "list_all (\<lambda>e. 0 \<le> de_attempts e) q"
  shows "fst (drain_rounds tel sends 5 (q, k, sent)) = []"
  using assms by (intro drain_rounds_empty) (auto simp: list_all_iff)

definition example_sdk :: sdk where "example_sdk = \<lparr>sdk_adds = [], sdk_active = [], sdk_next = 0\<rparr>"

definition example_entry :: "nat \<Rightarrow> dlq_entry" where
  "example_entry n = \<lparr>de_td = [], de_enqueueAt = int n, de_attempts = int n\<rparr>"

theorem drain_round_witness:
  "fst (drainDLQOnce None (\<lambda>i td. if i = 1 then None else Some (FwdPost ''x'')) ([example_entry 0, example_entry 1, example_entry 4], example_sdk, []))
    = [(example_entry 0)\<lparr>de_attempts := 1\<rparr>]"
  using drain_round [of "[example_entry 0, example_entry 1, example_entry 4]" None "\<lambda>i td. if i = 1 then None else Some (FwdPost ''x'')" example_sdk "[]"]
  by (simp add: dlqMaxEntries_def example_entry_def)

theorem dlq_gives_up_witness:
  "fst (drain_rounds None (\<lambda>n i td. Some (FwdPost ''x'')) 5 ([example_entry 0, example_entry 1], example_sdk, [])) = []"
  by (rule dlq_gives_up) (simp_all add: dlqMaxEntries_def example_entry_def)

definition example_dlq :: dlq_sys where
  "example_dlq = \<lparr>ds_queue = [], ds_retry = None, ds_sdk = example_sdk, ds_clock = 0, ds_enqueued = [], ds_flushed = [], ds_dropped = [], ds_merged = []\<rparr>"

definition example_dlq1 :: dlq_sys where
  "example_dlq1 = example_dlq\<lparr>ds_queue := [\<lparr>de_td = [], de_enqueueAt = 7, de_attempts = 0\<rparr>], ds_clock := 7, ds_enqueued := [[]]\<rparr>"

lemma example_dlq_init: "dlq_init example_dlq"
  by (simp add: dlq_init_def example_dlq_def example_sdk_def)

lemma example_dlq_step: "dlq_step None example_dlq (DlqEnqueue []) example_dlq1"
  using dlq_enqueue [of example_dlq 7 None "[]" "[\<lparr>de_td = [], de_enqueueAt = 7, de_attempts = 0\<rparr>]" example_sdk]
  by (simp add: example_dlq_def example_dlq1_def enqueueDLQ_def dlqMaxEntries_def RecordDLQEnqueued_def)

lemma example_dlq_reaches: "reaches (dlq_step None) example_dlq example_dlq1"
  by (rule reaches_step [OF reaches_refl]) (rule example_dlq_step)

theorem dlq_bounded_ordered_witness: "dlqSize (ds_queue example_dlq1) \<le> 32"
  using dlq_bounded_ordered [OF example_dlq_reaches example_dlq_init] by simp

theorem dlq_conservation_witness:
  "counter_value ''d'' [(''reason'', ''fifo_evict'')] (ds_sdk example_dlq) = 0"
  using dlq_conservation [OF reaches_refl [of _ example_dlq] example_dlq_init,
      of "\<lparr>DLQEnqueuedTotal = ''e'', DLQDroppedTotal = ''d'', DLQFlushedTotal = ''f'', CircuitBreakerOpenTotal = ''c'',
          TriggerFiredTotal = ''t'', DLQSize = ''s'', dlqSizeRegistration = None\<rparr>"]
  by (simp add: instruments_ok_def example_dlq_def)

end
