(* ===== verification/Dlq_Persister.thy ===== *)
theory Dlq_Persister
  imports Dlq
begin

unbundle bit_operations_syntax

text \<open>
  The persistence of the dead-letter queue, \<open>processor/incidentaryprocessor/dlq_persister.go\<close>.
  The file system is a finite map from paths to contents. Every system call can fail:
  \<open>faults\<close> says which step of a save fails and with what message; a failed write leaves the
  file as it was before that write. Reading a file fails only at its end. The protobuf codec
  belongs to the collector's \<open>pdata\<close> and is the pair of parameters \<open>marshal\<close> and
  \<open>unmarshal\<close>; the name \<open>os.CreateTemp\<close> picks is the parameter \<open>tmpPath\<close>.
\<close>

type_synonym filesystem = "(string, byte list) fmap"

section \<open>Big-endian integers\<close>

definition PutUint32 :: "32 word \<Rightarrow> byte list" where
  "PutUint32 v = [ucast (drop_bit 24 v), ucast (drop_bit 16 v), ucast (drop_bit 8 v), ucast v]"

definition Uint32 :: "byte list \<Rightarrow> 32 word" where
  "Uint32 b = ucast (b ! 3) OR push_bit 8 (ucast (b ! 2)) OR push_bit 16 (ucast (b ! 1)) OR push_bit 24 (ucast (b ! 0))"

definition PutUint64 :: "64 word \<Rightarrow> byte list" where
  "PutUint64 v = [ucast (drop_bit 56 v), ucast (drop_bit 48 v), ucast (drop_bit 40 v), ucast (drop_bit 32 v),
                  ucast (drop_bit 24 v), ucast (drop_bit 16 v), ucast (drop_bit 8 v), ucast v]"

definition Uint64 :: "byte list \<Rightarrow> 64 word" where
  "Uint64 b = ucast (b ! 7) OR push_bit 8 (ucast (b ! 6)) OR push_bit 16 (ucast (b ! 5)) OR push_bit 24 (ucast (b ! 4))
     OR push_bit 32 (ucast (b ! 3)) OR push_bit 40 (ucast (b ! 2)) OR push_bit 48 (ucast (b ! 1)) OR push_bit 56 (ucast (b ! 0))"

text \<open>A fixed-width encoding, and what reading it back from a longer text gives.\<close>

locale fixed_codec =
  fixes enc :: "'a \<Rightarrow> byte list" and dec :: "byte list \<Rightarrow> 'a" and width :: nat
  assumes length_enc: "length (enc x) = width"
    and dec_enc: "dec (enc x) = x"
begin

lemma take_enc: "take width (enc x @ rest) = enc x" "drop width (enc x @ rest) = rest"
  by (simp_all add: length_enc)

lemma enc_inj: "enc x = enc y \<longleftrightarrow> x = y"
  by (metis dec_enc)

lemma dec_take: "dec (take width (enc x @ rest)) = x"
  by (simp only: take_enc dec_enc)

end

text \<open>One byte of a word, moved back to its place.\<close>

lemma bit_chunk:
  "bit (push_bit k (ucast (ucast (drop_bit k v) :: byte)) :: 'a::len word) n \<longleftrightarrow>
    k \<le> n \<and> n < k + 8 \<and> bit (v :: 'a word) n"
  by (auto simp: bit_simps dest: bit_imp_le_length)

lemma bit_chunk_0: "bit (ucast (ucast v :: byte) :: 'a::len word) n \<longleftrightarrow> n < 8 \<and> bit (v :: 'a word) n"
  by (auto simp: bit_simps dest: bit_imp_le_length)

interpretation be32: fixed_codec PutUint32 Uint32 4
proof
  fix v :: "32 word"
  show "length (PutUint32 v) = 4" by (simp add: PutUint32_def)
  show "Uint32 (PutUint32 v) = v"
  proof (rule bit_word_eqI)
    fix n assume "n < LENGTH(32)"
    then have "n < 8 \<or> 8 \<le> n \<and> n < 8 + 8 \<or> 16 \<le> n \<and> n < 16 + 8 \<or> 24 \<le> n \<and> n < 24 + (8 :: nat)" by simp linarith
    then show "bit (Uint32 (PutUint32 v)) n = bit v n"
      by (simp only: Uint32_def PutUint32_def nth_Cons_0 nth_Cons_numeral nth_Cons_Suc numeral_3_eq_3 numeral_2_eq_2 One_nat_def
          bit_or_iff bit_chunk bit_chunk_0) blast
  qed
qed

interpretation be64: fixed_codec PutUint64 Uint64 8
proof
  fix v :: "64 word"
  show "length (PutUint64 v) = 8" by (simp add: PutUint64_def)
  have nth: "PutUint64 v ! 7 = ucast v" "PutUint64 v ! 6 = ucast (drop_bit 8 v)" "PutUint64 v ! 5 = ucast (drop_bit 16 v)"
    "PutUint64 v ! 4 = ucast (drop_bit 24 v)" "PutUint64 v ! 3 = ucast (drop_bit 32 v)" "PutUint64 v ! 2 = ucast (drop_bit 40 v)"
    "PutUint64 v ! 1 = ucast (drop_bit 48 v)" "PutUint64 v ! 0 = ucast (drop_bit 56 v)"
    by (simp_all add: PutUint64_def)
  show "Uint64 (PutUint64 v) = v"
  proof (rule bit_word_eqI)
    fix n assume "n < LENGTH(64)"
    then have "n < 8 \<or> 8 \<le> n \<and> n < 8 + 8 \<or> 16 \<le> n \<and> n < 16 + 8 \<or> 24 \<le> n \<and> n < 24 + 8 \<or> 32 \<le> n \<and> n < 32 + 8
        \<or> 40 \<le> n \<and> n < 40 + 8 \<or> 48 \<le> n \<and> n < 48 + 8 \<or> 56 \<le> n \<and> n < 56 + (8 :: nat)" by simp linarith
    then show "bit (Uint64 (PutUint64 v)) n = bit v n"
      by (simp only: Uint64_def nth bit_or_iff bit_chunk bit_chunk_0) blast
  qed
qed

section \<open>Saving\<close>

datatype io_step =
    IoCreateTemp | IoWriteHeader | IoWriteRecHeader nat | IoWritePayload nat | IoSync | IoClose | IoRename | IoRemove

type_synonym io_faults = "io_step \<Rightarrow> string option"

datatype save_error =
    SaveEmptyPath | SaveCreateTmp string | SaveWriteHeader string | SaveMarshal string
  | SaveWriteRecHeader string | SaveWritePayload string | SaveSync string | SaveClose string | SaveRename string

text \<open>\<open>os.Remove\<close>, whose error the code ignores.\<close>

definition os_Remove :: "io_faults \<Rightarrow> string \<Rightarrow> filesystem \<Rightarrow> filesystem" where
  "os_Remove faults p fs = (case faults IoRemove of None \<Rightarrow> fmdrop p fs | Some err \<Rightarrow> fs)"

definition write_file :: "string \<Rightarrow> byte list \<Rightarrow> filesystem \<Rightarrow> filesystem" where
  "write_file p bs fs = fmupd p ((case fmlookup fs p of None \<Rightarrow> [] | Some old \<Rightarrow> old) @ bs) fs"

definition record_header :: "dlq_entry \<Rightarrow> byte list \<Rightarrow> byte list" where
  "record_header e buf =
     PutUint32 (of_nat (length buf)) @ PutUint64 (word_of_int (de_enqueueAt e)) @ PutUint32 (word_of_int (de_attempts e))"

text \<open>The loop over the entries; the number is the iteration, to say which write fails.\<close>

fun writeRecords :: "(traces \<Rightarrow> string + byte list) \<Rightarrow> io_faults \<Rightarrow> string \<Rightarrow> nat \<Rightarrow> dlq_entry list \<Rightarrow> filesystem
    \<Rightarrow> filesystem \<times> save_error option" where
  "writeRecords marshal faults tmpPath i [] fs = (fs, None)"
| "writeRecords marshal faults tmpPath i (e # entries) fs =
     (case marshal (de_td e) of
        Inl err \<Rightarrow> (fs, Some (SaveMarshal err))
      | Inr buf \<Rightarrow>
          (case faults (IoWriteRecHeader i) of
             Some err \<Rightarrow> (fs, Some (SaveWriteRecHeader err))
           | None \<Rightarrow>
               let fs1 = write_file tmpPath (record_header e buf) fs
               in (case faults (IoWritePayload i) of
                     Some err \<Rightarrow> (fs1, Some (SaveWritePayload err))
                   | None \<Rightarrow> writeRecords marshal faults tmpPath (i + 1) entries (write_file tmpPath buf fs1))))"

definition saveDLQ :: "(traces \<Rightarrow> string + byte list) \<Rightarrow> io_faults \<Rightarrow> string \<Rightarrow> string \<Rightarrow> dlq_entry list \<Rightarrow> filesystem
    \<Rightarrow> filesystem \<times> save_error option" where
  "saveDLQ marshal faults tmpPath path entries fs =
     (if path = [] then (fs, Some SaveEmptyPath)
      else if entries = [] then (os_Remove faults path fs, None)
      else (case faults IoCreateTemp of
              Some err \<Rightarrow> (fs, Some (SaveCreateTmp err))
            | None \<Rightarrow>
                let cleanup = os_Remove faults tmpPath;
                    fs1 = fmupd tmpPath [] fs;
                    header = 1 # PutUint64 (of_nat (length entries))
                in (case faults IoWriteHeader of
                      Some err \<Rightarrow> (cleanup fs1, Some (SaveWriteHeader err))
                    | None \<Rightarrow>
                (case writeRecords marshal faults tmpPath 0 entries (write_file tmpPath header fs1) of
                   (fs2, Some err) \<Rightarrow> (cleanup fs2, Some err)
                 | (fs2, None) \<Rightarrow>
                (case faults IoSync of
                   Some err \<Rightarrow> (cleanup fs2, Some (SaveSync err))
                 | None \<Rightarrow>
                (case faults IoClose of
                   Some err \<Rightarrow> (os_Remove faults tmpPath fs2, Some (SaveClose err))
                 | None \<Rightarrow>
                (case faults IoRename of
                   Some err \<Rightarrow> (os_Remove faults tmpPath fs2, Some (SaveRename err))
                 | None \<Rightarrow>
                     (fmupd path (case fmlookup fs2 tmpPath of Some bs \<Rightarrow> bs | None \<Rightarrow> []) (fmdrop tmpPath fs2), None))))))))"

section \<open>Loading\<close>

datatype read_error = EOF | UnexpectedEOF

text \<open>\<open>io.ReadFull\<close> of a buffer of the given length.\<close>

definition ReadFull :: "nat \<Rightarrow> byte list \<Rightarrow> read_error + (byte list \<times> byte list)" where
  "ReadFull n bs =
     (if n \<le> length bs then Inr (take n bs, drop n bs) else Inl (if bs = [] then EOF else UnexpectedEOF))"

datatype load_error =
    LoadOpen string | LoadHeader read_error | LoadVersion byte | LoadCount nat
  | LoadRecHeader nat read_error | LoadPayloadSize nat nat | LoadPayload nat read_error | LoadUnmarshal nat string

definition maxPayload :: nat where "maxPayload = 64 * 1024 * 1024"
definition maxCount :: nat where "maxCount = 1000000"

fun loadRecords :: "(byte list \<Rightarrow> string + traces) \<Rightarrow> nat \<Rightarrow> nat \<Rightarrow> byte list \<Rightarrow> dlq_entry list
    \<Rightarrow> dlq_entry list \<times> load_error option" where
  "loadRecords unmarshal i 0 f out = (out, None)"
| "loadRecords unmarshal i (Suc n) f out =
     (case ReadFull 16 f of
        Inl err \<Rightarrow> (out, Some (LoadRecHeader i err))
      | Inr (h, f1) \<Rightarrow>
          let payloadLen = unat (Uint32 (take 4 h));
              enqueueNs = sint (Uint64 (take 8 (drop 4 h)));
              attempts = uint (Uint32 (drop 12 h))
          in if payloadLen > maxPayload then (out, Some (LoadPayloadSize i payloadLen))
             else (case ReadFull payloadLen f1 of
                     Inl err \<Rightarrow> (out, Some (LoadPayload i err))
                   | Inr (payload, f2) \<Rightarrow>
                       (case unmarshal payload of
                          Inl err \<Rightarrow> (out, Some (LoadUnmarshal i err))
                        | Inr td \<Rightarrow>
                            loadRecords unmarshal (i + 1) n f2
                              (out @ [\<lparr>de_td = td, de_enqueueAt = enqueueNs, de_attempts = attempts\<rparr>]))))"

definition loadBytes :: "(byte list \<Rightarrow> string + traces) \<Rightarrow> byte list \<Rightarrow> dlq_entry list \<times> load_error option" where
  "loadBytes unmarshal f =
     (case ReadFull 9 f of
        Inl err \<Rightarrow> ([], Some (LoadHeader err))
      | Inr (header, f1) \<Rightarrow>
          if header ! 0 \<noteq> 1 then ([], Some (LoadVersion (header ! 0)))
          else let count = unat (Uint64 (drop 1 header))
               in if count > maxCount then ([], Some (LoadCount count))
                  else loadRecords unmarshal 0 count f1 [])"

definition loadDLQ :: "(byte list \<Rightarrow> string + traces) \<Rightarrow> string option \<Rightarrow> string \<Rightarrow> filesystem \<Rightarrow> dlq_entry list \<times> load_error option" where
  "loadDLQ unmarshal openFault path fs =
     (if path = [] then ([], None)
      else (case fmlookup fs path of
              None \<Rightarrow> ([], None)
            | Some f \<Rightarrow> (case openFault of Some err \<Rightarrow> ([], Some (LoadOpen err)) | None \<Rightarrow> loadBytes unmarshal f)))"

section \<open>The file format\<close>

definition record_bytes :: "dlq_entry \<times> byte list \<Rightarrow> byte list" where
  "record_bytes r = record_header (fst r) (snd r) @ snd r"

definition file_bytes :: "(dlq_entry \<times> byte list) list \<Rightarrow> byte list" where
  "file_bytes rs = 1 # PutUint64 (of_nat (length rs)) @ concat (map record_bytes rs)"

text \<open>The entries of a save, each with its encoding, when every entry can be encoded.\<close>

fun encode_all :: "(traces \<Rightarrow> string + byte list) \<Rightarrow> dlq_entry list \<Rightarrow> (dlq_entry \<times> byte list) list option" where
  "encode_all marshal [] = Some []"
| "encode_all marshal (e # es) =
     (case marshal (de_td e) of
        Inl err \<Rightarrow> None
      | Inr buf \<Rightarrow> (case encode_all marshal es of None \<Rightarrow> None | Some rs \<Rightarrow> Some ((e, buf) # rs)))"

lemma encode_all_fst: "encode_all marshal es = Some rs \<Longrightarrow> map fst rs = es"
  by (induction es arbitrary: rs) (auto split: sum.splits option.splits)

lemma encode_all_marshal: "encode_all marshal es = Some rs \<Longrightarrow> r \<in> set rs \<Longrightarrow> marshal (de_td (fst r)) = Inr (snd r)"
  by (induction es arbitrary: rs) (auto split: sum.splits option.splits)

lemma write_file_lookup: "fmlookup fs p = Some old \<Longrightarrow> fmlookup (write_file p bs fs) q = (if q = p then Some (old @ bs) else fmlookup fs q)"
  by (simp add: write_file_def)

lemma writeRecords_other:
  "q \<noteq> tmpPath \<Longrightarrow> fmlookup (fst (writeRecords marshal faults tmpPath i es fs)) q = fmlookup fs q"
  by (induction es arbitrary: i fs) (auto simp: write_file_def Let_def split: sum.split option.split)

lemma writeRecords_None:
  assumes "writeRecords marshal faults tmpPath i es fs = (fs', None)" "fmlookup fs tmpPath = Some old"
  obtains rs where "encode_all marshal es = Some rs" "fmlookup fs' tmpPath = Some (old @ concat (map record_bytes rs))"
proof -
  have "\<exists>rs. encode_all marshal es = Some rs \<and> fmlookup fs' tmpPath = Some (old @ concat (map record_bytes rs))"
    using assms
  proof (induction es arbitrary: i fs old)
    case (Cons e es)
    then obtain buf where buf: "marshal (de_td e) = Inr buf" by (auto split: sum.splits)
    let ?fs = "write_file tmpPath buf (write_file tmpPath (record_header e buf) fs)"
    have "writeRecords marshal faults tmpPath (i + 1) es ?fs = (fs', None)"
      using Cons.prems(1) buf by (auto simp: Let_def split: option.splits)
    moreover have "fmlookup ?fs tmpPath = Some (old @ record_bytes (e, buf))"
      using Cons.prems(2) by (simp add: write_file_def record_bytes_def)
    ultimately obtain rs where "encode_all marshal es = Some rs"
        "fmlookup fs' tmpPath = Some ((old @ record_bytes (e, buf)) @ concat (map record_bytes rs))"
      using Cons.IH by blast
    then show ?case using buf by simp
  qed simp
  then show ?thesis using that by blast
qed

lemma writeRecords_total:
  assumes "\<And>s. faults s = None" "encode_all marshal es = Some rs"
  shows "snd (writeRecords marshal faults tmpPath i es fs) = None"
  using assms(2)
proof (induction es arbitrary: i fs rs)
  case (Cons e es)
  then show ?case by (auto simp: assms(1) Let_def split: sum.splits option.splits)
qed simp

section \<open>What a save does to the file system\<close>

lemma saveDLQ_outcome:
  assumes "saveDLQ marshal faults tmpPath path entries fs = (fs', err)" "path \<noteq> []" "entries \<noteq> []" "tmpPath \<noteq> path"
  shows "(case err of
      None \<Rightarrow> (\<exists>rs. encode_all marshal entries = Some rs \<and> fmlookup fs' path = Some (file_bytes rs)) \<and> fmlookup fs' tmpPath = None
    | Some _ \<Rightarrow> fmlookup fs' path = fmlookup fs path
        \<and> (faults IoRemove = None \<longrightarrow> fmlookup fs tmpPath = None \<longrightarrow> fmlookup fs' tmpPath = None))"
    "q \<noteq> path \<Longrightarrow> q \<noteq> tmpPath \<Longrightarrow> fmlookup fs' q = fmlookup fs q"
proof -
  let ?header = "1 # PutUint64 (of_nat (length entries))"
  let ?fs1 = "write_file tmpPath ?header (fmupd tmpPath [] fs)"
  obtain fs2 err2 where w: "writeRecords marshal faults tmpPath 0 entries ?fs1 = (fs2, err2)" by fastforce
  have other: "fmlookup fs2 p = fmlookup fs p" if "p \<noteq> tmpPath" for p
    using writeRecords_other [OF that, of marshal faults 0 entries ?fs1] w that by (simp add: write_file_def)
  have full: "\<exists>rs. encode_all marshal entries = Some rs \<and> fmlookup fs2 tmpPath = Some (file_bytes rs)" if "err2 = None"
  proof -
    have "fmlookup ?fs1 tmpPath = Some ?header" by (simp add: write_file_def)
    with w that obtain rs where rs: "encode_all marshal entries = Some rs" "fmlookup fs2 tmpPath = Some (?header @ concat (map record_bytes rs))"
      using writeRecords_None by metis
    moreover have "length rs = length entries" using encode_all_fst [OF rs(1)] by (metis length_map)
    ultimately show ?thesis by (simp add: file_bytes_def)
  qed
  note defs = assms(1) [unfolded saveDLQ_def] assms(2-4)
  show "(case err of
      None \<Rightarrow> (\<exists>rs. encode_all marshal entries = Some rs \<and> fmlookup fs' path = Some (file_bytes rs)) \<and> fmlookup fs' tmpPath = None
    | Some _ \<Rightarrow> fmlookup fs' path = fmlookup fs path
        \<and> (faults IoRemove = None \<longrightarrow> fmlookup fs tmpPath = None \<longrightarrow> fmlookup fs' tmpPath = None))"
    using defs other [of path] full w
    by (auto simp: Let_def os_Remove_def write_file_def split: option.splits)
  show "fmlookup fs' q = fmlookup fs q" if "q \<noteq> path" "q \<noteq> tmpPath"
    using defs other [OF that(2)] w that
    by (auto simp: Let_def os_Remove_def write_file_def split: option.splits)
qed

lemma saveDLQ_succeeds:
  assumes "\<And>s. faults s = None" "encode_all marshal entries = Some rs" "path \<noteq> []"
  shows "snd (saveDLQ marshal faults tmpPath path entries fs) = None"
proof -
  let ?fs1 = "write_file tmpPath (1 # PutUint64 (of_nat (length entries))) (fmupd tmpPath [] fs)"
  obtain fs2 err2 where w: "writeRecords marshal faults tmpPath 0 entries ?fs1 = (fs2, err2)" by fastforce
  then have "err2 = None" using writeRecords_total [of faults marshal entries rs tmpPath 0 ?fs1] assms(1,2) by simp
  then show ?thesis using w assms(1,3) by (simp add: saveDLQ_def Let_def)
qed

section \<open>What a load reads back\<close>

definition good_record :: "(byte list \<Rightarrow> string + traces) \<Rightarrow> dlq_entry \<times> byte list \<Rightarrow> bool" where
  "good_record unmarshal r \<longleftrightarrow> length (snd r) \<le> maxPayload \<and> unmarshal (snd r) = Inr (de_td (fst r))
     \<and> 0 \<le> de_attempts (fst r) \<and> de_attempts (fst r) < 2 ^ 32
     \<and> min_i64 \<le> de_enqueueAt (fst r) \<and> de_enqueueAt (fst r) \<le> max_i64"

lemma length_record_header [simp]: "length (record_header e buf) = 16"
  by (simp add: record_header_def be32.length_enc be64.length_enc)

lemma record_header_parts:
  "take 4 (record_header e buf) = PutUint32 (of_nat (length buf))"
  "take 8 (drop 4 (record_header e buf)) = PutUint64 (word_of_int (de_enqueueAt e))"
  "drop 12 (record_header e buf) = PutUint32 (word_of_int (de_attempts e))"
  by (simp_all add: record_header_def be32.length_enc be64.length_enc)

lemma sint_i64: "min_i64 \<le> x \<Longrightarrow> x \<le> max_i64 \<Longrightarrow> sint (word_of_int x :: 64 word) = x"
  by (simp add: min_i64_def max_i64_def sint_word_ariths(1) signed_take_bit_int_eq_self sint_sbintrunc')

lemma good_fields:
  assumes "good_record unmarshal (e, buf)"
  shows "unat (Uint32 (take 4 (record_header e buf))) = length buf"
    "sint (Uint64 (take 8 (drop 4 (record_header e buf)))) = de_enqueueAt e"
    "uint (Uint32 (drop 12 (record_header e buf))) = de_attempts e"
  using assms unfolding record_header_parts be32.dec_enc be64.dec_enc
  by (simp_all add: good_record_def sint_i64 unat_of_nat maxPayload_def uint_word_of_int)

lemma ReadFull_append: "length a = n \<Longrightarrow> ReadFull n (a @ b) = Inr (a, b)"
  by (auto simp: ReadFull_def)

lemma ReadFull_short: "length f < n \<Longrightarrow> ReadFull n f = Inl (if f = [] then EOF else UnexpectedEOF)"
  by (simp add: ReadFull_def)

lemma loadRecords_good:
  assumes "good_record unmarshal r"
  shows "loadRecords unmarshal i (Suc n) (record_bytes r @ rest) out = loadRecords unmarshal (i + 1) n rest (out @ [fst r])"
proof (cases r)
  case (Pair e buf)
  have "ReadFull 16 (record_bytes r @ rest) = Inr (record_header e buf, buf @ rest)"
    unfolding Pair record_bytes_def by (simp add: ReadFull_append)
  moreover have "ReadFull (length buf) (buf @ rest) = Inr (buf, rest)" by (rule ReadFull_append) simp
  moreover have "length buf \<le> maxPayload" "unmarshal buf = Inr (de_td e)"
    using assms by (simp_all add: Pair good_record_def)
  ultimately show ?thesis using good_fields [of unmarshal e buf] assms Pair
    by (cases e) (simp add: Let_def)
qed

lemma loadRecords_all:
  "list_all (good_record unmarshal) rs \<Longrightarrow>
   loadRecords unmarshal i (length rs) (concat (map record_bytes rs) @ rest) out = (out @ map fst rs, None)"
proof (induction rs arbitrary: i out)
  case (Cons r rs)
  then show ?case
    using loadRecords_good [of unmarshal r i "length rs" "concat (map record_bytes rs) @ rest" out] by simp
qed simp

text \<open>The entries whose records lie completely within the first \<open>n\<close> bytes.\<close>

fun complete_entries :: "nat \<Rightarrow> (dlq_entry \<times> byte list) list \<Rightarrow> dlq_entry list" where
  "complete_entries n [] = []"
| "complete_entries n (r # rs) =
     (if length (record_bytes r) \<le> n then fst r # complete_entries (n - length (record_bytes r)) rs else [])"

lemma length_record_bytes: "length (record_bytes r) = 16 + length (snd r)"
  by (simp add: record_bytes_def)

lemma complete_entries_all: "length (concat (map record_bytes rs)) \<le> n \<Longrightarrow> complete_entries n rs = map fst rs"
  by (induction rs arbitrary: n) auto

lemma complete_entries_short: "n < 16 \<Longrightarrow> complete_entries n rs = []"
  by (cases rs) (simp_all add: length_record_bytes)

lemma loadRecords_cut:
  assumes "list_all (good_record unmarshal) rs" "n < length (concat (map record_bytes rs))"
  shows "\<exists>err. loadRecords unmarshal i (length rs) (take n (concat (map record_bytes rs))) out = (out @ complete_entries n rs, Some err)"
  using assms
proof (induction rs arbitrary: i n out)
  case (Cons r rs)
  obtain e buf where r: "r = (e, buf)" by fastforce
  let ?all = "concat (map record_bytes (r # rs))"
  have len: "length (record_bytes r) = 16 + length buf" by (simp add: r record_bytes_def)
  have all: "?all = record_header e buf @ buf @ concat (map record_bytes rs)" by (simp add: r record_bytes_def)
  consider "n < 16" | "16 \<le> n" "n < 16 + length buf" | "16 + length buf \<le> n" by linarith
  then show ?case
  proof cases
    case 1
    then have "length (take n ?all) < 16" by simp
    then have "loadRecords unmarshal i (length (r # rs)) (take n ?all) out
        = (out, Some (LoadRecHeader i (if take n ?all = [] then EOF else UnexpectedEOF)))"
      by (simp add: ReadFull_short del: take_eq_Nil)
    then show ?thesis using 1 by (simp add: complete_entries_short del: loadRecords.simps complete_entries.simps)
  next
    case 2
    have t: "take n ?all = record_header e buf @ take (n - 16) buf" unfolding all using 2 by simp
    have "ReadFull 16 (take n ?all) = Inr (record_header e buf, take (n - 16) buf)" unfolding t by (simp add: ReadFull_append)
    moreover have "length (take (n - 16) buf) < length buf" using 2 by simp
    ultimately have "loadRecords unmarshal i (length (r # rs)) (take n ?all) out
        = (out, Some (LoadPayload i (if take (n - 16) buf = [] then EOF else UnexpectedEOF)))"
      using Cons.prems(1) good_fields [of unmarshal e buf] by (simp add: r good_record_def ReadFull_short del: take_eq_Nil)
    then show ?thesis using 2 len by (simp del: loadRecords.simps)
  next
    case 3
    let ?n = "n - (16 + length buf)"
    have t: "take n ?all = record_bytes r @ take ?n (concat (map record_bytes rs))" using 3 by (simp add: r record_bytes_def)
    have g: "good_record unmarshal r" using Cons.prems(1) by simp
    have "list_all (good_record unmarshal) rs" "?n < length (concat (map record_bytes rs))"
      using Cons.prems 3 len by simp_all
    from Cons.IH [OF this, of "i + 1" "out @ [fst r]"] obtain err where
        "loadRecords unmarshal (i + 1) (length rs) (take ?n (concat (map record_bytes rs))) (out @ [fst r])
          = ((out @ [fst r]) @ complete_entries ?n rs, Some err)" by blast
    then have "loadRecords unmarshal i (length (r # rs)) (take n ?all) out = (out @ complete_entries n (r # rs), Some err)"
      using 3 len by (simp only: t length_Cons loadRecords_good [OF g]) simp
    then show ?thesis by blast
  qed
qed simp

text \<open>Good records in front of anything else are loaded, and loading goes on behind them.\<close>

lemma loadRecords_prefix:
  "list_all (good_record unmarshal) rs \<Longrightarrow>
   loadRecords unmarshal i (length rs + n) (concat (map record_bytes rs) @ f) out = loadRecords unmarshal (i + length rs) n f (out @ map fst rs)"
proof (induction rs arbitrary: i out)
  case (Cons r rs)
  then have "good_record unmarshal r" by simp
  from loadRecords_good [OF this] Cons show ?case by (simp del: loadRecords.simps(2))
qed simp

lemma loadBytes_header:
  assumes "length rs \<le> maxCount"
  shows "loadBytes unmarshal (1 # PutUint64 (of_nat (length rs)) @ f) = loadRecords unmarshal 0 (length rs) f []"
proof -
  have "ReadFull 9 ((1 # PutUint64 (of_nat (length rs))) @ f) = Inr (1 # PutUint64 (of_nat (length rs)), f)"
    by (rule ReadFull_append) (simp add: be64.length_enc)
  moreover have "unat (of_nat (length rs) :: 64 word) = length rs"
    using assms by (simp add: unat_of_nat maxCount_def)
  ultimately show ?thesis using assms by (simp add: loadBytes_def be64.dec_enc)
qed

lemma loadBytes_file:
  assumes "list_all (good_record unmarshal) rs" "length rs \<le> maxCount"
  shows "loadBytes unmarshal (file_bytes rs @ rest) = (map fst rs, None)"
  using loadRecords_all [OF assms(1), of 0 rest "[]"] loadBytes_header [OF assms(2)]
  by (simp add: file_bytes_def)

lemma loadBytes_cut:
  assumes good: "list_all (good_record unmarshal) rs" "length rs \<le> maxCount" and n: "n < length (file_bytes rs)"
  shows "\<exists>err. loadBytes unmarshal (take n (file_bytes rs)) = (complete_entries (n - 9) rs, Some err)"
proof (cases "n < 9")
  case True
  then have "length (take n (file_bytes rs)) < 9" by simp
  then have "loadBytes unmarshal (take n (file_bytes rs)) = ([], Some (LoadHeader (if take n (file_bytes rs) = [] then EOF else UnexpectedEOF)))"
    by (simp add: loadBytes_def ReadFull_short del: take_eq_Nil)
  then show ?thesis using True by (simp add: complete_entries_short)
next
  case False
  have f: "file_bytes rs = (1 # PutUint64 (of_nat (length rs))) @ concat (map record_bytes rs)" by (simp add: file_bytes_def)
  have h: "length (1 # PutUint64 (of_nat (length rs))) = 9" by (simp add: be64.length_enc)
  have t: "take n (file_bytes rs) = 1 # PutUint64 (of_nat (length rs)) @ take (n - 9) (concat (map record_bytes rs))"
    using False unfolding f take_append h by simp (simp add: be64.length_enc)
  have "n - 9 < length (concat (map record_bytes rs))" using n False unfolding f length_append h by linarith
  from loadRecords_cut [OF good(1) this, of 0 "[]"] show ?thesis
    unfolding t loadBytes_header [OF good(2)] by simp
qed

text \<open>Loaded attempt counts are unsigned.\<close>

lemma loadRecords_attempts:
  "\<forall>e\<in>set out. 0 \<le> de_attempts e \<Longrightarrow> \<forall>e\<in>set (fst (loadRecords unmarshal i n f out)). 0 \<le> de_attempts e"
  by (induction unmarshal i n f out rule: loadRecords.induct) (simp add: Let_def split: sum.split prod.split)+

lemma loadDLQ_attempts: "e \<in> set (fst (loadDLQ unmarshal openFault path fs)) \<Longrightarrow> 0 \<le> de_attempts e"
  using loadRecords_attempts [of "[]" unmarshal 0]
  by (auto simp: loadDLQ_def loadBytes_def Let_def split: if_splits option.splits sum.splits)

lemma encodable: "list_all (\<lambda>e. \<exists>buf. marshal (de_td e) = Inr buf \<and> good_record unmarshal (e, buf)) entries \<Longrightarrow>
    \<exists>rs. encode_all marshal entries = Some rs \<and> list_all (good_record unmarshal) rs"
  by (induction entries) auto

lemma encodable_any: "list_all (\<lambda>e. \<exists>buf. marshal (de_td e) = Inr buf) entries \<Longrightarrow> \<exists>rs. encode_all marshal entries = Some rs"
  by (induction entries) auto

lemma encode_all_append:
  "encode_all marshal es = Some rs \<Longrightarrow> encode_all marshal es' = Some rs' \<Longrightarrow> encode_all marshal (es @ es') = Some (rs @ rs')"
  by (induction es arbitrary: rs) (auto split: sum.splits option.splits)

lemma loadRecords_oversized:
  assumes "maxPayload < length buf" "length buf < 2 ^ 32"
  shows "loadRecords unmarshal i (Suc n) (record_bytes (e, buf) @ f) out = (out, Some (LoadPayloadSize i (length buf)))"
proof -
  have "ReadFull 16 (record_header e buf @ buf @ f) = Inr (record_header e buf, buf @ f)"
    by (rule ReadFull_append) simp
  moreover have "unat (Uint32 (take 4 (record_header e buf))) = length buf"
    using assms unfolding record_header_parts be32.dec_enc by (simp add: unat_of_nat)
  ultimately show ?thesis using assms(1) by (simp add: record_bytes_def)
qed

text \<open>
  Saving and loading, whatever fails on the way: either the queue comes back, or the save
  has failed and what comes back is the file from before.
\<close>

lemma save_then_load:
  assumes "path \<noteq> []" "tmpPath \<noteq> path" "length entries \<le> maxCount"
    and enc: "list_all (\<lambda>e. \<exists>buf. marshal (de_td e) = Inr buf \<and> good_record unmarshal (e, buf)) entries"
    and s: "saveDLQ marshal faults tmpPath path entries fs = (fs', err)"
  shows "loadDLQ unmarshal None path fs' = (entries, None)
    \<or> (\<exists>step. faults step \<noteq> None) \<and> fmlookup fs' path = fmlookup fs path"
proof (cases "entries = []")
  case True
  then have "fs' = os_Remove faults path fs" using s assms(1) by (simp add: saveDLQ_def)
  then show ?thesis using True assms(1) by (cases "faults IoRemove") (auto simp: os_Remove_def loadDLQ_def)
next
  case False
  obtain rs where rs: "encode_all marshal entries = Some rs" "list_all (good_record unmarshal) rs" using encodable [OF enc] by blast
  have m: "map fst rs = entries" by (rule encode_all_fst [OF rs(1)])
  have len: "length rs \<le> maxCount" using arg_cong [OF m, of length] assms(3) by simp
  show ?thesis
  proof (cases err)
    case None
    with saveDLQ_outcome(1) [OF s assms(1) False assms(2)] rs(1) have "fmlookup fs' path = Some (file_bytes rs)" by simp
    then show ?thesis using loadBytes_file [OF rs(2) len, of "[]"] m assms(1) by (simp add: loadDLQ_def)
  next
    case (Some e)
    have "\<exists>step. faults step \<noteq> None"
    proof (rule ccontr)
      assume "\<nexists>step. faults step \<noteq> None"
      then have "snd (saveDLQ marshal faults tmpPath path entries fs) = None" by (intro saveDLQ_succeeds [OF _ rs(1) assms(1)]) blast
      then show False using s Some by simp
    qed
    then show ?thesis using saveDLQ_outcome(1) [OF s assms(1) False assms(2)] Some by simp
  qed
qed

lemma save_load:
  assumes "path \<noteq> []" and "tmpPath \<noteq> path" and "length entries \<le> maxCount"
    and "list_all (\<lambda>e. \<exists>buf. marshal (de_td e) = Inr buf \<and> good_record unmarshal (e, buf)) entries"
  shows "snd (saveDLQ marshal (\<lambda>_. None) tmpPath path entries fs) = None
    \<and> loadDLQ unmarshal None path (fst (saveDLQ marshal (\<lambda>_. None) tmpPath path entries fs)) = (entries, None)"
proof -
  obtain rs where rs: "encode_all marshal entries = Some rs" using encodable [OF assms(4)] by blast
  obtain fs' err where s: "saveDLQ marshal (\<lambda>_. None) tmpPath path entries fs = (fs', err)" by fastforce
  have "err = None"
    using saveDLQ_succeeds [OF _ rs assms(1), of "\<lambda>_. None" tmpPath fs] s by simp
  then show ?thesis using save_then_load [OF assms s] s by simp
qed

section \<open>Properties\<close>

text \<open>
  C29: a restart keeps the queue. When no system call fails, saving a queue and loading it
  again gives back exactly the queue, batches, times and attempt counts, and no error;
  provided every batch has an encoding of at most 64 MB that decodes to it and the queue
  has at most a million entries.
\<close>

theorem save_load_roundtrip:
  assumes "path \<noteq> []" and "tmpPath \<noteq> path" and "length entries \<le> maxCount"
    and "list_all (\<lambda>e. \<exists>buf. marshal (de_td e) = Inr buf \<and> good_record unmarshal (e, buf)) entries"
  shows "snd (saveDLQ marshal (\<lambda>_. None) tmpPath path entries fs) = None
    \<and> loadDLQ unmarshal None path (fst (saveDLQ marshal (\<lambda>_. None) tmpPath path entries fs)) = (entries, None)"
  by (rule save_load [OF assms])

text \<open>
  C30: a save is atomic. Whatever system call fails and at whatever point, the queue file is
  afterwards either untouched, and then the save has reported an error, or it holds the
  complete new contents, and then it has not; no other file changes, and the temporary file
  is gone when it can be removed.
\<close>

theorem save_atomic:
  assumes "path \<noteq> []" and "entries \<noteq> []" and "tmpPath \<noteq> path" and "fmlookup fs tmpPath = None"
  shows "let (fs', err) = saveDLQ marshal faults tmpPath path entries fs in
    (case err of
       None \<Rightarrow> \<exists>rs. encode_all marshal entries = Some rs \<and> fmlookup fs' path = Some (file_bytes rs)
     | Some _ \<Rightarrow> fmlookup fs' path = fmlookup fs path)
    \<and> (q \<noteq> path \<and> (q \<noteq> tmpPath \<or> faults IoRemove = None) \<longrightarrow> fmlookup fs' q = fmlookup fs q)"
proof -
  obtain fs' err where s: "saveDLQ marshal faults tmpPath path entries fs = (fs', err)" by fastforce
  note out = saveDLQ_outcome [OF s assms(1-3)]
  show ?thesis unfolding s using out(1) out(2) [of q] assms(4)
    by (cases err; cases "q = tmpPath") auto
qed

text \<open>
  C32: a corrupt tail keeps the head. A saved file cut off after \<open>n\<close> bytes loads as exactly the
  entries whose records are complete within them (nine bytes being the file's header), in
  order, with an error unless nothing was cut; a complete file, with anything after it, loads without one.
\<close>

theorem load_truncated:
  assumes "list_all (good_record unmarshal) rs" and "length rs \<le> maxCount"
  shows "fst (loadBytes unmarshal (take n (file_bytes rs))) = complete_entries (n - 9) rs
    \<and> (snd (loadBytes unmarshal (take n (file_bytes rs))) = None \<longleftrightarrow> length (file_bytes rs) \<le> n)
    \<and> loadBytes unmarshal (file_bytes rs @ rest) = (map fst rs, None)"
proof (cases "n < length (file_bytes rs)")
  case True
  from loadBytes_cut [OF assms True] obtain err where
    "loadBytes unmarshal (take n (file_bytes rs)) = (complete_entries (n - 9) rs, Some err)" by blast
  with True loadBytes_file [OF assms] show ?thesis by simp
next
  case False
  then have "take n (file_bytes rs) = file_bytes rs @ []" by simp
  moreover have "complete_entries (n - 9) rs = map fst rs"
    using False by (intro complete_entries_all) (simp add: file_bytes_def be64.length_enc)
  ultimately show ?thesis using False loadBytes_file [OF assms] by (metis fst_conv not_less snd_conv)
qed

section \<open>Examples\<close>

text \<open>A codec for the empty batch alone, and a queue file in a directory with another file.\<close>

definition tiny_marshal :: "traces \<Rightarrow> string + byte list" where
  "tiny_marshal td = (if td = [] then Inr [42] else Inl ''unsupported'')"

definition tiny_unmarshal :: "byte list \<Rightarrow> string + traces" where
  "tiny_unmarshal bs = (if bs = [42] then Inr [] else Inl ''malformed'')"

lemma tiny_good: "good_record tiny_unmarshal (example_entry n, [42])" if "n < 5" for n
  using that by (simp add: good_record_def tiny_unmarshal_def example_entry_def maxPayload_def min_i64_def max_i64_def)

definition example_resource :: resource_spans where
  "example_resource = \<lparr>rs_Attributes = [], rs_rest = [], rs_SchemaUrl = [], rs_ScopeSpans = []\<rparr>"

theorem save_load_roundtrip_witness:
  "loadDLQ tiny_unmarshal None ''q'' (fst (saveDLQ tiny_marshal (\<lambda>_. None) ''t'' ''q'' [example_entry 1, example_entry 2] fmempty))
    = ([example_entry 1, example_entry 2], None)"
proof -
  have "list_all (\<lambda>e. \<exists>buf. tiny_marshal (de_td e) = Inr buf \<and> good_record tiny_unmarshal (e, buf)) [example_entry 1, example_entry 2]"
    using tiny_good [of 1] tiny_good [of 2] by (simp add: tiny_marshal_def) (simp add: example_entry_def)
  from save_load_roundtrip [OF _ _ _ this, of "''q''" "''t''" fmempty] show ?thesis by (simp add: maxCount_def)
qed

theorem save_atomic_witness:
  "fmlookup (fst (saveDLQ tiny_marshal (\<lambda>s. if s = IoSync then Some ''disk full'' else None) ''t'' ''q'' [example_entry 1] (fmupd ''q'' [7] fmempty))) ''q'' = Some [7]"
proof -
  have "snd (saveDLQ tiny_marshal (\<lambda>s. if s = IoSync then Some ''disk full'' else None) ''t'' ''q'' [example_entry 1] (fmupd ''q'' [7] fmempty)) = Some (SaveSync ''disk full'')"
    by (simp add: saveDLQ_def tiny_marshal_def example_entry_def Let_def)
  with save_atomic [of "''q''" "[example_entry 1]" "''t''" "fmupd ''q'' [7] fmempty" tiny_marshal "\<lambda>s. if s = IoSync then Some ''disk full'' else None" "''q''"]
  show ?thesis by (auto simp: Let_def split: prod.splits)
qed

theorem load_truncated_witness:
  "fst (loadBytes tiny_unmarshal (take 40 (file_bytes [(example_entry 1, [42]), (example_entry 2, [42])]))) = [example_entry 1]
    \<and> snd (loadBytes tiny_unmarshal (take 40 (file_bytes [(example_entry 1, [42]), (example_entry 2, [42])]))) \<noteq> None"
proof -
  let ?rs = "[(example_entry 1, [42 :: byte]), (example_entry 2, [42])]"
  have "list_all (good_record tiny_unmarshal) ?rs" using tiny_good [of 1] tiny_good [of 2] by simp
  from load_truncated [OF this, of 40 "[]"] show ?thesis
    by (simp add: maxCount_def length_record_bytes file_bytes_def be64.length_enc)
qed

text \<open>
  C31: saver and loader disagree on the size of a batch. The saver takes batches of any size,
  the loader refuses a payload of more than 64 MB. When a queue holds such a batch, the
  save reports success; loading then gives back only the entries before the batch, and fails
  with its position and size. The batch and everything after it, however small, are lost.
\<close>

theorem oversized_batch_not_loaded:
  assumes "path \<noteq> []" and "tmpPath \<noteq> path" and "length (good @ big # rest) \<le> maxCount"
    and "list_all (\<lambda>e. \<exists>buf. marshal (de_td e) = Inr buf \<and> good_record unmarshal (e, buf)) good"
    and "marshal (de_td big) = Inr buf" and "maxPayload < length buf" and "length buf < 2 ^ 32"
    and "list_all (\<lambda>e. \<exists>buf. marshal (de_td e) = Inr buf) rest"
  shows "snd (saveDLQ marshal (\<lambda>_. None) tmpPath path (good @ big # rest) fs) = None
    \<and> loadDLQ unmarshal None path (fst (saveDLQ marshal (\<lambda>_. None) tmpPath path (good @ big # rest) fs))
        = (good, Some (LoadPayloadSize (length good) (length buf)))"
proof -
  obtain rs1 where rs1: "encode_all marshal good = Some rs1" "list_all (good_record unmarshal) rs1" using encodable [OF assms(4)] by blast
  obtain rs2 where rs2: "encode_all marshal rest = Some rs2" using encodable_any [OF assms(8)] by blast
  let ?rs = "rs1 @ (big, buf) # rs2"
  have rs: "encode_all marshal (good @ big # rest) = Some ?rs" by (rule encode_all_append [OF rs1(1)]) (simp add: assms(5) rs2)
  have good: "map fst rs1 = good" "length rs1 = length good" using encode_all_fst [OF rs1(1)] by auto
  have len: "length ?rs \<le> maxCount" using assms(3) arg_cong [OF encode_all_fst [OF rs], of length] by simp
  obtain fs' err where s: "saveDLQ marshal (\<lambda>_. None) tmpPath path (good @ big # rest) fs = (fs', err)" by fastforce
  have e: "err = None" using saveDLQ_succeeds [OF _ rs assms(1), of "\<lambda>_. None" tmpPath fs] s by simp
  have written: "fmlookup fs' path = Some (file_bytes ?rs)"
    using saveDLQ_outcome(1) [OF s assms(1) _ assms(2)] rs e by simp
  have big: "loadRecords unmarshal (length good) (Suc (length rs2)) (record_bytes (big, buf) @ concat (map record_bytes rs2)) good
      = (good, Some (LoadPayloadSize (length good) (length buf)))"
    by (rule loadRecords_oversized [OF assms(6,7)])
  have "loadBytes unmarshal (file_bytes ?rs) = loadRecords unmarshal 0 (length ?rs) (concat (map record_bytes ?rs)) []"
    using loadBytes_header [OF len] by (simp only: file_bytes_def append_Cons)
  also have "\<dots> = loadRecords unmarshal (length good) (Suc (length rs2)) (record_bytes (big, buf) @ concat (map record_bytes rs2)) good"
    using loadRecords_prefix [OF rs1(2), of 0 "Suc (length rs2)" "record_bytes (big, buf) @ concat (map record_bytes rs2)" "[]"] good
    by (simp del: loadRecords.simps(2))
  finally show ?thesis using big written s e assms(1) by (simp add: loadDLQ_def del: loadRecords.simps(2))
qed

text \<open>A codec whose encoding of all batches but the empty one is too long by a byte.\<close>

definition wide_marshal :: "traces \<Rightarrow> string + byte list" where
  "wide_marshal td = Inr (if td = [] then [42] else replicate (Suc maxPayload) 0)"

theorem oversized_batch_not_loaded_witness:
  "loadDLQ tiny_unmarshal None ''q'' (fst (saveDLQ wide_marshal (\<lambda>_. None) ''t'' ''q''
      [example_entry 1, (example_entry 2)\<lparr>de_td := [example_resource]\<rparr>, example_entry 3] fmempty))
    = ([example_entry 1], Some (LoadPayloadSize 1 (Suc maxPayload)))"
proof -
  let ?big = "(example_entry 2)\<lparr>de_td := [example_resource]\<rparr>"
  have "list_all (\<lambda>e. \<exists>buf. wide_marshal (de_td e) = Inr buf \<and> good_record tiny_unmarshal (e, buf)) [example_entry 1]"
    using tiny_good [of 1] by (simp add: wide_marshal_def) (simp add: example_entry_def)
  moreover have "wide_marshal (de_td ?big) = Inr (replicate (Suc maxPayload) 0)" by (simp add: wide_marshal_def del: replicate_Suc)
  moreover have "Suc maxPayload < 2 ^ 32" by (simp add: maxPayload_def)
  ultimately show ?thesis
    using oversized_batch_not_loaded [of "''q''" "''t''" "[example_entry 1]" ?big "[example_entry 3]" wide_marshal tiny_unmarshal
        "replicate (Suc maxPayload) 0" fmempty]
    by (simp add: maxCount_def wide_marshal_def del: replicate_Suc)
qed

end
