(* ===== verification/Spans.thy ===== *)
theory Spans
  imports Pdata Windows Go_Net "HOL-Library.Multiset"
begin

unbundle bit_operations_syntax

text \<open>
  The pure helpers of \<open>processor/incidentaryprocessor/processor.go\<close>: what the processor
  reads off a resource and a span, and how it separates the traces of a batch.
\<close>

section \<open>Attributes\<close>

definition serviceName :: "pdata_api \<Rightarrow> attrs \<Rightarrow> string" where
  "serviceName api as = (case attr_get as ''service.name'' of None \<Rightarrow> [] | Some v \<Rightarrow> api_AsString api v)"

definition mapSpanKind :: "span_kind \<Rightarrow> signal_kind" where
  "mapSpanKind k = (case k of SpanKindServer \<Rightarrow> SignalServer | SpanKindClient \<Rightarrow> SignalClient | _ \<Rightarrow> SignalOther)"

text \<open>
  \<open>fmt.Sscanf(s, "%d", &n)\<close>: skip white space (a newline is an error), an optional sign,
  decimal digits, a value of 64 bits; what follows is not read. \<open>None\<close> is an error, which
  leaves \<open>n\<close> as it was. The white space is fmt's table, in UTF-8.
\<close>

definition space_runes :: "string list" where
  "space_runes = map (map char_of)
     ([[9], [11], [12], [13], [32], [194, 133], [194, 160], [225, 154, 128], [226, 128, 168], [226, 128, 169],
       [226, 128, 175], [226, 129, 159], [227, 128, 128]] @ map (\<lambda>b. [226, 128, b]) [128 ..< 139 :: nat])"

function skipSpace :: "string \<Rightarrow> string" where
  "skipSpace s = (case List.find (\<lambda>r. r \<noteq> [] \<and> has_prefix s r) space_runes of None \<Rightarrow> s | Some r \<Rightarrow> skipSpace (drop (length r) s))"
  by pat_completeness auto

fun dec_value :: "int \<Rightarrow> string \<Rightarrow> int" where
  "dec_value acc [] = acc"
| "dec_value acc (c # s) = dec_value (10 * acc + int (code c - 48)) s"

definition sscanf_d :: "string \<Rightarrow> int option" where
  "sscanf_d s =
     (let s1 = skipSpace s;
          (neg, s2) = (case s1 of c # r \<Rightarrow> if c = CHR ''+'' then (False, r) else if c = CHR ''-'' then (True, r) else (False, s1)
                       | [] \<Rightarrow> (False, []));
          digits = takeWhile is_digit s2
      in if digits = [] then None
         else let v = (if neg then - dec_value 0 digits else dec_value 0 digits)
              in if min_i64 \<le> v \<and> v \<le> max_i64 then Some v else None)"

lemma has_prefix_length: "has_prefix s r \<Longrightarrow> length r \<le> length s"
  by (induction s r rule: has_prefix.induct) auto

termination skipSpace
proof (relation "measure length", simp)
  fix s r assume "List.find (\<lambda>r. r \<noteq> [] \<and> has_prefix s r) space_runes = Some r"
  then have "r \<noteq> []" "has_prefix s r" by (auto simp: find_Some_iff)
  with has_prefix_length [OF this(2)] show "(drop (length r) s, s) \<in> measure length"
    by (cases r) auto
qed

declare skipSpace.simps [simp del]

text \<open>One key of the loop of \<open>statusCode\<close>: \<open>Some\<close> when the loop returns.\<close>

definition status_of_key :: "attrs \<Rightarrow> string \<Rightarrow> int option" where
  "status_of_key as key =
     (case attr_get as key of
        Some (VInt n) \<Rightarrow> Some n
      | Some (VStr s) \<Rightarrow> (case sscanf_d s of None \<Rightarrow> None | Some n \<Rightarrow> if n > 0 then Some n else None)
      | _ \<Rightarrow> None)"

fun status_keys :: "attrs \<Rightarrow> string list \<Rightarrow> int option" where
  "status_keys as [] = None"
| "status_keys as (key # ks) = (case status_of_key as key of Some n \<Rightarrow> Some n | None \<Rightarrow> status_keys as ks)"

definition statusCode :: "span \<Rightarrow> int" where
  "statusCode sp =
     (case status_keys (sp_Attributes sp) [''http.response.status_code'', ''http.status_code'', ''rpc.grpc.status_code''] of
        Some n \<Rightarrow> n
      | None \<Rightarrow> if sp_Status sp = StatusCodeError then 500 else 0)"

fun getAttrString :: "pdata_api \<Rightarrow> attrs \<Rightarrow> string list \<Rightarrow> string" where
  "getAttrString api as [] = []"
| "getAttrString api as (k # ks) =
     (case attr_get as k of
        None \<Rightarrow> getAttrString api as ks
      | Some v \<Rightarrow> if api_AsString api v \<noteq> [] then api_AsString api v else getAttrString api as ks)"

definition fnv_offset :: "64 word" where "fnv_offset = 1469598103934665603"
definition fnv_prime :: "64 word" where "fnv_prime = 1099511628211"

definition fnv1a64 :: "string \<Rightarrow> 64 word" where
  "fnv1a64 s =
     (let h = fold (\<lambda>c h. (h XOR of_nat (code c)) * fnv_prime) s fnv_offset
      in if h = 0 then 1 else h)"

definition outboundRetryKey :: "pdata_api \<Rightarrow> span \<Rightarrow> 64 word" where
  "outboundRetryKey api sp =
     (let method = getAttrString api (sp_Attributes sp) [''http.request.method'', ''http.method''];
          server = getAttrString api (sp_Attributes sp) [''server.address''];
          path = getAttrString api (sp_Attributes sp) [''url.path'']
      in if method = [] \<and> server = [] \<and> path = [] then 0
         else fnv1a64 (method @ ''|'' @ server @ ''|'' @ path))"

section \<open>Traces\<close>

definition hex_digits :: string where "hex_digits = ''0123456789abcdef''"

definition traceIDHex :: "trace_id \<Rightarrow> string" where
  "traceIDHex tid = concat (map (\<lambda>b. [hex_digits ! unat (drop_bit 4 b), hex_digits ! unat (b AND 15)]) tid)"

text \<open>The keys of the map the code builds, in the order in which they are first added.\<close>

definition traceIDsInResource :: "resource_spans \<Rightarrow> trace_id list" where
  "traceIDsInResource rs = fold (\<lambda>sp out. if sp_TraceID sp \<in> set out then out else out @ [sp_TraceID sp]) (rs_spans rs) []"

definition isolateTrace :: "resource_spans \<Rightarrow> trace_id \<Rightarrow> resource_spans" where
  "isolateTrace rs tid =
     rs\<lparr>rs_ScopeSpans :=
       concat (map (\<lambda>scope.
         let spans = filter (\<lambda>sp. sp_TraceID sp = tid) (ss_Spans scope)
         in if spans = [] then [] else [scope\<lparr>ss_Spans := spans\<rparr>]) (rs_ScopeSpans rs))\<rparr>"

section \<open>Separating traces\<close>

lemma traceIDs_fold:
  "set (fold (\<lambda>sp out. if sp_TraceID sp \<in> set out then out else out @ [sp_TraceID sp]) sps out) = set out \<union> sp_TraceID ` set sps
   \<and> (distinct out \<longrightarrow> distinct (fold (\<lambda>sp out. if sp_TraceID sp \<in> set out then out else out @ [sp_TraceID sp]) sps out))"
  by (induction sps arbitrary: out) auto

lemma traceIDsInResource_set [simp]: "set (traceIDsInResource rs) = sp_TraceID ` set (rs_spans rs)"
  using traceIDs_fold [of "rs_spans rs" "[]"] by (simp add: traceIDsInResource_def)

lemma traceIDsInResource_distinct [simp]: "distinct (traceIDsInResource rs)"
  using traceIDs_fold [of "rs_spans rs" "[]"] by (simp add: traceIDsInResource_def)

lemma isolateTrace_spans: "rs_spans (isolateTrace rs tid) = filter (\<lambda>sp. sp_TraceID sp = tid) (rs_spans rs)"
proof -
  have "concat (map ss_Spans (concat (map (\<lambda>scope.
         let spans = filter (\<lambda>sp. sp_TraceID sp = tid) (ss_Spans scope)
         in if spans = [] then [] else [scope\<lparr>ss_Spans := spans\<rparr>]) scs)))
      = filter (\<lambda>sp. sp_TraceID sp = tid) (concat (map ss_Spans scs))" for scs
    by (induction scs) (simp_all add: Let_def)
  then show ?thesis by (simp add: isolateTrace_def rs_spans_def)
qed

lemma isolateTrace_resource [simp]:
  "rs_Attributes (isolateTrace rs tid) = rs_Attributes rs" "rs_rest (isolateTrace rs tid) = rs_rest rs"
  "rs_SchemaUrl (isolateTrace rs tid) = rs_SchemaUrl rs"
  by (simp_all add: isolateTrace_def)

lemma isolateTrace_nonempty: "scope \<in> set (rs_ScopeSpans (isolateTrace rs tid)) \<Longrightarrow> ss_Spans scope \<noteq> []"
  by (auto simp: isolateTrace_def Let_def split: if_splits)

lemma mset_by_key:
  "distinct ks \<Longrightarrow> f ` set xs \<subseteq> set ks \<Longrightarrow> (\<Sum>k\<leftarrow>ks. mset (filter (\<lambda>x. f x = k) xs)) = mset xs"
proof (induction ks arbitrary: xs)
  case (Cons k ks)
  have "(\<Sum>j\<leftarrow>ks. mset (filter (\<lambda>x. f x = j) xs)) = (\<Sum>j\<leftarrow>ks. mset (filter (\<lambda>x. f x = j) (filter (\<lambda>x. f x \<noteq> k) xs)))"
    using Cons.prems(1) by (intro arg_cong [where f = sum_list] map_cong refl arg_cong [where f = mset]) (auto intro!: filter_cong)
  also have "\<dots> = mset (filter (\<lambda>x. f x \<noteq> k) xs)"
    using Cons.prems by (intro Cons.IH) auto
  finally show ?case by (simp add: mset_filter multiset_partition [symmetric])
qed simp

section \<open>Properties\<close>

text \<open>
  C13: separating a resource into traces loses and mixes nothing. The parts that
  \<open>isolateTrace\<close> cuts out for the ids of \<open>traceIDsInResource\<close>, each id once, together hold
  exactly the spans of the resource; each part holds the spans of its trace in their order,
  under the attributes and schema of the resource, and each of its scopes is a scope of the
  resource that is not empty.
\<close>

theorem trace_separation:
  "(\<Sum>tid\<leftarrow>traceIDsInResource rs. mset (rs_spans (isolateTrace rs tid))) = mset (rs_spans rs)
   \<and> distinct (traceIDsInResource rs)
   \<and> (\<forall>tid. rs_spans (isolateTrace rs tid) = filter (\<lambda>sp. sp_TraceID sp = tid) (rs_spans rs)
        \<and> rs_Attributes (isolateTrace rs tid) = rs_Attributes rs \<and> rs_rest (isolateTrace rs tid) = rs_rest rs
        \<and> rs_SchemaUrl (isolateTrace rs tid) = rs_SchemaUrl rs
        \<and> list_all (\<lambda>scope. ss_Spans scope \<noteq> [] \<and> ss_Scope scope \<in> ss_Scope ` set (rs_ScopeSpans rs)) (rs_ScopeSpans (isolateTrace rs tid)))"
proof -
  have "(\<Sum>tid\<leftarrow>traceIDsInResource rs. mset (rs_spans (isolateTrace rs tid))) = mset (rs_spans rs)"
    unfolding isolateTrace_spans by (rule mset_by_key) simp_all
  moreover have "list_all (\<lambda>scope. ss_Spans scope \<noteq> [] \<and> ss_Scope scope \<in> ss_Scope ` set (rs_ScopeSpans rs)) (rs_ScopeSpans (isolateTrace rs tid))" for tid
    by (auto simp: list_all_iff isolateTrace_def Let_def split: if_splits)
  ultimately show ?thesis by (simp add: isolateTrace_spans)
qed

end
