(* ===== verification/Processor.thy ===== *)
theory Processor
  imports Ring Evaluator Trace_Breaker Config Forward Dlq Dlq_Persister Spans
begin

text \<open>
  The processor itself, \<open>processor/incidentaryprocessor/processor.go\<close>: it buffers every
  span, feeds the evaluator, flushes the traces of fired triggers through the forwarder, queues
  what the forwarder refuses, and persists that queue across restarts.

  An operation maps a processor and the world around it to their new values. \<open>env\<close> holds
  what the operations read and do not change: the parts that are not in the repository as
  functions, and the choices of the run-time system, the clock and the order of a \<open>range\<close> over
  a map. The clock is read by position: \<open>en_clock n\<close> is what the \<open>n\<close>-th reading returns.
\<close>

record env =
  en_arch :: goarch
  en_api :: pdata_api
  en_lookup :: "string \<Rightarrow> string list option"
  en_clock :: "nat \<Rightarrow> time"
  en_range :: "nat \<Rightarrow> trace_id list \<Rightarrow> trace_id list"
  en_newCore :: "core_config \<Rightarrow> string option"
  en_marshalJSON :: "traces \<Rightarrow> string + byte list"
  en_post :: "core_config \<Rightarrow> nat \<Rightarrow> duration option \<Rightarrow> byte list \<Rightarrow> string option"
  en_marshalProto :: "traces \<Rightarrow> string + byte list"
  en_unmarshalProto :: "byte list \<Rightarrow> string + traces"
  en_faults :: io_faults
  en_tmpPath :: string
  en_openFault :: "string option"

text \<open>
  The world: how often the clock was read and a map ranged over, every \<open>SendTraces\<close> with its
  result, every batch given to the next consumer, the metrics and the file system.
\<close>

record world =
  w_clock :: nat
  w_ranges :: nat
  w_sent :: "(traces \<times> forward_error option) list"
  w_passed :: "traces list"
  w_sdk :: sdk
  w_fs :: filesystem

text \<open>
  The next consumer answers its \<open>n\<close>-th call; the forwarder is the configuration of the core
  client it wraps; \<open>p_tickers\<close> says that the two tickers exist, \<open>p_stopped\<close> that
  \<open>stopOnce\<close> has run.
\<close>

record processor =
  p_cfg :: config
  p_buf :: ring
  p_evaluator :: evaluator
  p_fwd :: core_config
  p_next :: "(nat \<Rightarrow> traces \<Rightarrow> string option) option"
  p_tickers :: bool
  p_stopped :: bool
  p_dlq :: "dlq_entry list"
  p_tel :: "telemetry option"
  p_telSet :: "meter_provider option"
  p_breaker :: "trace_breaker option"

definition tick :: "nat \<Rightarrow> world \<Rightarrow> world" where
  "tick n w = w\<lparr>w_clock := w_clock w + n\<rparr>"

section \<open>Construction\<close>

text \<open>Signed 64-bit arithmetic on durations.\<close>

definition wrap_i64 :: "int \<Rightarrow> int" where
  "wrap_i64 x = sint (word_of_int x :: 64 word)"

text \<open>The trigger configuration; the fields the code leaves out are zero.\<close>

definition trigger_config :: "config \<Rightarrow> trig_config" where
  "trigger_config cfg = (let t = c_Triggers cfg in \<lparr>
     ErrorRate5xxHigh = er_High (tg_ErrorRate5xx t), ErrorRate5xxLow = er_Low (tg_ErrorRate5xx t),
     SlowSuccessHigh = ss_High (tg_SlowSuccessRate t), SlowSuccessMild = ss_Mild (tg_SlowSuccessRate t),
     RetryHigh = rr_High (tg_RetryRate t), RetryMild = rr_Mild (tg_RetryRate t),
     InFlightMinAbsolute = if_MinAbsoluteInFlight (tg_InFlightPileup t),
     InFlightMultiplier = if_BaselineMultiplier (tg_InFlightPileup t),
     InFlightNetGrowth = if_NetGrowthMin (tg_InFlightPileup t),
     SevereHoldSecs = if_SevereHoldSecs (tg_InFlightPileup t), MildHoldSecs = if_MildHoldSecs (tg_InFlightPileup t),
     MaxServices = 0, ServiceTTL = 0, MinSamples = 0\<rparr>)"

definition forward_config :: "config \<Rightarrow> fwd_config" where
  "forward_config cfg = \<lparr>
     fc_Endpoint = fw_IncidentaryEndpoint (c_Forward cfg), fc_APIKey = fw_IncidentaryToken (c_Forward cfg),
     fc_AgentVersion = ''0.1.0'', fc_Timeout = fw_Timeout (c_Forward cfg), fc_HTTPClient = None\<rparr>"

definition new_core :: "env \<Rightarrow> core_config \<Rightarrow> string + core_config" where
  "new_core env cc = (case en_newCore env cc of None \<Rightarrow> Inr cc | Some err \<Rightarrow> Inl err)"

datatype proc_error = ErrConfig config_error | ErrForwarder forward_error

definition newTracesProcessor :: "env \<Rightarrow> meter_provider option \<Rightarrow> config \<Rightarrow> (nat \<Rightarrow> traces \<Rightarrow> string option) option
    \<Rightarrow> (proc_error + processor) go_result" where
  "newTracesProcessor env telSet cfg nxt =
     (case Validate (en_lookup env) cfg of
        Some err \<Rightarrow> Inr (Inl (ErrConfig err))
      | None \<Rightarrow>
          let ev = ev_New (trigger_config cfg) in
          (case ring_New \<lparr>opt_MaxSpans = c_MaxBufferSize cfg, opt_PreAlertWindow = c_PreAlertWindow cfg\<rparr> of
             Inl panic \<Rightarrow> Inl panic
           | Inr buf \<Rightarrow>
          (case NewClient (new_core env) (forward_config cfg) of
             Inl err \<Rightarrow> Inr (Inl (ErrForwarder err))
           | Inr fwd \<Rightarrow>
               let tel = (case NewTelemetry telSet of Inl telErr \<Rightarrow> None | Inr tel \<Rightarrow> Some tel)
               in Inr (Inr \<lparr>p_cfg = cfg, p_buf = buf, p_evaluator = ev, p_fwd = fwd, p_next = nxt,
                    p_tickers = False, p_stopped = False, p_dlq = [], p_tel = tel, p_telSet = telSet,
                    p_breaker = Some (newTraceBreaker (wrap_i64 (2 * c_PreAlertWindow cfg)))\<rparr>))))"

section \<open>Start and shutdown\<close>

text \<open>
  The registration of the gauge: skipped without metrics; with metrics the meter provider is
  used unchecked.
\<close>

definition registerGauge :: "processor \<times> world \<Rightarrow> (processor \<times> world) go_result" where
  "registerGauge s =
     (let (p, w) = s
      in case p_tel p of
           None \<Rightarrow> Inr (p, w)
         | Some tel \<Rightarrow>
             (case p_telSet p of
                None \<Rightarrow> Inl ''runtime error: invalid memory address or nil pointer dereference''
              | Some provider \<Rightarrow>
                  (case RegisterDLQSizeCallback (Some tel) (Meter provider) (w_sdk w) of
                     (t, k, err) \<Rightarrow> Inr (p\<lparr>p_tel := t\<rparr>, w\<lparr>w_sdk := k\<rparr>))))"

definition Start :: "env \<Rightarrow> processor \<times> world \<Rightarrow> (processor \<times> world) go_result" where
  "Start env s =
     (let (p, w) = s
      in case registerGauge (p\<lparr>p_tickers := True\<rparr>, w) of
           Inl panic \<Rightarrow> Inl panic
         | Inr (p1, w1) \<Rightarrow>
             let path = c_PersistPath (p_cfg p1)
             in if path = [] then Inr (p1, w1)
                else let (entries, err) = loadDLQ (en_unmarshalProto env) (en_openFault env) path (w_fs w1)
                     in Inr (p1\<lparr>p_dlq := restoreDLQ entries (p_dlq p1)\<rparr>, w1))"

text \<open>
  \<open>Shutdown\<close> returns nil on every path: the error of the save is logged only. The body of
  \<open>stopOnce\<close> runs at the first call.
\<close>

definition Shutdown :: "env \<Rightarrow> processor \<times> world \<Rightarrow> (processor \<times> world) \<times> string option" where
  "Shutdown env s =
     (let (p, w) = s
      in if p_stopped p then ((p, w), None)
         else let w1 = w\<lparr>w_sdk := Unregister (p_tel p) (w_sdk w)\<rparr>;
                  path = c_PersistPath (p_cfg p);
                  w2 = (if path = [] then w1
                        else let (fs, saveErr) = saveDLQ (en_marshalProto env) (en_faults env) (en_tmpPath env) path (p_dlq p) (w_fs w1)
                             in w1\<lparr>w_fs := fs\<rparr>)
              in ((p\<lparr>p_stopped := True\<rparr>, w2), None))"

definition forwardEndpointHost :: "string \<Rightarrow> string" where
  "forwardEndpointHost endpoint =
     (case url_Parse endpoint of
        Inl err \<Rightarrow> ''<unparseable>''
      | Inr u \<Rightarrow> if u_Host u = [] then ''<unparseable>'' else u_Host u)"

text \<open>\<open>MutatesData\<close>, the only capability.\<close>

definition Capabilities :: bool where "Capabilities = False"

section \<open>Consuming traces\<close>

text \<open>The constants' string values, as they appear in labels.\<close>

fun trigger_label :: "trigger_type \<Rightarrow> string" where
  "trigger_label TriggerErrorRate5xx = ''5xx_error_rate''"
| "trigger_label TriggerSlowSuccessRate = ''slow_success_rate''"
| "trigger_label TriggerRetryRate = ''retry_rate''"
| "trigger_label TriggerInFlightPileup = ''in_flight_pileup''"

fun severity_label :: "severity \<Rightarrow> string" where
  "severity_label SeverityNone = []"
| "severity_label SeverityMild = ''mild''"
| "severity_label SeveritySevere = ''severe''"

text \<open>The signal of a span, and its evaluation.\<close>

definition span_signal :: "env \<Rightarrow> time \<Rightarrow> span \<Rightarrow> request_signal" where
  "span_signal env now sp = \<lparr>
     sig_Kind = mapSpanKind (sp_Kind sp), sig_StatusCode = statusCode sp,
     sig_DurationNs = time_sub (api_AsTime (en_api env) (sp_EndTimestamp sp)) (api_AsTime (en_api env) (sp_StartTimestamp sp)),
     sig_OutboundRetryKeyHash = outboundRetryKey (en_api env) sp, sig_IsRetry = None, sig_NowUnixMs = unix_milli now\<rparr>"

definition evaluateSpan :: "env \<Rightarrow> string \<Rightarrow> span \<Rightarrow> processor \<times> world \<Rightarrow> ((processor \<times> world) \<times> flush_reason option) go_result" where
  "evaluateSpan env service sp s =
     (let (p, w) = s; kind = mapSpanKind (sp_Kind sp)
      in if kind = SignalOther \<or> service = [] then Inr ((p, w), None)
         else let durationNs = time_sub (api_AsTime (en_api env) (sp_EndTimestamp sp)) (api_AsTime (en_api env) (sp_StartTimestamp sp))
              in if durationNs < 0 \<or> durationNs > hour then Inr ((p, w), None)
                 else let n = w_clock w;
                          sig = span_signal env (en_clock env n) sp;
                          ev1 = (if kind = SignalServer then OnRequestStart (en_clock env (n + 1)) service (p_evaluator p) else p_evaluator p)
                      in (case OnRequestComplete (en_arch env) (en_clock env (n + 2)) (en_clock env (n + 3)) service sig ev1 of
                            Inl panic \<Rightarrow> Inl panic
                          | Inr (ev2, reason) \<Rightarrow> Inr ((p\<lparr>p_evaluator := ev2\<rparr>, tick 4 w), reason)))"

text \<open>Buffering: the range over the trace ids of one resource.\<close>

fun bufferTraces :: "env \<Rightarrow> resource_spans \<Rightarrow> trace_id list \<Rightarrow> processor \<times> world \<Rightarrow> processor \<times> world" where
  "bufferTraces env rs [] s = s"
| "bufferTraces env rs (tid # tids) s =
     (let (p, w) = s; single = isolateTrace rs tid
      in bufferTraces env rs tids
           (p\<lparr>p_buf := fst (ring_Insert (en_clock env (w_clock w)) tid single (p_buf p))\<rparr>, tick 1 w))"

text \<open>The breaker's part of a span: the last component says that the span is skipped.\<close>

definition observeSpan :: "env \<Rightarrow> trace_id \<Rightarrow> processor \<times> world \<Rightarrow> (processor \<times> world) \<times> bool" where
  "observeSpan env tid s =
     (let (p, w) = s
      in case p_breaker p of
           None \<Rightarrow> ((p, w), False)
         | Some b \<Rightarrow>
             let (b1, tier) = observe (en_clock env (w_clock w)) tid b;
                 w1 = tick 1 w;
                 w2 = (if tier \<noteq> tierNone then w1\<lparr>w_sdk := recordTraceBreakerTransition (p_tel p) tier (w_sdk w1)\<rparr> else w1)
             in ((p\<lparr>p_breaker := Some b1\<rparr>, w2), shouldDrop tid b1))"

text \<open>
  The walk over the spans carries the span ids already evaluated in this call and the trace
  ids to flush, in the order in which they were added.
\<close>

record walk =
  wk_seen :: "span_id list"
  wk_targets :: "trace_id list"

definition add_target :: "trace_id \<Rightarrow> walk \<Rightarrow> walk" where
  "add_target tid k = (if tid \<in> set (wk_targets k) then k else k\<lparr>wk_targets := wk_targets k @ [tid]\<rparr>)"

definition walkSpan :: "env \<Rightarrow> string \<Rightarrow> span \<Rightarrow> walk \<times> processor \<times> world \<Rightarrow> (walk \<times> processor \<times> world) go_result" where
  "walkSpan env service sp s =
     (let (k, p, w) = s; sid = sp_SpanID sp
      in if sid \<in> set (wk_seen k) then Inr (k, p, w)
         else let k1 = k\<lparr>wk_seen := sid # wk_seen k\<rparr>;
                  (s1, dropped) = observeSpan env (sp_TraceID sp) (p, w)
              in if dropped then Inr (k1, s1)
                 else (case evaluateSpan env service sp s1 of
                         Inl panic \<Rightarrow> Inl panic
                       | Inr ((p2, w2), None) \<Rightarrow> Inr (k1, p2, w2)
                       | Inr ((p2, w2), Some reason) \<Rightarrow>
                           Inr (add_target (sp_TraceID sp) k1, p2,
                                w2\<lparr>w_sdk := RecordTriggerFired (p_tel p2) (trigger_label (fr_TriggerType reason))
                                              (severity_label (fr_Severity reason)) (w_sdk w2)\<rparr>)))"

fun walkSpans :: "env \<Rightarrow> string \<Rightarrow> span list \<Rightarrow> walk \<times> processor \<times> world \<Rightarrow> (walk \<times> processor \<times> world) go_result" where
  "walkSpans env service [] s = Inr s"
| "walkSpans env service (sp # sps) s =
     (case walkSpan env service sp s of Inl panic \<Rightarrow> Inl panic | Inr s1 \<Rightarrow> walkSpans env service sps s1)"

text \<open>One resource: buffer its traces, then walk its spans.\<close>

definition walkResource :: "env \<Rightarrow> resource_spans \<Rightarrow> walk \<times> processor \<times> world \<Rightarrow> (walk \<times> processor \<times> world) go_result" where
  "walkResource env rs s =
     (let (k, p, w) = s;
          service = serviceName (en_api env) (rs_Attributes rs);
          tids = en_range env (w_ranges w) (traceIDsInResource rs)
      in walkSpans env service (rs_spans rs) (k, bufferTraces env rs tids (p, w\<lparr>w_ranges := w_ranges w + 1\<rparr>)))"

fun walkResources :: "env \<Rightarrow> traces \<Rightarrow> walk \<times> processor \<times> world \<Rightarrow> (walk \<times> processor \<times> world) go_result" where
  "walkResources env [] s = Inr s"
| "walkResources env (rs # rss) s =
     (case walkResource env rs s of Inl panic \<Rightarrow> Inl panic | Inr s1 \<Rightarrow> walkResources env rss s1)"

text \<open>
  One flush. A nil slice and an empty one both have length zero. The copies in \<open>out\<close> are the
  drained resources in order. \<open>None\<close> as the deadline is the caller's own context.
\<close>

definition send_now :: "env \<Rightarrow> processor \<Rightarrow> duration option \<Rightarrow> nat \<Rightarrow> traces \<Rightarrow> forward_error option" where
  "send_now env p deadline n td = SendTraces (en_marshalJSON env) (en_post env (p_fwd p) n deadline) td"

definition flushTrace :: "env \<Rightarrow> trace_id \<Rightarrow> (processor \<times> world) \<times> forward_error option \<Rightarrow> (processor \<times> world) \<times> forward_error option" where
  "flushTrace env tid s =
     (let ((p, w), lastForwardErr) = s;
          (buf, drained) = ring_Drain tid (p_buf p);
          p1 = p\<lparr>p_buf := buf\<rparr>
      in case drained of
           None \<Rightarrow> ((p1, w), lastForwardErr)
         | Some out \<Rightarrow>
             if out = [] then ((p1, w), lastForwardErr)
             else let result = send_now env p1 None (length (w_sent w)) out;
                      w1 = w\<lparr>w_sent := w_sent w @ [(out, result)]\<rparr>
                  in (case result of
                        None \<Rightarrow> ((p1, w1), lastForwardErr)
                      | Some err \<Rightarrow>
                          let (q, k) = enqueueDLQ (p_tel p1) (en_clock env (w_clock w1)) out (p_dlq p1, w_sdk w1)
                          in ((p1\<lparr>p_dlq := q\<rparr>, tick 1 (w1\<lparr>w_sdk := k\<rparr>)), Some err)))"

fun flushTraces :: "env \<Rightarrow> trace_id list \<Rightarrow> (processor \<times> world) \<times> forward_error option \<Rightarrow> (processor \<times> world) \<times> forward_error option" where
  "flushTraces env [] s = s"
| "flushTraces env (tid # tids) s = flushTraces env tids (flushTrace env tid s)"

datatype consume_error = ForwardErr forward_error | NextErr string

text \<open>What \<open>ConsumeTraces\<close> does after the flush loop.\<close>

definition finishConsume :: "traces \<Rightarrow> (processor \<times> world) \<times> forward_error option \<Rightarrow> (processor \<times> world) \<times> consume_error option" where
  "finishConsume td s =
     (let ((p, w), lastForwardErr) = s
      in case (fw_PassThrough (c_Forward (p_cfg p)), p_next p) of
           (True, Some nxt) \<Rightarrow>
             ((p, w\<lparr>w_passed := w_passed w @ [td]\<rparr>), map_option NextErr (nxt (length (w_passed w)) td))
         | _ \<Rightarrow> ((p, w), map_option ForwardErr lastForwardErr))"

definition ConsumeTraces :: "env \<Rightarrow> traces \<Rightarrow> processor \<times> world \<Rightarrow> ((processor \<times> world) \<times> consume_error option) go_result" where
  "ConsumeTraces env td s =
     (case walkResources env td (\<lparr>wk_seen = [], wk_targets = []\<rparr>, s) of
        Inl panic \<Rightarrow> Inl panic
      | Inr (k, p, w) \<Rightarrow>
          let tids = en_range env (w_ranges w) (wk_targets k)
          in Inr (finishConsume td (flushTraces env tids ((p, w\<lparr>w_ranges := w_ranges w + 1\<rparr>), None))))"

section \<open>The background loops\<close>

text \<open>One tick of \<open>pruneLoop\<close>.\<close>

definition pruneTick :: "env \<Rightarrow> processor \<times> world \<Rightarrow> processor \<times> world" where
  "pruneTick env s =
     (let (p, w) = s; n = w_clock w
      in (p\<lparr>p_buf := fst (ring_PruneByTime (en_clock env n) (p_buf p)),
            p_evaluator := fst (PruneStale (en_clock env (n + 1)) (p_evaluator p)),
            p_breaker := map_option (\<lambda>b. fst (br_pruneStale (en_clock env (n + 2)) b)) (p_breaker p)\<rparr>, tick 3 w))"

text \<open>
  One tick of \<open>dlqRetryLoop\<close>: a round of \<open>drainDLQOnce\<close> in which every attempt has the
  configured timeout as its deadline. The loop of the round appends its sends to those of the world.
\<close>

definition retry_send :: "env \<Rightarrow> processor \<Rightarrow> nat \<Rightarrow> traces \<Rightarrow> forward_error option" where
  "retry_send env p n td = send_now env p (Some (fw_Timeout (c_Forward (p_cfg p)))) n td"

definition retryTick :: "env \<Rightarrow> processor \<times> world \<Rightarrow> processor \<times> world" where
  "retryTick env s =
     (let (p, w) = s;
          (q, k, sent) = drainDLQOnce (p_tel p) (retry_send env p) (p_dlq p, w_sdk w, w_sent w)
      in (p\<lparr>p_dlq := q\<rparr>, w\<lparr>w_sdk := k, w_sent := sent\<rparr>))"

text \<open>
  A moment inside that tick, when no lock is held: the round has taken the queue and its loop has
  dealt with the first \<open>j\<close> entries. The still failing ones are a local variable of the round.
\<close>

definition duringRetry :: "env \<Rightarrow> nat \<Rightarrow> processor \<times> world \<Rightarrow> processor \<times> world" where
  "duringRetry env j s =
     (let (p, w) = s;
          (pending, q) = takeDLQ (p_dlq p);
          (stillFailing, k, sent) = retryLoop (p_tel p) (retry_send env p) (take j pending) ([], w_sdk w, w_sent w)
      in (p\<lparr>p_dlq := q\<rparr>, w\<lparr>w_sdk := k, w_sent := sent\<rparr>))"

text \<open>
  The loops themselves: each waits for a tick or for the closing of \<open>stopCh\<close>, which ends it.
\<close>

datatype loop_event = LoopTick | LoopStop

fun pruneLoop :: "env \<Rightarrow> loop_event list \<Rightarrow> processor \<times> world \<Rightarrow> processor \<times> world" where
  "pruneLoop env [] s = s"
| "pruneLoop env (LoopStop # events) s = s"
| "pruneLoop env (LoopTick # events) s = pruneLoop env events (pruneTick env s)"

fun dlqRetryLoop :: "env \<Rightarrow> loop_event list \<Rightarrow> processor \<times> world \<Rightarrow> processor \<times> world" where
  "dlqRetryLoop env [] s = s"
| "dlqRetryLoop env (LoopStop # events) s = s"
| "dlqRetryLoop env (LoopTick # events) s = dlqRetryLoop env events (retryTick env s)"

text \<open>A history of a running processor, one operation after the other.\<close>

datatype proc_op = Consume traces | PruneTick | RetryTick

fun proc_step :: "env \<Rightarrow> proc_op \<Rightarrow> processor \<times> world \<Rightarrow> (processor \<times> world) go_result" where
  "proc_step env (Consume td) s = map_sum (\<lambda>x. x) fst (ConsumeTraces env td s)"
| "proc_step env PruneTick s = Inr (pruneTick env s)"
| "proc_step env RetryTick s = Inr (retryTick env s)"

fun proc_run :: "env \<Rightarrow> proc_op list \<Rightarrow> processor \<times> world \<Rightarrow> (processor \<times> world) go_result" where
  "proc_run env [] s = Inr s"
| "proc_run env (oper # ops) s =
     (case proc_step env oper s of Inl panic \<Rightarrow> Inl panic | Inr s1 \<Rightarrow> proc_run env ops s1)"

text \<open>The life of a processor: constructed, started, then any operations.\<close>

definition bridge_life :: "env \<Rightarrow> meter_provider option \<Rightarrow> config \<Rightarrow> (nat \<Rightarrow> traces \<Rightarrow> string option) option
    \<Rightarrow> proc_op list \<Rightarrow> world \<Rightarrow> (proc_error + processor \<times> world) go_result" where
  "bridge_life env telSet cfg nxt ops w =
     (case newTracesProcessor env telSet cfg nxt of
        Inl panic \<Rightarrow> Inl panic
      | Inr (Inl err) \<Rightarrow> Inr (Inl err)
      | Inr (Inr p) \<Rightarrow>
          (case Start env (p, w) of
             Inl panic \<Rightarrow> Inl panic
           | Inr s \<Rightarrow> (case proc_run env ops s of Inl panic \<Rightarrow> Inl panic | Inr s1 \<Rightarrow> Inr (Inr s1))))"

section \<open>The component factory\<close>

text \<open>
  \<open>processor/incidentaryprocessor/factory.go\<close>. The collector's \<open>component.Config\<close> is an
  interface: the type assertion of \<open>createTracesProcessor\<close> panics on any other type.
\<close>

definition typeStr :: string where "typeStr = ''incidentary''"

datatype component_config = BridgeConfig config | ForeignConfig string

definition createTracesProcessor :: "env \<Rightarrow> meter_provider option \<Rightarrow> component_config
    \<Rightarrow> (nat \<Rightarrow> traces \<Rightarrow> string option) option \<Rightarrow> (proc_error + processor) go_result" where
  "createTracesProcessor env telSet cfg nxt =
     (case cfg of
        BridgeConfig c \<Rightarrow> newTracesProcessor env telSet c nxt
      | ForeignConfig ty \<Rightarrow> Inl ''interface conversion: component.Config'')"

datatype stability_level = StabilityAlpha

record processor_factory =
  pf_Type :: string
  pf_CreateDefaultConfig :: component_config
  pf_CreateTraces :: "meter_provider option \<Rightarrow> component_config \<Rightarrow> (nat \<Rightarrow> traces \<Rightarrow> string option) option
    \<Rightarrow> (proc_error + processor) go_result"
  pf_TracesStability :: stability_level

definition NewFactory :: "env \<Rightarrow> processor_factory" where
  "NewFactory env = \<lparr>pf_Type = typeStr, pf_CreateDefaultConfig = BridgeConfig DefaultConfig,
     pf_CreateTraces = createTracesProcessor env, pf_TracesStability = StabilityAlpha\<rparr>"

section \<open>The collector binary\<close>

text \<open>
  \<open>cmd/incidentaryprocessor/main.go\<close>. The collector's library is not in the repository: its
  \<open>MakeFactoryMap\<close>, at the three types at which it is used, its two other factories, and running
  its command are parameters. The result is what the process prints and its exit code.
\<close>

record ('r, 'p, 'e) factories =
  ft_Receivers :: 'r
  ft_Processors :: 'p
  ft_Exporters :: 'e

definition bridgeName :: string where "bridgeName = ''incidentary-bridge''"
definition bridgeVersion :: string where "bridgeVersion = ''0.1.0''"

definition buildFactories :: "('fr list \<Rightarrow> string + 'r) \<Rightarrow> 'fr \<Rightarrow> ('fp list \<Rightarrow> string + 'p) \<Rightarrow> 'fp
    \<Rightarrow> ('fe list \<Rightarrow> string + 'e) \<Rightarrow> 'fe \<Rightarrow> string + ('r, 'p, 'e) factories" where
  "buildFactories makeR otlpreceiver makeP bridge makeE otlphttpexporter =
     (case makeR [otlpreceiver] of
        Inl err \<Rightarrow> Inl err
      | Inr receivers \<Rightarrow>
     (case makeP [bridge] of
        Inl err \<Rightarrow> Inl err
      | Inr processors \<Rightarrow>
     (case makeE [otlphttpexporter] of
        Inl err \<Rightarrow> Inl err
      | Inr exporters \<Rightarrow> Inr \<lparr>ft_Receivers = receivers, ft_Processors = processors, ft_Exporters = exporters\<rparr>)))"

record build_info =
  bi_Command :: string
  bi_Version :: string

text \<open>\<open>log.Fatalf\<close> and \<open>os.Exit(1)\<close> both end with code 1.\<close>

definition main :: "string + 'f \<Rightarrow> (build_info \<Rightarrow> 'f \<Rightarrow> string option) \<Rightarrow> string \<times> nat" where
  "main built execute =
     (case built of
        Inl err \<Rightarrow> (''incidentary-bridge: build factories: '' @ err, 1)
      | Inr fs \<Rightarrow>
          (case execute \<lparr>bi_Command = bridgeName, bi_Version = bridgeVersion\<rparr> fs of
             Some err \<Rightarrow> (''incidentary-bridge: '' @ err, 1)
           | None \<Rightarrow> ([], 0)))"

end
