(* ===== verification/Bridge.thy ===== *)
theory Bridge
  imports Processor
begin

text \<open>
  What holds of the processor as a whole: the invariants of a running processor and
  the effect of its operations. The histories are those of \<open>proc_run\<close>, one operation after the other; the
  dead-letter queue and the evaluator under interleaving are treated in their own theories.
\<close>

section \<open>Histories\<close>

text \<open>
  What is assumed of the run-time system: the clock is past the epoch, and a range over a
  map visits every key once.
\<close>

definition env_ok :: "env \<Rightarrow> bool" where
  "env_ok env \<longleftrightarrow> (\<forall>n. 0 \<le> en_clock env n) \<and> (\<forall>n tids. mset (en_range env n tids) = mset tids)"

lemma env_range_set: "env_ok env \<Longrightarrow> set (en_range env n tids) = set tids"
  unfolding env_ok_def by (metis set_mset_mset)

definition td_spans :: "traces \<Rightarrow> span set" where
  "td_spans td = set (concat (map rs_spans td))"

fun consumed :: "proc_op list \<Rightarrow> span set" where
  "consumed [] = {}"
| "consumed (Consume td # ops) = td_spans td \<union> consumed ops"
| "consumed (PruneTick # ops) = consumed ops"
| "consumed (RetryTick # ops) = consumed ops"

text \<open>
  An invariant of the walk over the spans, as a contract on its elementary steps: one
  observation and one evaluation, with its metric when a trigger fires. The set is that of
  the spans received so far.
\<close>

locale span_invariant =
  fixes env :: env and inv :: "span set \<Rightarrow> processor \<times> world \<Rightarrow> bool"
  assumes inv_observe: "inv S s \<Longrightarrow> inv S (fst (observeSpan env tid s))"
    and inv_evaluate: "inv S s \<Longrightarrow> evaluateSpan env service sp s = Inr ((p, w), None) \<Longrightarrow> inv S (p, w)"
    and inv_fire: "inv S s \<Longrightarrow> evaluateSpan env service sp s = Inr ((p, w), Some r) \<Longrightarrow>
      inv S (p, w\<lparr>w_sdk := RecordTriggerFired (p_tel p) (trigger_label (fr_TriggerType r)) (severity_label (fr_Severity r)) (w_sdk w)\<rparr>)"
begin

lemma inv_walkSpan:
  assumes "inv S s" "walkSpan env service sp (k, s) = Inr (k', s')"
  shows "inv S s'"
proof -
  obtain p w where s: "s = (p, w)" by fastforce
  obtain s1 dropped where o: "observeSpan env (sp_TraceID sp) (p, w) = (s1, dropped)" by fastforce
  have i1: "inv S s1" using inv_observe [OF assms(1), of "sp_TraceID sp"] o s by simp
  show ?thesis
  proof (cases "sp_SpanID sp \<in> set (wk_seen k) \<or> dropped")
    case True
    then show ?thesis using assms s o i1 by (auto simp: walkSpan_def Let_def split: if_splits)
  next
    case False
    then obtain p2 w2 r where e: "evaluateSpan env service sp s1 = Inr ((p2, w2), r)"
      using assms(2) s o by (auto simp: walkSpan_def Let_def split: sum.splits)
    show ?thesis
      using False assms(2) s o e inv_evaluate [OF i1, of service sp p2 w2] inv_fire [OF i1, of service sp p2 w2]
      by (cases r) (auto simp: walkSpan_def Let_def)
  qed
qed

lemma inv_walkSpans: "inv S s \<Longrightarrow> walkSpans env service sps (k, s) = Inr (k', s') \<Longrightarrow> inv S s'"
proof (induction sps arbitrary: k s)
  case (Cons sp sps)
  then obtain k1 s1 where "walkSpan env service sp (k, s) = Inr (k1, s1)" "walkSpans env service sps (k1, s1) = Inr (k', s')"
    by (auto split: sum.splits)
  with Cons.IH Cons.prems(1) inv_walkSpan show ?case by blast
qed simp

end

text \<open>An invariant of the walk over a batch: also of one insertion.\<close>

locale walk_invariant = span_invariant +
  assumes inv_env: "inv S s \<Longrightarrow> env_ok env"
    and inv_range: "inv S (p, w) \<Longrightarrow> inv S (p, w\<lparr>w_ranges := n\<rparr>)"
    and inv_insert: "inv S (p, w) \<Longrightarrow> tid \<in> set (traceIDsInResource rs) \<Longrightarrow> set (rs_spans rs) \<subseteq> S \<Longrightarrow>
      inv S (p\<lparr>p_buf := fst (ring_Insert now tid (isolateTrace rs tid) (p_buf p))\<rparr>, tick 1 w)"
begin

lemma inv_buffer:
  "inv S s \<Longrightarrow> set tids \<subseteq> set (traceIDsInResource rs) \<Longrightarrow> set (rs_spans rs) \<subseteq> S \<Longrightarrow> inv S (bufferTraces env rs tids s)"
proof (induction tids arbitrary: s)
  case (Cons tid tids)
  obtain p w where s: "s = (p, w)" by fastforce
  have "inv S (p\<lparr>p_buf := fst (ring_Insert (en_clock env (w_clock w)) tid (isolateTrace rs tid) (p_buf p))\<rparr>, tick 1 w)"
    using Cons.prems s by (intro inv_insert) auto
  then show ?case using Cons by (simp add: s Let_def)
qed simp

lemma inv_walkResource:
  assumes "inv S (p, w)" "set (rs_spans rs) \<subseteq> S"
  shows "inv S (bufferTraces env rs (en_range env (w_ranges w) (traceIDsInResource rs)) (p, w\<lparr>w_ranges := w_ranges w + 1\<rparr>))"
  using assms inv_range by (intro inv_buffer) (auto simp: env_range_set [OF inv_env [OF assms(1)]])

lemma inv_walkResources: "inv S s \<Longrightarrow> td_spans td \<subseteq> S \<Longrightarrow> walkResources env td (k, s) = Inr (k', s') \<Longrightarrow> inv S s'"
proof (induction td arbitrary: k s)
  case (Cons rs rss)
  obtain p w where s: "s = (p, w)" by fastforce
  have sub: "set (rs_spans rs) \<subseteq> S" "td_spans rss \<subseteq> S" using Cons.prems(2) by (auto simp: td_spans_def)
  obtain k1 s1 where "walkResource env rs (k, s) = Inr (k1, s1)" "walkResources env rss (k1, s1) = Inr (k', s')"
    using Cons.prems(3) by (auto split: sum.splits)
  moreover from this(1) have "inv S s1"
    using inv_walkSpans [OF inv_walkResource [OF Cons.prems(1) [unfolded s] sub(1)]] s
    by (simp add: walkResource_def Let_def)
  ultimately show ?case using Cons.IH sub by blast
qed simp

end

text \<open>An invariant of the processor: also of a flush and of the ticks of the background loops.\<close>

locale proc_invariant = walk_invariant +
  assumes inv_mono: "inv S s \<Longrightarrow> S \<subseteq> S' \<Longrightarrow> inv S' s"
    and inv_passed: "inv S (p, w) \<Longrightarrow> inv S (p, w\<lparr>w_passed := xs\<rparr>)"
    and inv_flush: "inv S s \<Longrightarrow> inv S (fst (flushTrace env tid (s, err)))"
    and inv_prune: "inv S s \<Longrightarrow> inv S (pruneTick env s)"
    and inv_retry: "inv S s \<Longrightarrow> inv S (retryTick env s)"
begin

lemma inv_flushTraces: "inv S s \<Longrightarrow> inv S (fst (flushTraces env tids (s, err)))"
proof (induction tids arbitrary: s err)
  case (Cons tid tids)
  have "inv S (fst (flushTrace env tid (s, err)))" by (rule inv_flush [OF Cons.prems])
  from Cons.IH [OF this, of "snd (flushTrace env tid (s, err))"] show ?case by simp
qed simp

lemma inv_finish: "inv S (fst s) \<Longrightarrow> inv S (fst (finishConsume td s))"
  using inv_passed by (auto simp: finishConsume_def Let_def split: prod.splits bool.splits option.splits)

lemma inv_Consume:
  assumes "inv S s" "td_spans td \<subseteq> S" "ConsumeTraces env td s = Inr (s', err)"
  shows "inv S s'"
proof -
  obtain k p w where walk: "walkResources env td (\<lparr>wk_seen = [], wk_targets = []\<rparr>, s) = Inr (k, p, w)"
      "(s', err) = finishConsume td (flushTraces env (en_range env (w_ranges w) (wk_targets k)) ((p, w\<lparr>w_ranges := w_ranges w + 1\<rparr>), None))"
    using assms(3) by (auto simp: ConsumeTraces_def Let_def split: sum.splits)
  have "inv S (p, w)" by (rule inv_walkResources [OF assms(1,2) walk(1)])
  then have "inv S (p, w\<lparr>w_ranges := w_ranges w + 1\<rparr>)" using inv_range by blast
  then show ?thesis using inv_finish [OF inv_flushTraces] walk(2) by (metis fst_conv)
qed

lemma inv_run: "inv S s \<Longrightarrow> proc_run env ops s = Inr s' \<Longrightarrow> inv (S \<union> consumed ops) s'"
proof (induction ops arbitrary: S s)
  case (Cons oper ops)
  obtain s1 where step: "proc_step env oper s = Inr s1" "proc_run env ops s1 = Inr s'"
    using Cons.prems(2) by (auto split: sum.splits)
  show ?case
  proof (cases oper)
    case (Consume td)
    obtain err where "ConsumeTraces env td s = Inr (s1, err)"
      using step(1) Consume by (cases "ConsumeTraces env td s") auto
    then have "inv (S \<union> td_spans td) s1" by (intro inv_Consume [OF inv_mono [OF Cons.prems(1)]]) auto
    from Cons.IH [OF this step(2)] show ?thesis using Consume by (simp add: Un_assoc)
  qed (use Cons.IH [OF inv_prune [OF Cons.prems(1)]] Cons.IH [OF inv_retry [OF Cons.prems(1)]] step in auto)
qed simp

end

text \<open>An invariant under which no evaluation panics: then no operation does.\<close>

locale proc_total = proc_invariant +
  assumes evaluate_total: "inv S s \<Longrightarrow> \<exists>s' r. evaluateSpan env service sp s = Inr (s', r)"
begin

lemma walkSpan_total:
  assumes "inv S s"
  shows "\<exists>k' s'. walkSpan env service sp (k, s) = Inr (k', s')"
proof -
  obtain p w where s: "s = (p, w)" by fastforce
  obtain s1 dropped where o: "observeSpan env (sp_TraceID sp) (p, w) = (s1, dropped)" by fastforce
  have "inv S s1" using inv_observe [OF assms, of "sp_TraceID sp"] o s by simp
  from evaluate_total [OF this, of service sp] obtain s2 r where "evaluateSpan env service sp s1 = Inr (s2, r)" by blast
  then show ?thesis using o s by (cases s2; cases r) (auto simp: walkSpan_def Let_def)
qed

lemma walkSpans_total: "inv S s \<Longrightarrow> \<exists>k' s'. walkSpans env service sps (k, s) = Inr (k', s')"
proof (induction sps arbitrary: k s)
  case (Cons sp sps)
  obtain k1 s1 where one: "walkSpan env service sp (k, s) = Inr (k1, s1)" using walkSpan_total [OF Cons.prems] by blast
  from Cons.IH [OF inv_walkSpan [OF Cons.prems one], of k1] show ?case using one by simp
qed simp

lemma walkResources_total: "inv S s \<Longrightarrow> td_spans td \<subseteq> S \<Longrightarrow> \<exists>k' s'. walkResources env td (k, s) = Inr (k', s')"
proof (induction td arbitrary: k s)
  case (Cons rs rss)
  obtain p w where s: "s = (p, w)" by fastforce
  have sub: "set (rs_spans rs) \<subseteq> S" "td_spans rss \<subseteq> S" using Cons.prems(2) by (auto simp: td_spans_def)
  note i = inv_walkResource [OF Cons.prems(1) [unfolded s] sub(1)]
  obtain k1 s1 where one: "walkResource env rs (k, s) = Inr (k1, s1)"
    using walkSpans_total [OF i, of "serviceName (en_api env) (rs_Attributes rs)" "rs_spans rs" k] s by (auto simp: walkResource_def Let_def)
  then have "inv S s1" using inv_walkSpans [OF i] s by (simp add: walkResource_def Let_def)
  from Cons.IH [OF this sub(2), of k1] show ?case using one by simp
qed simp

lemma run_total: "inv S s \<Longrightarrow> \<exists>s'. proc_run env ops s = Inr s'"
proof (induction ops arbitrary: S s)
  case (Cons oper ops)
  show ?case
  proof (cases oper)
    case (Consume td)
    have i: "inv (S \<union> td_spans td) s" by (rule inv_mono [OF Cons.prems]) auto
    obtain k p w where walk: "walkResources env td (\<lparr>wk_seen = [], wk_targets = []\<rparr>, s) = Inr (k, p, w)"
      using walkResources_total [OF i, of td "\<lparr>wk_seen = [], wk_targets = []\<rparr>"] by auto
    then obtain s1 err where c: "ConsumeTraces env td s = Inr (s1, err)"
      by (metis (no_types, lifting) ConsumeTraces_def old.sum.simps(6) prod.case surj_pair)
    from inv_Consume [OF i _ this] have "inv (S \<union> td_spans td) s1" by simp
    from Cons.IH [OF this] show ?thesis using c Consume by simp
  qed (use Cons.IH [OF inv_prune [OF Cons.prems]] Cons.IH [OF inv_retry [OF Cons.prems]] in auto)
qed simp

end

text \<open>The loops run ticks until they are stopped, so their histories are histories of the processor.\<close>

lemma pruneLoop_run: "proc_run env (replicate (length (takeWhile (\<lambda>e. e = LoopTick) events)) PruneTick) s = Inr (pruneLoop env events s)"
  by (induction env events s rule: pruneLoop.induct) simp_all

lemma dlqRetryLoop_run: "proc_run env (replicate (length (takeWhile (\<lambda>e. e = LoopTick) events)) RetryTick) s = Inr (dlqRetryLoop env events s)"
  by (induction env events s rule: dlqRetryLoop.induct) simp_all

section \<open>What the elementary steps change\<close>

lemma observeSpan_frame:
  assumes "fst (observeSpan env tid (p, w)) = (p', w')"
  obtains b n k where "p' = p\<lparr>p_breaker := b\<rparr>" "w' = w\<lparr>w_clock := n, w_sdk := k\<rparr>"
    "k = w_sdk w \<or> (\<exists>tier. k = recordTraceBreakerTransition (p_tel p) tier (w_sdk w))"
proof (cases "p_breaker p")
  case None
  then show ?thesis using assms that [where b = "p_breaker p" and n = "w_clock w" and k = "w_sdk w"] by (simp add: observeSpan_def)
next
  case (Some b)
  obtain b1 tier where o: "observe (en_clock env (w_clock w)) tid b = (b1, tier)" by fastforce
  show ?thesis
  proof (cases "tier = tierNone")
    case True
    then show ?thesis using assms Some o that [where b = "Some b1" and n = "w_clock w + 1" and k = "w_sdk w"]
      by (cases w) (auto simp: observeSpan_def Let_def tick_def)
  next
    case False
    then show ?thesis
      using assms Some o that [where b = "Some b1" and n = "w_clock w + 1" and k = "recordTraceBreakerTransition (p_tel p) tier (w_sdk w)"]
      by (auto simp: observeSpan_def Let_def tick_def)
  qed
qed

lemma evaluateSpan_cases:
  assumes "evaluateSpan env service sp (p, w) = Inr ((p', w'), r)"
  obtains (skip) "p' = p" "w' = w" "r = None"
  | (server) ev where "service \<noteq> []" "mapSpanKind (sp_Kind sp) = SignalServer" "p' = p\<lparr>p_evaluator := ev\<rparr>" "w' = tick 4 w"
      "OnRequestComplete (en_arch env) (en_clock env (w_clock w + 2)) (en_clock env (w_clock w + 3)) service
         (span_signal env (en_clock env (w_clock w)) sp) (OnRequestStart (en_clock env (w_clock w + 1)) service (p_evaluator p)) = Inr (ev, r)"
  | (client) ev where "service \<noteq> []" "mapSpanKind (sp_Kind sp) = SignalClient" "p' = p\<lparr>p_evaluator := ev\<rparr>" "w' = tick 4 w"
      "OnRequestComplete (en_arch env) (en_clock env (w_clock w + 2)) (en_clock env (w_clock w + 3)) service
         (span_signal env (en_clock env (w_clock w)) sp) (p_evaluator p) = Inr (ev, r)"
  using assms
  by (cases "mapSpanKind (sp_Kind sp)") (auto simp: evaluateSpan_def Let_def split: if_splits sum.splits)

text \<open>A flush either finds nothing, or sends, or sends and queues.\<close>

lemma flushTrace_cases:
  assumes "flushTrace env tid ((p, w), err) = ((p', w'), err')" "ring_inv (p_buf p)"
  obtains (empty) "content (p_buf p) tid = []" "p' = p\<lparr>p_buf := fst (ring_Drain tid (p_buf p))\<rparr>" "w' = w" "err' = err"
  | (sent) "content (p_buf p) tid \<noteq> []" "p' = p\<lparr>p_buf := fst (ring_Drain tid (p_buf p))\<rparr>"
      "w' = w\<lparr>w_sent := w_sent w @ [(content (p_buf p) tid, None)]\<rparr>" "err' = err"
      "send_now env p None (length (w_sent w)) (content (p_buf p) tid) = None"
  | (queued) e q k where "content (p_buf p) tid \<noteq> []" "p' = p\<lparr>p_buf := fst (ring_Drain tid (p_buf p)), p_dlq := q\<rparr>"
      "w' = w\<lparr>w_clock := w_clock w + 1, w_sent := w_sent w @ [(content (p_buf p) tid, Some e)], w_sdk := k\<rparr>" "err' = Some e"
      "send_now env p None (length (w_sent w)) (content (p_buf p) tid) = Some e"
      "enqueueDLQ (p_tel p) (en_clock env (w_clock w)) (content (p_buf p) tid) (p_dlq p, w_sdk w) = (q, k)"
proof -
  obtain buf out where d: "ring_Drain tid (p_buf p) = (buf, out)" by fastforce
  have o: "out = (if content (p_buf p) tid = [] then None else Some (content (p_buf p) tid))"
    using rb.drn_result [OF assms(2), of tid] d by simp
  have same: "send_now env (p\<lparr>p_buf := buf\<rparr>) d n td = send_now env p d n td" for d n td by (simp add: send_now_def)
  have b: "buf = fst (ring_Drain tid (p_buf p))" using d by simp
  show ?thesis
  proof (cases "content (p_buf p) tid = []")
    case True
    then have "p' = p\<lparr>p_buf := buf\<rparr>" "w' = w" "err' = err" using assms(1) d o by (simp_all add: flushTrace_def)
    then show ?thesis unfolding b by (intro empty [OF True])
  next
    case False
    show ?thesis
    proof (cases "send_now env p None (length (w_sent w)) (content (p_buf p) tid)")
      case None
      then have "p' = p\<lparr>p_buf := buf\<rparr>" "w' = w\<lparr>w_sent := w_sent w @ [(content (p_buf p) tid, None)]\<rparr>" "err' = err"
        using assms(1) d o False by (simp_all add: flushTrace_def same)
      then show ?thesis unfolding b by (intro sent [OF False _ _ _ None])
    next
      case (Some e)
      obtain q k where qk: "enqueueDLQ (p_tel p) (en_clock env (w_clock w)) (content (p_buf p) tid) (p_dlq p, w_sdk w) = (q, k)" by fastforce
      then have "p' = p\<lparr>p_buf := buf, p_dlq := q\<rparr>" "err' = Some e"
        "w' = w\<lparr>w_clock := w_clock w + 1, w_sent := w_sent w @ [(content (p_buf p) tid, Some e)], w_sdk := k\<rparr>"
        using assms(1) d o False Some by (auto simp: flushTrace_def same tick_def Let_def)
      then show ?thesis unfolding b by (intro queued [OF False _ _ _ Some qk])
    qed
  qed
qed

lemma evaluateSpan_buf: "evaluateSpan env service sp (p, w) = Inr ((p', w'), r) \<Longrightarrow> p_buf p' = p_buf p"
  by (erule evaluateSpan_cases) simp_all

section \<open>Bounds\<close>

text \<open>No pile-up has been counted as fired.\<close>

definition quiet :: "sdk \<Rightarrow> bool" where
  "quiet k \<longleftrightarrow> (\<forall>a\<in>set (sdk_adds k). (''trigger'', ''in_flight_pileup'') \<notin> set (add_labels a))"

lemma quiet_add: "quiet k \<Longrightarrow> (''trigger'', ''in_flight_pileup'') \<notin> set labels \<Longrightarrow> quiet (add_one name labels k)"
  by (auto simp: quiet_def add_one_def)

lemma quiet_record [simp]:
  "quiet k \<Longrightarrow> quiet (RecordDLQEnqueued t r k)" "quiet k \<Longrightarrow> quiet (RecordDLQDropped t r k)"
  "quiet k \<Longrightarrow> quiet (RecordDLQFlushed t r k)" "quiet k \<Longrightarrow> quiet (RecordCircuitBreakerOpen t r k)"
  "quiet k \<Longrightarrow> trig \<noteq> ''in_flight_pileup'' \<Longrightarrow> quiet (RecordTriggerFired t trig sev k)"
  by (auto simp: RecordDLQEnqueued_def RecordDLQDropped_def RecordDLQFlushed_def RecordCircuitBreakerOpen_def
      RecordTriggerFired_def intro!: quiet_add split: option.split)

lemma quiet_transition [simp]: "quiet k \<Longrightarrow> quiet (recordTraceBreakerTransition t tier k)"
  by (simp add: recordTraceBreakerTransition_def split: trace_tier.split)

lemma quiet_enqueue: "enqueueDLQ t now td (q, k) = (q', k') \<Longrightarrow> quiet k \<Longrightarrow> quiet k'"
  by (auto simp: enqueueDLQ_def split: if_splits)

lemma quiet_retryLoop: "quiet k \<Longrightarrow> quiet (fst (snd (retryLoop t send q (still, k, sent))))"
proof (induction q arbitrary: still k sent)
  case (Cons e q)
  obtain still' k' where r: "retryEntry t (send (length sent) (de_td e)) e (still, k) = (still', k')" by fastforce
  then have "quiet k'" using Cons.prems by (auto simp: retryEntry_def Let_def split: if_splits)
  with Cons.IH r show ?case by simp
qed simp

lemma quiet_drain: "quiet k \<Longrightarrow> quiet (fst (snd (drainDLQOnce t send (q, k, sent))))"
  using quiet_retryLoop [of k t send q "[]" sent]
  by (cases "retryLoop t send q ([], k, sent)") (simp add: drainDLQOnce_def takeDLQ_def)

lemma enqueue_length: "enqueueDLQ t now td (q, k) = (q', k') \<Longrightarrow> length q \<le> dlqMaxEntries \<Longrightarrow> length q' \<le> dlqMaxEntries"
  using enqueueDLQ_queue [of q t now td k] by simp

text \<open>
  The bounds of a running processor, relative to the processor \<open>p0\<close> that was constructed:
  its configuration, client and next consumer never change.
\<close>

definition within :: "env \<Rightarrow> processor \<Rightarrow> span set \<Rightarrow> processor \<times> world \<Rightarrow> bool" where
  "within env p0 S s \<longleftrightarrow> env_ok env \<and> 0 < if_MinAbsoluteInFlight (tg_InFlightPileup (c_Triggers (p_cfg p0)))
     \<and> p_cfg (fst s) = p_cfg p0 \<and> p_fwd (fst s) = p_fwd p0 \<and> p_next (fst s) = p_next p0 \<and> p_stopped (fst s) = p_stopped p0
     \<and> ring_ok (c_MaxBufferSize (p_cfg p0)) (c_PreAlertWindow (p_cfg p0)) (p_buf (fst s))
     \<and> worker_inv (ev_cfg (ev_New (trigger_config (p_cfg p0)))) ({#}, p_evaluator (fst s))
     \<and> length (p_dlq (fst s)) \<le> dlqMaxEntries \<and> (\<forall>e\<in>set (p_dlq (fst s)). 0 \<le> de_attempts e) \<and> quiet (w_sdk (snd s))"

lemma ev_New_min: "InFlightMinAbsolute (ev_cfg (ev_New (trigger_config c))) = if_MinAbsoluteInFlight (tg_InFlightPileup (c_Triggers c))"
  by (simp add: ev_New_def trigger_config_def Let_def)

text \<open>Evaluated one after the other, spans leave nothing in flight and report no pile-up.\<close>

lemma complete_sequential:
  assumes "worker_inv cfg (m, e)" "OnRequestComplete arch now touchNow s sig e = Inr (e', r)" "s \<noteq> []"
    "count m s \<le> 1" "0 < InFlightMinAbsolute cfg"
  shows "r = Some x \<Longrightarrow> fr_TriggerType x \<noteq> TriggerInFlightPileup"
proof
  assume x: "r = Some x" "fr_TriggerType x = TriggerInFlightPileup"
  have ok: "ev_ok e" "ev_cfg e = cfg" using assms(1) by (auto simp: worker_inv_def)
  have "InFlightMinAbsolute cfg \<le> inFlightCurrent (svc_state e' s)"
    using complete_pileup [OF ok(1), of arch now touchNow s sig e' x] assms(2) x ok(2) by simp
  moreover have "inFlightCurrent (svc_state e' s) = max 0 (inFlightCurrent (svc_state e s) - 1)"
    by (rule inFlight_after_complete(2) [OF ok(1) assms(3,2)])
  moreover have "inFlightCurrent (svc_state e s) \<le> 1"
    using assms(1,3,4) by (force simp: worker_inv_def)
  ultimately show False using assms(5) by simp
qed

lemma evaluateSpan_sequential:
  assumes inv: "worker_inv cfg ({#}, p_evaluator p)" and pos: "0 < InFlightMinAbsolute cfg"
    and ev: "evaluateSpan env service sp (p, w) = Inr ((p', w'), r)"
  shows "worker_inv cfg ({#}, p_evaluator p')" "r = Some x \<Longrightarrow> fr_TriggerType x \<noteq> TriggerInFlightPileup"
proof -
  have both: "worker_inv cfg ({#}, p_evaluator p') \<and> (r = Some x \<longrightarrow> fr_TriggerType x \<noteq> TriggerInFlightPileup)"
    using ev
  proof (cases rule: evaluateSpan_cases)
    case (server e)
    have b: "worker_inv cfg ({#service#}, OnRequestStart (en_clock env (w_clock w + 1)) service (p_evaluator p))"
      using worker_inv_begin [OF inv] by simp
    from worker_inv_complete(1) [OF b server(5)] complete_sequential [OF b server(5,1) _ pos, of x] server(3)
    show ?thesis by simp
  next
    case (client e)
    from worker_inv_complete(2) [OF inv client(5)] complete_sequential [OF inv client(5,1) _ pos, of x] client(3)
    show ?thesis by simp
  qed (use inv in simp)
  then show "worker_inv cfg ({#}, p_evaluator p')" "r = Some x \<Longrightarrow> fr_TriggerType x \<noteq> TriggerInFlightPileup" by blast+
qed

lemma trigger_label_pileup: "trigger_label t = ''in_flight_pileup'' \<longleftrightarrow> t = TriggerInFlightPileup"
  by (cases t) simp_all

text \<open>The dead-letter queue never gains a batch by itself.\<close>

lemma survivors_from: "e \<in> set (survivors send i q) \<Longrightarrow> e \<in> retried ` set q"
  by (induction q arbitrary: i) (auto split: if_splits)

lemma drainDLQOnce_from: "e \<in> set (fst (drainDLQOnce t send (q, k, sent))) \<Longrightarrow> e \<in> retried ` set q"
proof (cases "q = []")
  case False
  assume e: "e \<in> set (fst (drainDLQOnce t send (q, k, sent)))"
  obtain still k1 sent1 where r: "retryLoop t send q ([], k, sent) = (still, k1, sent1)" by (metis surj_pair)
  have "still = survivors send (length sent) q" using retryLoop_queue [of t send q "[]" k sent] r by simp
  moreover have "e \<in> set still"
    using e r False set_drop_subset [of "length still - dlqMaxEntries" still]
    by (auto simp: drainDLQOnce_def takeDLQ_def mergeDLQ_def capFront_last_n last_n_def split: if_splits)
  ultimately show ?thesis using survivors_from by blast
qed (simp add: drainDLQOnce_def)

lemma enqueueDLQ_td: "enqueueDLQ t now td (q, k) = (q', k') \<Longrightarrow> e \<in> set q' \<Longrightarrow> e \<in> set q \<or> de_td e = td \<and> de_attempts e = 0"
  by (cases q) (auto simp: enqueueDLQ_def split: if_splits)

lemma retryTick_simps:
  "p_cfg (fst (retryTick env (p, w))) = p_cfg p" "p_buf (fst (retryTick env (p, w))) = p_buf p"
  "p_evaluator (fst (retryTick env (p, w))) = p_evaluator p" "p_fwd (fst (retryTick env (p, w))) = p_fwd p"
  "p_next (fst (retryTick env (p, w))) = p_next p" "p_stopped (fst (retryTick env (p, w))) = p_stopped p"
  "p_dlq (fst (retryTick env (p, w))) = fst (drainDLQOnce (p_tel p) (retry_send env p) (p_dlq p, w_sdk w, w_sent w))"
  "w_sdk (snd (retryTick env (p, w))) = fst (snd (drainDLQOnce (p_tel p) (retry_send env p) (p_dlq p, w_sdk w, w_sent w)))"
  "w_sent (snd (retryTick env (p, w))) = w_sent w @ round_sends (retry_send env p) (length (w_sent w)) (p_dlq p)"
  using drainDLQOnce_sent [of "p_tel p" "retry_send env p" "p_dlq p" "w_sdk w" "w_sent w"]
  by (auto simp: retryTick_def Let_def split: prod.splits)

lemma length_drain: "length q \<le> dlqMaxEntries \<Longrightarrow> length (fst (drainDLQOnce t send (q, k, sent))) \<le> dlqMaxEntries"
  using length_survivors [of send "length sent" q] by (simp add: drainDLQOnce_queue)

lemma round_sends_from: "x \<in> set (round_sends send n q) \<Longrightarrow> \<exists>e\<in>set q. \<exists>i. x = (de_td e, send i (de_td e))"
  by (auto simp: round_sends_def enumerate_eq_zip dest: set_zip_rightD)

lemma within_flush:
  assumes "within env p0 S s"
  shows "within env p0 S (fst (flushTrace env tid (s, err)))"
proof -
  obtain p w where s: "s = (p, w)" by fastforce
  obtain p' w' err' where f: "flushTrace env tid ((p, w), err) = ((p', w'), err')" by (metis surj_pair)
  have r: "ring_ok (c_MaxBufferSize (p_cfg p0)) (c_PreAlertWindow (p_cfg p0)) (p_buf p)" using assms s by (simp add: within_def)
  have "within env p0 S (p', w')"
    using f ring_ok_inv [OF r]
  proof (cases rule: flushTrace_cases)
    case (queued e q k)
    have "\<forall>x\<in>set q. 0 \<le> de_attempts x"
      using enqueueDLQ_td [OF queued(6)] assms s by (fastforce simp: within_def)
    then show ?thesis
      using queued assms s quiet_enqueue [OF queued(6)] enqueue_length [OF queued(6)] by (simp add: within_def ring_ok_Drain)
  qed (use assms s in \<open>simp_all add: within_def ring_ok_Drain\<close>)
  then show ?thesis using f s by simp
qed

lemma span_signal_clock: "env_ok env \<Longrightarrow> clock_ok (EvComplete (en_clock env m) t service (span_signal env (en_clock env n) sp))"
proof -
  assume ok: "env_ok env"
  then have "0 \<le> unix_milli (en_clock env i)" for i by (simp add: env_ok_def unix_milli_def pos_imp_zdiv_nonneg_iff)
  then have "- 1000 < unix_milli (en_clock env i)" for i by (rule less_le_trans [rotated]) simp
  then show ?thesis by (simp add: resolve_time_def span_signal_def)
qed

lemma evaluateSpan_total:
  assumes "env_ok env" "ev_ok (p_evaluator p)"
  shows "\<exists>s' r. evaluateSpan env service sp (p, w) = Inr (s', r)"
proof -
  have "\<exists>e' r. OnRequestComplete (en_arch env) (en_clock env (w_clock w + 2)) (en_clock env (w_clock w + 3)) service
      (span_signal env (en_clock env (w_clock w)) sp) e = Inr (e', r)" if "ev_ok e" for e
    using ev_step_total [OF that span_signal_clock [OF assms(1)]] by simp
  from this [OF assms(2)] this [OF ev_ok_Start [OF assms(2), of "en_clock env (w_clock w + 1)" service]]
  show ?thesis by (auto simp: evaluateSpan_def Let_def)
qed

interpretation bounds: proc_total env "within env p0" for env p0
proof unfold_locales
  fix S s tid and err :: "forward_error option"
  assume i: "within env p0 S s"
  show "env_ok env" using i by (simp add: within_def)
  show "within env p0 S (fst (flushTrace env tid (s, err)))" by (rule within_flush [OF i])
  obtain p w where s: "s = (p, w)" by fastforce
  show "within env p0 S (pruneTick env s)"
    using i s worker_inv_prune by (simp add: within_def pruneTick_def Let_def ring_ok_Prune tick_def)
  show "within env p0 S (retryTick env s)"
  proof -
    obtain p' w' where r: "retryTick env s = (p', w')" by fastforce
    have "\<forall>e\<in>set (fst (drainDLQOnce (p_tel p) (retry_send env p) (p_dlq p, w_sdk w, w_sent w))). 0 \<le> de_attempts e"
      using i s drainDLQOnce_from by (fastforce simp: within_def retried_def)
    then show ?thesis using r i s retryTick_simps [of env p w] by (simp add: within_def length_drain quiet_drain)
  qed
  show "within env p0 S (fst (observeSpan env tid s))"
  proof -
    obtain p' w' where o: "fst (observeSpan env tid (p, w)) = (p', w')" by fastforce
    then obtain b n k where "p' = p\<lparr>p_breaker := b\<rparr>" "w' = w\<lparr>w_clock := n, w_sdk := k\<rparr>"
      "k = w_sdk w \<or> (\<exists>tier. k = recordTraceBreakerTransition (p_tel p) tier (w_sdk w))" by (rule observeSpan_frame)
    then show ?thesis using i s o by (auto simp: within_def)
  qed
  fix service sp
  show "\<exists>s' r. evaluateSpan env service sp s = Inr (s', r)"
    using evaluateSpan_total [of env p service sp w] i s by (simp add: within_def worker_inv_def)
next
  fix S :: "span set" and s S' assume "within env p0 S s" "S \<subseteq> S'" then show "within env p0 S' s" by (simp add: within_def)
next
  fix S p w n xs assume "within env p0 S (p, w)"
  then show "within env p0 S (p, w\<lparr>w_ranges := n\<rparr>)" "within env p0 S (p, w\<lparr>w_passed := xs\<rparr>)" by (simp_all add: within_def)
next
  fix S p w tid rs now assume "within env p0 S (p, w)"
  then show "within env p0 S (p\<lparr>p_buf := fst (ring_Insert now tid (isolateTrace rs tid) (p_buf p))\<rparr>, tick 1 w)"
    by (simp add: within_def ring_ok_Insert tick_def)
next
  fix S s service sp p' w' assume i: "within env p0 S s" and e: "evaluateSpan env service sp s = Inr ((p', w'), None)"
  obtain p w where s: "s = (p, w)" by fastforce
  have "worker_inv (ev_cfg (ev_New (trigger_config (p_cfg p0)))) ({#}, p_evaluator p')"
    using i s e evaluateSpan_sequential(1) [of _ p env service sp w p' w' None] by (simp add: within_def ev_New_min)
  moreover have "w_sdk w' = w_sdk w" "p_buf p' = p_buf p" "p_dlq p' = p_dlq p" "p_cfg p' = p_cfg p" "p_fwd p' = p_fwd p" "p_next p' = p_next p" "p_stopped p' = p_stopped p"
    using e unfolding s by (cases rule: evaluateSpan_cases; simp add: tick_def)+
  ultimately show "within env p0 S (p', w')" using i by (simp add: within_def s)
next
  fix S s service sp p' w' r assume i: "within env p0 S s" and e: "evaluateSpan env service sp s = Inr ((p', w'), Some r)"
  obtain p w where s: "s = (p, w)" by fastforce
  have q: "worker_inv (ev_cfg (ev_New (trigger_config (p_cfg p0)))) ({#}, p_evaluator p')" "fr_TriggerType r \<noteq> TriggerInFlightPileup"
    using i s e evaluateSpan_sequential(1) [of "ev_cfg (ev_New (trigger_config (p_cfg p0)))" p env service sp w p' w' "Some r"]
      evaluateSpan_sequential(2) [of "ev_cfg (ev_New (trigger_config (p_cfg p0)))" p env service sp w p' w' "Some r" r]
    by (simp_all add: within_def ev_New_min)
  have "w_sdk w' = w_sdk w" "p_buf p' = p_buf p" "p_dlq p' = p_dlq p" "p_cfg p' = p_cfg p" "p_fwd p' = p_fwd p" "p_next p' = p_next p" "p_stopped p' = p_stopped p"
    using e unfolding s by (cases rule: evaluateSpan_cases; simp add: tick_def)+
  with i q show "within env p0 S (p', w'\<lparr>w_sdk := RecordTriggerFired (p_tel p') (trigger_label (fr_TriggerType r)) (severity_label (fr_Severity r)) (w_sdk w')\<rparr>)"
    by (simp add: within_def s trigger_label_pileup)
qed

section \<open>What is sent\<close>

text \<open>A batch of one trace, made of spans that were received.\<close>

definition of_trace :: "span set \<Rightarrow> trace_id \<Rightarrow> traces \<Rightarrow> bool" where
  "of_trace S tid td \<longleftrightarrow> (\<forall>rs\<in>set td. rs_spans rs \<noteq> [] \<and> (\<forall>sp\<in>set (rs_spans rs). sp_TraceID sp = tid \<and> sp \<in> S))"

definition one_trace :: "span set \<Rightarrow> traces \<Rightarrow> bool" where
  "one_trace S td \<longleftrightarrow> td \<noteq> [] \<and> (\<exists>tid. of_trace S tid td)"

definition separated :: "env \<Rightarrow> span set \<Rightarrow> processor \<times> world \<Rightarrow> bool" where
  "separated env S s \<longleftrightarrow> env_ok env \<and> ring_inv (p_buf (fst s)) \<and> (\<forall>tid. of_trace S tid (content (p_buf (fst s)) tid))
     \<and> (\<forall>x\<in>set (w_sent (snd s)). one_trace S (fst x)) \<and> (\<forall>e\<in>set (p_dlq (fst s)). one_trace S (de_td e) \<and> 0 \<le> de_attempts e)"

lemma of_trace_mono: "S \<subseteq> S' \<Longrightarrow> of_trace S tid td \<Longrightarrow> of_trace S' tid td"
  by (auto simp: of_trace_def)

lemma one_trace_mono: "S \<subseteq> S' \<Longrightarrow> one_trace S td \<Longrightarrow> one_trace S' td"
  unfolding one_trace_def using of_trace_mono [of S S'] by blast

lemma of_trace_Nil [simp]: "of_trace S tid []"
  by (simp add: of_trace_def)

lemma of_trace_isolate:
  "tid \<in> set (traceIDsInResource rs) \<Longrightarrow> set (rs_spans rs) \<subseteq> S \<Longrightarrow> of_trace S tid [isolateTrace rs tid]"
  by (auto simp: of_trace_def isolateTrace_spans filter_empty_conv)

lemma of_trace_append: "of_trace S tid (xs @ ys) \<longleftrightarrow> of_trace S tid xs \<and> of_trace S tid ys"
  by (auto simp: of_trace_def)

lemma of_trace_insert:
  assumes "ring_inv r" "of_trace S j (content r j)" "j = tid \<Longrightarrow> of_trace S tid [rs]"
  shows "of_trace S j (content (fst (ring_Insert now tid rs r)) j)"
  using rb.cont_put [OF assms(1), of now tid rs j] assms(2,3) by (auto simp: of_trace_append)

lemma separated_flush:
  assumes "separated env S s"
  shows "separated env S (fst (flushTrace env tid (s, err)))"
proof -
  obtain p w where s: "s = (p, w)" by fastforce
  obtain p' w' err' where f: "flushTrace env tid ((p, w), err) = ((p', w'), err')" by (metis surj_pair)
  have inv: "ring_inv (p_buf p)" using assms s by (simp add: separated_def)
  let ?r = "fst (ring_Drain tid (p_buf p))"
  have buf: "ring_inv ?r" "\<forall>j. of_trace S j (content ?r j)"
    using assms s by (auto simp: separated_def ring_inv_Drain rb.cont_drn [OF inv])
  have one: "content (p_buf p) tid \<noteq> [] \<Longrightarrow> one_trace S (content (p_buf p) tid)"
    using assms s by (auto simp: one_trace_def separated_def)
  have "separated env S (p', w')"
    using f inv
  proof (cases rule: flushTrace_cases)
    case (queued e q k)
    have "\<forall>x\<in>set q. one_trace S (de_td x) \<and> 0 \<le> de_attempts x"
      using enqueueDLQ_td [OF queued(6)] assms one [OF queued(1)] s by (fastforce simp: separated_def)
    then show ?thesis using queued(2,3) assms s buf one [OF queued(1)] by (simp add: separated_def)
  qed (use assms s buf one in \<open>simp_all add: separated_def\<close>)
  then show ?thesis using f s by simp
qed

lemma separated_evaluate:
  assumes i: "separated env S s" and e: "evaluateSpan env service sp s = Inr ((p', w'), r)"
  shows "separated env S (p', w'\<lparr>w_sdk := k\<rparr>)" "separated env S (p', w')"
proof -
  obtain p w where s: "s = (p, w)" by fastforce
  have "w_sent w' = w_sent w" "p_buf p' = p_buf p" "p_dlq p' = p_dlq p"
    using e unfolding s by (cases rule: evaluateSpan_cases; simp add: tick_def)+
  with i show "separated env S (p', w'\<lparr>w_sdk := k\<rparr>)" "separated env S (p', w')" by (simp_all add: separated_def s)
qed

interpretation batches: proc_invariant env "separated env" for env
proof unfold_locales
  fix S s tid and err :: "forward_error option"
  assume i: "separated env S s"
  show "env_ok env" using i by (simp add: separated_def)
  show "separated env S (fst (flushTrace env tid (s, err)))" by (rule separated_flush [OF i])
  obtain p w where s: "s = (p, w)" by fastforce
  have inv: "ring_inv (p_buf p)" using i s by (simp add: separated_def)
  have "of_trace S j (content (fst (ring_PruneByTime now (p_buf p))) j)" for now j
  proof -
    have "of_trace S j (content (p_buf p) j)" using i s by (simp add: separated_def)
    then show ?thesis using rb.cont_prune [OF inv, of now j] by (auto simp: of_trace_def)
  qed
  then show "separated env S (pruneTick env s)"
    using i s by (simp add: separated_def pruneTick_def Let_def ring_inv_Prune tick_def)
  show "separated env S (retryTick env s)"
  proof -
    obtain p' w' where r: "retryTick env s = (p', w')" by fastforce
    have "\<forall>e\<in>set (fst (drainDLQOnce (p_tel p) (retry_send env p) (p_dlq p, w_sdk w, w_sent w))). one_trace S (de_td e) \<and> 0 \<le> de_attempts e"
      using i s drainDLQOnce_from by (fastforce simp: separated_def retried_def)
    moreover have "one_trace S (fst x)" if "x \<in> set (round_sends (retry_send env p) n (p_dlq p))" for x n
      using i s round_sends_from [OF that] by (auto simp: separated_def)
    ultimately show ?thesis using i s r retryTick_simps [of env p w] by (auto simp: separated_def)
  qed
  show "separated env S (fst (observeSpan env tid s))"
  proof -
    obtain p' w' where o: "fst (observeSpan env tid (p, w)) = (p', w')" by fastforce
    then obtain b n k where "p' = p\<lparr>p_breaker := b\<rparr>" "w' = w\<lparr>w_clock := n, w_sdk := k\<rparr>" by (rule observeSpan_frame)
    then show ?thesis using i s o by (simp add: separated_def)
  qed
next
  fix S :: "span set" and s S' assume "separated env S s" "S \<subseteq> S'"
  then show "separated env S' s" using of_trace_mono one_trace_mono unfolding separated_def by metis
next
  fix S p w n xs assume "separated env S (p, w)"
  then show "separated env S (p, w\<lparr>w_ranges := n\<rparr>)" "separated env S (p, w\<lparr>w_passed := xs\<rparr>)" by (simp_all add: separated_def)
next
  fix S p w tid rs now assume "separated env S (p, w)" "tid \<in> set (traceIDsInResource rs)" "set (rs_spans rs) \<subseteq> S"
  then show "separated env S (p\<lparr>p_buf := fst (ring_Insert now tid (isolateTrace rs tid) (p_buf p))\<rparr>, tick 1 w)"
    using of_trace_isolate [of tid rs S] by (simp add: separated_def ring_inv_Insert tick_def of_trace_insert)
next
  fix S s service sp p' w' assume i: "separated env S s" and e: "evaluateSpan env service sp s = Inr ((p', w'), None)"
  then show "separated env S (p', w')" using separated_evaluate [OF i e] by simp
next
  fix S s service sp p' w' r assume i: "separated env S s" and e: "evaluateSpan env service sp s = Inr ((p', w'), Some r)"
  then show "separated env S (p', w'\<lparr>w_sdk := RecordTriggerFired (p_tel p') (trigger_label (fr_TriggerType r)) (severity_label (fr_Severity r)) (w_sdk w')\<rparr>)"
    using separated_evaluate [OF i e] by simp
qed

section \<open>The life of a processor\<close>

lemma created:
  assumes "newTracesProcessor env telSet c nxt = Inr (Inr p)"
  shows "Validate (en_lookup env) c = None" "p_cfg p = c" "p_evaluator p = ev_New (trigger_config c)" "p_next p = nxt"
    "ring_New \<lparr>opt_MaxSpans = c_MaxBufferSize c, opt_PreAlertWindow = c_PreAlertWindow c\<rparr> = Inr (p_buf p)"
    "NewClient (new_core env) (forward_config c) = Inr (p_fwd p)" "p_dlq p = []" "\<not> p_stopped p"
    "p_telSet p = telSet" "p_tel p \<noteq> None \<Longrightarrow> telSet \<noteq> None"
  using assms
  by (auto simp: newTracesProcessor_def Let_def NewTelemetry_def split: option.splits sum.splits)

lemma valid_positive:
  "Validate lookup c = None \<Longrightarrow> 0 < c_PreAlertWindow c \<and> 0 < c_MaxBufferSize c \<and> 0 < if_MinAbsoluteInFlight (tg_InFlightPileup (c_Triggers c))"
  by (simp add: Validate_None if_validate_None)

text \<open>Construction panics for no configuration: the ring's panic is behind the validation.\<close>

lemma newTracesProcessor_total: "\<exists>r. newTracesProcessor env telSet c nxt = Inr r"
  using valid_positive [of "en_lookup env" c]
  by (cases "Validate (en_lookup env) c")
    (auto simp: newTracesProcessor_def ring_New_def Let_def split: sum.split)

text \<open>
  A start registers the gauge at most, and takes over at most 32 entries of the file.
\<close>

lemma registerGauge_created:
  assumes "p_tel p \<noteq> None \<Longrightarrow> p_telSet p \<noteq> None"
  obtains t k where "registerGauge (p, w) = Inr (p\<lparr>p_tel := t\<rparr>, w\<lparr>w_sdk := k\<rparr>)" "sdk_adds k = sdk_adds (w_sdk w)"
proof (cases "p_tel p")
  case None
  then have "registerGauge (p, w) = Inr (p\<lparr>p_tel := None\<rparr>, w\<lparr>w_sdk := w_sdk w\<rparr>)"
    by (cases p; cases w) (simp add: registerGauge_def)
  then show thesis by (rule that) simp
next
  case (Some tel)
  then obtain provider where pr: "p_telSet p = Some provider" using assms by auto
  obtain t k err where r: "RegisterDLQSizeCallback (Some tel) (Meter provider) (w_sdk w) = (t, k, err)" by (metis surj_pair)
  then have k: "sdk_adds k = sdk_adds (w_sdk w)" by (auto simp: RegisterDLQSizeCallback_def split: option.splits)
  have "registerGauge (p, w) = Inr (p\<lparr>p_tel := t\<rparr>, w\<lparr>w_sdk := k\<rparr>)" using Some pr r by (simp add: registerGauge_def)
  then show thesis using k by (rule that)
qed

definition restored :: "env \<Rightarrow> config \<Rightarrow> filesystem \<Rightarrow> dlq_entry list" where
  "restored env c fs = (if c_PersistPath c = [] then []
     else take dlqMaxEntries (fst (loadDLQ (en_unmarshalProto env) (en_openFault env) (c_PersistPath c) fs)))"

lemma Start_created:
  assumes "newTracesProcessor env telSet c nxt = Inr (Inr p)"
  obtains t k where
    "Start env (p, w) = Inr (p\<lparr>p_tickers := True, p_tel := t, p_dlq := restored env c (w_fs w)\<rparr>, w\<lparr>w_sdk := k\<rparr>)"
    "sdk_adds k = sdk_adds (w_sdk w)"
proof -
  note c = created [OF assms]
  obtain t k where reg: "registerGauge (p\<lparr>p_tickers := True\<rparr>, w) = Inr (p\<lparr>p_tickers := True, p_tel := t\<rparr>, w\<lparr>w_sdk := k\<rparr>)"
    and k: "sdk_adds k = sdk_adds (w_sdk w)"
    by (rule registerGauge_created [of "p\<lparr>p_tickers := True\<rparr>" w]) (use c(9,10) in auto)
  have "p\<lparr>p_tickers := True, p_tel := t\<rparr> = p\<lparr>p_tickers := True, p_tel := t, p_dlq := []\<rparr>" using c(7) by (cases p) simp
  then have "Start env (p, w) = Inr (p\<lparr>p_tickers := True, p_tel := t, p_dlq := restored env c (w_fs w)\<rparr>, w\<lparr>w_sdk := k\<rparr>)"
    using c(2,7) reg by (auto simp: Start_def restored_def restoreDLQ_eq split: prod.split)
  then show thesis using k by (rule that)
qed

definition blank_world :: "world \<Rightarrow> bool" where
  "blank_world w \<longleftrightarrow> sdk_adds (w_sdk w) = [] \<and> w_sent w = [] \<and> w_passed w = []"

lemma bridge_life_cases:
  assumes "bridge_life env telSet c nxt ops w0 = Inr (Inr (p, w))"
  obtains p0 s where "newTracesProcessor env telSet c nxt = Inr (Inr p0)" "Start env (p0, w0) = Inr s" "proc_run env ops s = Inr (p, w)"
  using assms by (auto simp: bridge_life_def split: sum.splits)

lemma restored_attempts: "e \<in> set (restored env c fs) \<Longrightarrow> 0 \<le> de_attempts e"
  using loadDLQ_attempts [of e] by (auto simp: restored_def split: if_splits dest: in_set_takeD)

lemma within_Start:
  assumes "env_ok env" "blank_world w0" "newTracesProcessor env telSet c nxt = Inr (Inr p0)" "Start env (p0, w0) = Inr s"
  shows "within env p0 {} s"
proof -
  note c = created [OF assms(3)]
  obtain t k where st: "s = (p0\<lparr>p_tickers := True, p_tel := t,
       p_dlq := restored env c (w_fs w0)\<rparr>, w0\<lparr>w_sdk := k\<rparr>)" "sdk_adds k = sdk_adds (w_sdk w0)"
    by (rule Start_created [OF assms(3), of w0]) (use assms(4) in simp)
  have "quiet k" using st(2) assms(2) by (simp add: quiet_def blank_world_def)
  moreover have "ring_ok (c_MaxBufferSize c) (c_PreAlertWindow c) (p_buf p0)"
    using ring_ok_New [OF c(5)] valid_positive [OF c(1)] by simp
  moreover have "worker_inv (ev_cfg (ev_New (trigger_config c))) ({#}, ev_New (trigger_config c))"
    by (rule workers.inv_start) simp
  ultimately show ?thesis using st(1) c(2,3) assms(1) valid_positive [OF c(1)] restored_attempts [of _ env c "w_fs w0"]
    by (simp add: within_def) (simp add: restored_def)
qed

lemma life_within:
  assumes "env_ok env" "blank_world w0" "bridge_life env telSet c nxt ops w0 = Inr (Inr (p, w))"
  obtains p0 where "newTracesProcessor env telSet c nxt = Inr (Inr p0)" "within env p0 (consumed ops) (p, w)"
proof -
  obtain p0 s where l: "newTracesProcessor env telSet c nxt = Inr (Inr p0)" "Start env (p0, w0) = Inr s" "proc_run env ops s = Inr (p, w)"
    by (rule bridge_life_cases [OF assms(3)])
  from bounds.inv_run [OF within_Start [OF assms(1,2) l(1,2)] l(3)] l(1) that show thesis by simp
qed

lemma life_total:
  assumes "env_ok env" "blank_world w0"
  shows "\<exists>r. bridge_life env telSet c nxt ops w0 = Inr r"
proof -
  obtain r where r: "newTracesProcessor env telSet c nxt = Inr r" using newTracesProcessor_total by blast
  show ?thesis
  proof (cases r)
    case (Inr p0)
    with r have new: "newTracesProcessor env telSet c nxt = Inr (Inr p0)" by simp
    obtain s where st: "Start env (p0, w0) = Inr s" by (rule Start_created [OF new, of w0]) blast
    from bounds.run_total [OF within_Start [OF assms new st], of ops] obtain s' where "proc_run env ops s = Inr s'" by blast
    with new st show ?thesis by (simp add: bridge_life_def)
  qed (use r in \<open>simp add: bridge_life_def\<close>)
qed

text \<open>With no queue file to restore, every batch comes from what was consumed.\<close>

lemma life_separated:
  assumes "env_ok env" "blank_world w0" "fmlookup (w_fs w0) (c_PersistPath c) = None"
    "bridge_life env telSet c nxt ops w0 = Inr (Inr (p, w))"
  shows "separated env (consumed ops) (p, w)"
proof -
  obtain p0 s where l: "newTracesProcessor env telSet c nxt = Inr (Inr p0)" "Start env (p0, w0) = Inr s" "proc_run env ops s = Inr (p, w)"
    by (rule bridge_life_cases [OF assms(4)])
  note c = created [OF l(1)]
  obtain t k where st: "s = (p0\<lparr>p_tickers := True, p_tel := t,
       p_dlq := restored env c (w_fs w0)\<rparr>, w0\<lparr>w_sdk := k\<rparr>)"
    by (rule Start_created [OF l(1), of w0]) (use l(2) in simp)
  have "content (p_buf p0) tid = []" for tid
    using c(5) [symmetric] by (auto simp: ring_New_def content_def Let_def split: if_splits)
  then have "separated env {} s"
    using st assms(1-3) ring_inv_New [OF c(5)] by (simp add: separated_def blank_world_def loadDLQ_def restored_def)
  from batches.inv_run [OF this l(3)] show ?thesis by simp
qed

section \<open>What one batch does\<close>

text \<open>The walk sends nothing, queues nothing and passes nothing on.\<close>

definition unsent :: "env \<Rightarrow> processor \<times> world \<Rightarrow> span set \<Rightarrow> processor \<times> world \<Rightarrow> bool" where
  "unsent env s0 S s \<longleftrightarrow> env_ok env \<and> w_sent (snd s) = w_sent (snd s0) \<and> w_passed (snd s) = w_passed (snd s0)
     \<and> p_dlq (fst s) = p_dlq (fst s0) \<and> p_cfg (fst s) = p_cfg (fst s0) \<and> p_next (fst s) = p_next (fst s0)"

lemma unsent_evaluate:
  assumes "unsent env s0 S s" "evaluateSpan env service sp s = Inr ((p', w'), r)"
  shows "unsent env s0 S (p', w'\<lparr>w_sdk := k\<rparr>)" "unsent env s0 S (p', w')"
proof -
  obtain p w where s: "s = (p, w)" by fastforce
  have "w_sent w' = w_sent w" "w_passed w' = w_passed w" "p_dlq p' = p_dlq p" "p_cfg p' = p_cfg p" "p_next p' = p_next p"
    using assms(2) unfolding s by (cases rule: evaluateSpan_cases; simp add: tick_def)+
  with assms(1) show "unsent env s0 S (p', w'\<lparr>w_sdk := k\<rparr>)" "unsent env s0 S (p', w')" by (simp_all add: unsent_def s)
qed

interpretation walk_frame: walk_invariant env "unsent env s0" for env s0
proof unfold_locales
  fix S s tid assume i: "unsent env s0 S s"
  show "env_ok env" using i by (simp add: unsent_def)
  obtain p w where s: "s = (p, w)" by fastforce
  obtain p' w' where o: "fst (observeSpan env tid (p, w)) = (p', w')" by fastforce
  then obtain b n k where "p' = p\<lparr>p_breaker := b\<rparr>" "w' = w\<lparr>w_clock := n, w_sdk := k\<rparr>" by (rule observeSpan_frame)
  then show "unsent env s0 S (fst (observeSpan env tid s))" using i s o by (simp add: unsent_def)
next
  fix S s service sp p' w' r assume i: "unsent env s0 S s" "evaluateSpan env service sp s = Inr ((p', w'), Some r)"
  show "unsent env s0 S (p', w'\<lparr>w_sdk := RecordTriggerFired (p_tel p') (trigger_label (fr_TriggerType r)) (severity_label (fr_Severity r)) (w_sdk w')\<rparr>)"
    by (rule unsent_evaluate(1) [OF i])
next
  fix S s service sp p' w' assume i: "unsent env s0 S s" "evaluateSpan env service sp s = Inr ((p', w'), None)"
  show "unsent env s0 S (p', w')" by (rule unsent_evaluate(2) [OF i])
qed (simp_all add: unsent_def tick_def)

definition failed :: "traces \<times> forward_error option \<Rightarrow> bool" where
  "failed x \<longleftrightarrow> snd x \<noteq> None"

lemma enqueueDLQ_tds:
  "enqueueDLQ t now td (q, k) = (q', k') \<Longrightarrow> length q \<le> dlqMaxEntries \<Longrightarrow>
    map de_td q' = last_n dlqMaxEntries (map de_td q @ [td])"
  using enqueueDLQ_queue [of q t now td k] by (simp add: last_n_def drop_map [symmetric] del: drop_append)

lemma last_n_shorter: "m \<le> n \<Longrightarrow> last_n m (last_n n xs) = last_n m xs"
  by (simp add: last_n_def) (rule arg_cong [where f = "\<lambda>k. drop k xs"], linarith)

lemma last_n_snoc_again: "last_n n (last_n n xs @ ys) = last_n n (xs @ ys)"
  by (auto simp: last_n_append last_n_shorter)

text \<open>
  The flush loop: what it sends goes into the log, what failed goes into the queue, the
  last failure is its error.
\<close>

lemma flushTraces_effect:
  assumes "flushTraces env tids ((p, w), err) = ((p', w'), err')" "ring_inv (p_buf p)" "length (p_dlq p) \<le> dlqMaxEntries"
  shows "\<exists>new. w_sent w' = w_sent w @ new \<and> w_passed w' = w_passed w \<and> p_cfg p' = p_cfg p \<and> p_next p' = p_next p
    \<and> err' = (if filter failed new = [] then err else snd (last (filter failed new)))
    \<and> map de_td (p_dlq p') = last_n dlqMaxEntries (map de_td (p_dlq p) @ map fst (filter failed new))"
  using assms
proof (induction tids arbitrary: p w err)
  case Nil
  then show ?case by simp
next
  case (Cons tid tids)
  obtain p1 w1 err1 where f: "flushTrace env tid ((p, w), err) = ((p1, w1), err1)" by (metis surj_pair)
  have rest: "flushTraces env tids ((p1, w1), err1) = ((p', w'), err')" using Cons.prems(1) f by simp
  have one: "\<exists>new. w_sent w1 = w_sent w @ new \<and> w_passed w1 = w_passed w \<and> p_cfg p1 = p_cfg p \<and> p_next p1 = p_next p
     \<and> err1 = (if filter failed new = [] then err else snd (last (filter failed new)))
     \<and> map de_td (p_dlq p1) = last_n dlqMaxEntries (map de_td (p_dlq p) @ map fst (filter failed new))
     \<and> ring_inv (p_buf p1) \<and> length (p_dlq p1) \<le> dlqMaxEntries"
    using f Cons.prems(2)
  proof (cases rule: flushTrace_cases)
    case empty
    then show ?thesis using Cons.prems(2,3) by (intro exI [of _ "[]"]) (simp add: ring_inv_Drain)
  next
    case sent
    then show ?thesis using Cons.prems(2,3)
      by (intro exI [of _ "[(content (p_buf p) tid, None)]"]) (simp add: ring_inv_Drain failed_def)
  next
    case (queued e q k)
    then show ?thesis using Cons.prems(2,3) enqueueDLQ_tds [OF queued(6)] enqueue_length [OF queued(6)]
      by (intro exI [of _ "[(content (p_buf p) tid, Some e)]"]) (simp add: ring_inv_Drain failed_def)
  qed
  then obtain new1 where n1: "w_sent w1 = w_sent w @ new1" "w_passed w1 = w_passed w" "p_cfg p1 = p_cfg p" "p_next p1 = p_next p"
     "err1 = (if filter failed new1 = [] then err else snd (last (filter failed new1)))"
     "map de_td (p_dlq p1) = last_n dlqMaxEntries (map de_td (p_dlq p) @ map fst (filter failed new1))"
     "ring_inv (p_buf p1)" "length (p_dlq p1) \<le> dlqMaxEntries" by blast
  from Cons.IH [OF rest n1(7,8)] obtain new2 where n2: "w_sent w' = w_sent w1 @ new2" "w_passed w' = w_passed w1"
     "p_cfg p' = p_cfg p1" "p_next p' = p_next p1" "err' = (if filter failed new2 = [] then err1 else snd (last (filter failed new2)))"
     "map de_td (p_dlq p') = last_n dlqMaxEntries (map de_td (p_dlq p1) @ map fst (filter failed new2))" by blast
  show ?case using n1(1-6) n2
    by (intro exI [of _ "new1 @ new2"]) (simp add: last_n_snoc_again)
qed

lemma ConsumeTraces_effect:
  assumes "ConsumeTraces env td (p, w) = Inr ((p', w'), err)" "env_ok env" "within env p0 S (p, w)"
  shows "\<exists>new. w_sent w' = w_sent w @ new
    \<and> map de_td (p_dlq p') = last_n dlqMaxEntries (map de_td (p_dlq p) @ map fst (filter failed new))
    \<and> (case (fw_PassThrough (c_Forward (p_cfg p)), p_next p) of
         (True, Some nxt) \<Rightarrow> w_passed w' = w_passed w @ [td] \<and> err = map_option NextErr (nxt (length (w_passed w)) td)
       | _ \<Rightarrow> w_passed w' = w_passed w
           \<and> err = (if filter failed new = [] then None else map_option ForwardErr (snd (last (filter failed new)))))"
proof -
  obtain k p1 w1 where walk: "walkResources env td (\<lparr>wk_seen = [], wk_targets = []\<rparr>, p, w) = Inr (k, p1, w1)"
      "((p', w'), err) = finishConsume td (flushTraces env (en_range env (w_ranges w1) (wk_targets k)) ((p1, w1\<lparr>w_ranges := w_ranges w1 + 1\<rparr>), None))"
    using assms(1) by (auto simp: ConsumeTraces_def Let_def split: sum.splits)
  have "unsent env (p, w) (td_spans td) (p, w)" using assms(2) by (simp add: unsent_def)
  from walk_frame.inv_walkResources [OF this _ walk(1)]
  have u: "w_sent w1 = w_sent w" "w_passed w1 = w_passed w" "p_dlq p1 = p_dlq p" "p_cfg p1 = p_cfg p" "p_next p1 = p_next p"
    by (simp_all add: unsent_def)
  have "within env p0 (S \<union> td_spans td) (p, w)" by (rule bounds.inv_mono [OF assms(3)]) simp
  from bounds.inv_walkResources [OF this _ walk(1)]
  have b: "ring_inv (p_buf p1)" "length (p_dlq p1) \<le> dlqMaxEntries" by (simp_all add: within_def ring_ok_def)
  obtain p2 w2 err2 where f: "flushTraces env (en_range env (w_ranges w1) (wk_targets k)) ((p1, w1\<lparr>w_ranges := w_ranges w1 + 1\<rparr>), None) = ((p2, w2), err2)"
    by (metis surj_pair)
  from flushTraces_effect [OF f b] obtain new where
    n: "w_sent w2 = w_sent w @ new" "w_passed w2 = w_passed w" "p_cfg p2 = p_cfg p" "p_next p2 = p_next p"
      "err2 = (if filter failed new = [] then None else snd (last (filter failed new)))"
      "map de_td (p_dlq p2) = last_n dlqMaxEntries (map de_td (p_dlq p) @ map fst (filter failed new))"
    by (auto simp: u)
  show ?thesis
    using walk(2) n unfolding f finishConsume_def Let_def prod.case
    by (intro exI [of _ new]) (auto split: bool.splits option.splits)
qed

section \<open>Retrying\<close>

lemma retry_send_all:
  assumes "\<And>i td. td \<in> de_td ` set q \<Longrightarrow> send i td = None"
  shows "length q \<le> dlqMaxEntries \<Longrightarrow> fst (drainDLQOnce t send (q, k, sent)) = []"
    "round_sends send n q = map (\<lambda>e. (de_td e, None)) q"
proof -
  have "survivors send i q = []" for i using assms by (induction q arbitrary: i) auto
  then show "length q \<le> dlqMaxEntries \<Longrightarrow> fst (drainDLQOnce t send (q, k, sent)) = []" by (simp add: drainDLQOnce_queue)
  show "round_sends send n q = map (\<lambda>e. (de_td e, None)) q"
    using assms by (induction q arbitrary: n) (auto simp: round_sends_def)
qed

text \<open>A batch with spans is not sent when the deadline has passed.\<close>

lemma retry_expired:
  assumes "\<And>cc n d body. d \<le> 0 \<Longrightarrow> en_post env cc n (Some d) body \<noteq> None" "fw_Timeout (c_Forward (p_cfg p)) \<le> 0"
  shows "retry_send env p i td \<noteq> None \<or> rss_spanCount td = 0"
  using assms(1) [OF assms(2)] by (auto simp: retry_send_def send_now_def SendTraces_ok)

text \<open>Ticks of the retry loop with nothing new in between are rounds.\<close>

lemma retry_ticks_rounds:
  "p_dlq (fst ((retryTick env ^^ n) (p, w))) = fst (drain_rounds (p_tel p) (\<lambda>_. retry_send env p) n (p_dlq p, w_sdk w, w_sent w))"
proof (induction n arbitrary: p w)
  case 0
  then show ?case by simp
next
  case (Suc n)
  obtain q k sent where d: "drainDLQOnce (p_tel p) (retry_send env p) (p_dlq p, w_sdk w, w_sent w) = (q, k, sent)" by (metis surj_pair)
  then have r: "retryTick env (p, w) = (p\<lparr>p_dlq := q\<rparr>, w\<lparr>w_sdk := k, w_sent := sent\<rparr>)" by (simp add: retryTick_def)
  have "retry_send env (p\<lparr>p_dlq := q\<rparr>) = retry_send env p" by (simp add: fun_eq_iff retry_send_def send_now_def)
  with Suc.IH [of "p\<lparr>p_dlq := q\<rparr>" "w\<lparr>w_sdk := k, w_sent := sent\<rparr>"] show ?case
    by (simp only: funpow_Suc_right o_apply r) (simp add: d)
qed

lemma retry_ticks_expired:
  assumes "\<And>cc n d body. d \<le> 0 \<Longrightarrow> en_post env cc n (Some d) body \<noteq> None" "fw_Timeout (c_Forward (p_cfg p)) \<le> 0"
  shows "\<exists>new. w_sent (snd ((retryTick env ^^ n) (p, w))) = w_sent w @ new \<and> (\<forall>x\<in>set new. snd x \<noteq> None \<or> rss_spanCount (fst x) = 0)"
  using assms(2)
proof (induction n arbitrary: p w)
  case 0
  then show ?case by simp
next
  case (Suc n)
  obtain p1 w1 where r: "retryTick env (p, w) = (p1, w1)" by fastforce
  let ?now = "round_sends (retry_send env p) (length (w_sent w)) (p_dlq p)"
  have p1: "p_cfg p1 = p_cfg p" "w_sent w1 = w_sent w @ ?now"
    using retryTick_simps(1,9) [of env p w] r by simp_all
  obtain new where new: "w_sent (snd ((retryTick env ^^ n) (p1, w1))) = w_sent w1 @ new" "\<forall>x\<in>set new. snd x \<noteq> None \<or> rss_spanCount (fst x) = 0"
    using Suc.IH [of p1 w1] Suc.prems p1(1) by auto
  have "snd x \<noteq> None \<or> rss_spanCount (fst x) = 0" if "x \<in> set ?now" for x
    using round_sends_from [OF that] retry_expired [OF assms(1) Suc.prems] by (metis fst_conv snd_conv)
  then have "\<forall>x\<in>set (?now @ new). snd x \<noteq> None \<or> rss_spanCount (fst x) = 0" using new(2) by (metis Un_iff set_append)
  then show ?case using new(1) p1(2)
    by (intro exI [of _ "?now @ new"]) (simp add: funpow_Suc_right r del: funpow.simps)
qed

text \<open>What the interrupted round has done so far.\<close>

lemma duringRetry_cases:
  obtains k where "duringRetry env j (p, w) = (p\<lparr>p_dlq := []\<rparr>,
    w\<lparr>w_sdk := k, w_sent := w_sent w @ round_sends (retry_send env p) (length (w_sent w)) (take j (p_dlq p))\<rparr>)"
proof (cases "retryLoop (p_tel p) (retry_send env p) (take j (p_dlq p)) ([], w_sdk w, w_sent w)")
  case (fields still k sent)
  then show thesis
    using retryLoop_sent [of "p_tel p" "retry_send env p" "take j (p_dlq p)" "[]" "w_sdk w" "w_sent w"] that [of k]
    by (simp add: duringRetry_def takeDLQ_def)
qed

lemma within_bounds:
  assumes "within env p0 S (p, w)"
  shows "0 \<le> ring_Len (p_buf p) \<and> ring_Len (p_buf p) \<le> c_MaxBufferSize (p_cfg p0)
    \<and> ring_Len (p_buf p) = buf_total (ring_abs (p_buf p)) \<and> Services (p_evaluator p) \<le> 4096 \<and> dlqSize (p_dlq p) \<le> 32"
proof -
  have r: "ring_ok (c_MaxBufferSize (p_cfg p0)) (c_PreAlertWindow (p_cfg p0)) (p_buf p)" and d: "length (p_dlq p) \<le> dlqMaxEntries"
    and e: "worker_inv (ev_cfg (ev_New (trigger_config (p_cfg p0)))) ({#}, p_evaluator p)"
    using assms by (simp_all add: within_def)
  have "MaxServices (ev_cfg (p_evaluator p)) = 4096"
    using e by (simp add: worker_inv_def ev_New_def trigger_config_def Let_def defaultMaxServices_def)
  then have "Services (p_evaluator p) \<le> 4096"
    using e by (auto simp: worker_inv_def ev_ok_def Services_def order_ok_fcard)
  moreover have "0 \<le> r_count (p_buf p)" using r by (simp add: ring_ok_def ring_inv_def)
  ultimately show ?thesis
    using r d ring_Len_total [of "p_buf p"] by (simp add: ring_ok_def ring_Len_def dlqSize_def dlqMaxEntries_def)
qed

lemma life_consume:
  assumes "env_ok env" "blank_world w0" "bridge_life env telSet c nxt ops w0 = Inr (Inr (p, w))"
  shows "\<exists>s err. ConsumeTraces env td (p, w) = Inr (s, err)"
proof -
  obtain p0 where "within env p0 (consumed ops) (p, w)" by (rule life_within [OF assms])
  from bounds.run_total [OF this, of "[Consume td]"] show ?thesis
    by (cases "ConsumeTraces env td (p, w)") auto
qed

text \<open>The binary fails only when the library does, and says so.\<close>

lemma main_ok: "main built execute = ([], 0) \<longleftrightarrow>
    (\<exists>fs. built = Inr fs \<and> execute \<lparr>bi_Command = bridgeName, bi_Version = bridgeVersion\<rparr> fs = None)"
  by (auto simp: main_def split: sum.split option.split)

section \<open>What the buffer sees of one batch\<close>

interpretation buffer_frame: span_invariant env "\<lambda>S s. p_buf (fst s) = b" for env b
proof unfold_locales
  fix s :: "processor \<times> world" and tid assume i: "p_buf (fst s) = b"
  obtain p w where s: "s = (p, w)" by fastforce
  obtain p' w' where o: "fst (observeSpan env tid (p, w)) = (p', w')" by fastforce
  then obtain c n k where "p' = p\<lparr>p_breaker := c\<rparr>" "w' = w\<lparr>w_clock := n, w_sdk := k\<rparr>" by (rule observeSpan_frame)
  then show "p_buf (fst (fst (observeSpan env tid s))) = b" using i s o by simp
next
  fix s :: "processor \<times> world" and service sp p' w' assume i: "p_buf (fst s) = b" "evaluateSpan env service sp s = Inr ((p', w'), None)"
  then show "p_buf (fst (p', w')) = b" using evaluateSpan_buf by (cases s) fastforce
next
  fix s :: "processor \<times> world" and service sp p' w' r assume i: "p_buf (fst s) = b" "evaluateSpan env service sp s = Inr ((p', w'), Some r)"
  then show "p_buf (fst (p', w'\<lparr>w_sdk := RecordTriggerFired (p_tel p') (trigger_label (fr_TriggerType r)) (severity_label (fr_Severity r)) (w_sdk w')\<rparr>)) = b"
    using evaluateSpan_buf by (cases s) fastforce
qed

text \<open>The part of a batch that belongs to one trace.\<close>

definition parts_of :: "trace_id \<Rightarrow> traces \<Rightarrow> resource_spans list" where
  "parts_of tid td = map (\<lambda>rs. isolateTrace rs tid) (filter (\<lambda>rs. tid \<in> set (traceIDsInResource rs)) td)"

lemma puts_for_append: "puts_for k (xs @ ys) = puts_for k xs @ puts_for k ys"
  by (induction k xs rule: puts_for.induct) simp_all

lemma ring_run_append: "ring_run (xs @ ys) r = ring_run ys (ring_run xs r)"
  by (simp add: ring_run_def store_run_def)

lemma bufferTraces_run:
  "\<exists>ops. p_buf (fst (bufferTraces env rs tids (p, w))) = ring_run ops (p_buf p)
    \<and> (\<forall>k. distinct tids \<longrightarrow> puts_for k ops = (if k \<in> set tids then [isolateTrace rs k] else []))"
proof (induction tids arbitrary: p w)
  case Nil
  then show ?case by (intro exI [of _ "[]"]) (simp add: ring_run_def store_run_def)
next
  case (Cons tid tids)
  let ?now = "en_clock env (w_clock w)"
  let ?p = "p\<lparr>p_buf := fst (ring_Insert ?now tid (isolateTrace rs tid) (p_buf p))\<rparr>"
  obtain ops where ops: "p_buf (fst (bufferTraces env rs tids (?p, tick 1 w))) = ring_run ops (p_buf ?p)"
      "\<forall>k. distinct tids \<longrightarrow> puts_for k ops = (if k \<in> set tids then [isolateTrace rs k] else [])"
    using Cons.IH [of ?p "tick 1 w"] by blast
  show ?case
    by (intro exI [of _ "Put ?now tid (isolateTrace rs tid) # ops"])
      (use ops in \<open>auto simp: Let_def ring_run_def store_run_def\<close>)
qed

lemma env_range_distinct: "env_ok env \<Longrightarrow> distinct (en_range env n tids) = distinct tids"
  unfolding env_ok_def by (metis mset_eq_imp_distinct_iff)

lemma walkResources_buffer:
  assumes "env_ok env"
  shows "walkResources env td (k, p, w) = Inr (k', p', w') \<Longrightarrow>
    \<exists>ops. p_buf p' = ring_run ops (p_buf p) \<and> (\<forall>j. puts_for j ops = parts_of j td)"
proof (induction td arbitrary: k p w)
  case Nil
  then show ?case by (intro exI [of _ "[]"]) (simp add: parts_of_def ring_run_def store_run_def)
next
  case (Cons rs rss)
  let ?tids = "en_range env (w_ranges w) (traceIDsInResource rs)"
  let ?s = "bufferTraces env rs ?tids (p, w\<lparr>w_ranges := w_ranges w + 1\<rparr>)"
  obtain k1 p1 w1 where one: "walkResource env rs (k, p, w) = Inr (k1, p1, w1)" "walkResources env rss (k1, p1, w1) = Inr (k', p', w')"
    using Cons.prems by (auto split: sum.splits)
  have "walkSpans env (serviceName (en_api env) (rs_Attributes rs)) (rs_spans rs) (k, ?s) = Inr (k1, p1, w1)"
    using one(1) by (simp add: walkResource_def Let_def)
  from buffer_frame.inv_walkSpans [OF refl this] have "p_buf p1 = p_buf (fst ?s)" by simp
  moreover obtain ops1 where "p_buf (fst ?s) = ring_run ops1 (p_buf p)"
      "\<forall>j. puts_for j ops1 = (if j \<in> set ?tids then [isolateTrace rs j] else [])"
    using bufferTraces_run [of env rs ?tids p "w\<lparr>w_ranges := w_ranges w + 1\<rparr>"] env_range_distinct [OF assms] by auto
  moreover obtain ops2 where "p_buf p' = ring_run ops2 (p_buf p1)" "\<forall>j. puts_for j ops2 = parts_of j rss"
    using Cons.IH [OF one(2)] by blast
  ultimately show ?case
    by (intro exI [of _ "ops1 @ ops2"]) (simp add: ring_run_append puts_for_append parts_of_def env_range_set [OF assms])
qed

text \<open>The targets are traces of the batch, each once.\<close>

definition targets_ok :: "trace_id set \<Rightarrow> walk \<Rightarrow> bool" where
  "targets_ok T k \<longleftrightarrow> distinct (wk_targets k) \<and> set (wk_targets k) \<subseteq> T"

lemma targets_walkSpan:
  "walkSpan env service sp (k, s) = Inr (k', s') \<Longrightarrow> targets_ok T k \<Longrightarrow> sp_TraceID sp \<in> T \<Longrightarrow> targets_ok T k'"
  by (cases s) (auto simp: walkSpan_def Let_def targets_ok_def add_target_def split: if_splits sum.splits prod.splits option.splits)

lemma targets_walkSpans:
  "walkSpans env service sps (k, s) = Inr (k', s') \<Longrightarrow> targets_ok T k \<Longrightarrow> sp_TraceID ` set sps \<subseteq> T \<Longrightarrow> targets_ok T k'"
proof (induction sps arbitrary: k s)
  case (Cons sp sps)
  then obtain k1 s1 where "walkSpan env service sp (k, s) = Inr (k1, s1)" "walkSpans env service sps (k1, s1) = Inr (k', s')"
    by (auto split: sum.splits)
  with Cons targets_walkSpan show ?case by auto
qed simp

lemma targets_walkResources:
  "walkResources env td (k, s) = Inr (k', s') \<Longrightarrow> targets_ok T k \<Longrightarrow> sp_TraceID ` td_spans td \<subseteq> T \<Longrightarrow> targets_ok T k'"
proof (induction td arbitrary: k s)
  case (Cons rs rss)
  then obtain k1 s1 where one: "walkResource env rs (k, s) = Inr (k1, s1)" "walkResources env rss (k1, s1) = Inr (k', s')"
    by (auto split: sum.splits)
  have sub: "sp_TraceID ` set (rs_spans rs) \<subseteq> T" "sp_TraceID ` td_spans rss \<subseteq> T" using Cons.prems(3) by (auto simp: td_spans_def)
  have "targets_ok T k1"
    using one(1) targets_walkSpans [OF _ Cons.prems(2) sub(1)] by (cases s) (auto simp: walkResource_def Let_def)
  with Cons.IH [OF one(2)] sub(2) show ?case by blast
qed simp

text \<open>The flush loop drains the targets one after the other and sends what is not nil.\<close>

lemma flushTraces_drains:
  assumes "flushTraces env tids ((p, w), err) = ((p', w'), err')" "ring_inv (p_buf p)" "distinct tids"
  shows "map fst (w_sent w') = map fst (w_sent w) @ filter (\<lambda>td. td \<noteq> []) (map (content (p_buf p)) tids)
    \<and> (\<forall>j. content (p_buf p') j = (if j \<in> set tids then [] else content (p_buf p) j))"
  using assms
proof (induction tids arbitrary: p w err)
  case Nil
  then show ?case by simp
next
  case (Cons tid tids)
  obtain p1 w1 err1 where f: "flushTrace env tid ((p, w), err) = ((p1, w1), err1)" by (metis surj_pair)
  have rest: "flushTraces env tids ((p1, w1), err1) = ((p', w'), err')" using Cons.prems(1) f by simp
  have b: "p_buf p1 = fst (ring_Drain tid (p_buf p))"
      "map fst (w_sent w1) = map fst (w_sent w) @ filter (\<lambda>td. td \<noteq> []) [content (p_buf p) tid]"
    using f Cons.prems(2) by (cases rule: flushTrace_cases; simp)+
  have inv: "ring_inv (p_buf p1)" using Cons.prems(2) b(1) by (simp add: ring_inv_Drain)
  have cont: "content (p_buf p1) j = (if j = tid then [] else content (p_buf p) j)" for j
    unfolding b(1) by (rule rb.cont_drn [OF Cons.prems(2)])
  have "map (content (p_buf p1)) tids = map (content (p_buf p)) tids"
    using Cons.prems(3) cont by auto
  from Cons.IH [OF rest inv, unfolded this] Cons.prems(3) have
    "map fst (w_sent w') = map fst (w_sent w1) @ filter (\<lambda>td. td \<noteq> []) (map (content (p_buf p)) tids)"
    "\<forall>j. content (p_buf p') j = (if j \<in> set tids then [] else content (p_buf p1) j)" by simp_all
  then show ?case using b(2) cont by simp
qed

end
