(* ===== verification/Firing.thy ===== *)
theory Firing
  imports Bridge "HOL-Library.Sublist"
begin

text \<open>
  Which spans of a batch \<open>ConsumeTraces\<close> evaluates, and which traces it flushes for it: the
  walk of \<open>processor.go\<close> against a log of the evaluations it makes.
\<close>

section \<open>The spans of a batch\<close>

definition batch_spans :: "env \<Rightarrow> traces \<Rightarrow> (string \<times> span) list" where
  "batch_spans env td = concat (map (\<lambda>rs. map (Pair (serviceName (en_api env) (rs_Attributes rs))) (rs_spans rs)) td)"

text \<open>The first span of each span id.\<close>

fun fresh :: "span_id list \<Rightarrow> (string \<times> span) list \<Rightarrow> (string \<times> span) list" where
  "fresh seen [] = []"
| "fresh seen (x # xs) = (if sp_SpanID (snd x) \<in> set seen then fresh seen xs else x # fresh (sp_SpanID (snd x) # seen) xs)"

lemma fresh_snoc:
  "fresh seen (xs @ [x]) = fresh seen xs @ (if sp_SpanID (snd x) \<in> set seen \<union> sp_SpanID ` snd ` set xs then [] else [x])"
  by (induction seen xs rule: fresh.induct) auto

text \<open>A server or client span of a named service, with a duration of at most an hour.\<close>

definition evaluable :: "env \<Rightarrow> string \<times> span \<Rightarrow> bool" where
  "evaluable env x \<longleftrightarrow>
     (let d = time_sub (api_AsTime (en_api env) (sp_EndTimestamp (snd x))) (api_AsTime (en_api env) (sp_StartTimestamp (snd x)))
      in mapSpanKind (sp_Kind (snd x)) \<noteq> SignalOther \<and> fst x \<noteq> [] \<and> 0 \<le> d \<and> d \<le> hour)"

definition past_breaker :: "processor \<Rightarrow> trace_id \<Rightarrow> bool" where
  "past_breaker p tid = (case p_breaker p of None \<Rightarrow> False | Some b \<Rightarrow> shouldDrop tid b)"

section \<open>The log of evaluations\<close>

type_synonym eval_log = "((string \<times> span) \<times> flush_reason option) list"

inductive evaluated :: "env \<Rightarrow> evaluator \<Rightarrow> eval_log \<Rightarrow> evaluator \<Rightarrow> bool" for env e0 where
  evaluated_none: "evaluated env e0 [] e0"
| evaluated_span: "evaluated env e0 log e \<Longrightarrow>
    OnRequestComplete (en_arch env) now touchNow service (span_signal env at sp)
      (if mapSpanKind (sp_Kind sp) = SignalServer then OnRequestStart begin service e else e) = Inr (e', r) \<Longrightarrow>
    evaluated env e0 (log @ [((service, sp), r)]) e'"

definition fired_traces :: "eval_log \<Rightarrow> trace_id set" where
  "fired_traces log = (\<lambda>(x, r). sp_TraceID (snd x)) ` {(x, r) \<in> set log. r \<noteq> None}"

lemma fired_traces_snoc:
  "fired_traces (log @ [(x, r)]) = fired_traces log \<union> (if r = None then {} else {sp_TraceID (snd x)})"
  by (auto simp: fired_traces_def)

text \<open>
  A log that leads from one evaluator to that of a processor, over the evaluable first spans
  in their order, all but those whose trace has passed the hard breaker.
\<close>

definition evaluates :: "env \<Rightarrow> evaluator \<Rightarrow> (string \<times> span) list \<Rightarrow> eval_log \<Rightarrow> processor \<Rightarrow> bool" where
  "evaluates env e0 xs log p \<longleftrightarrow> evaluated env e0 log (p_evaluator p)
     \<and> subseq (map fst log) (filter (evaluable env) (fresh [] xs))
     \<and> (\<forall>x\<in>set (fresh [] xs). evaluable env x \<longrightarrow> x \<in> fst ` set log \<or> past_breaker p (sp_TraceID (snd x)))"

definition walked :: "env \<Rightarrow> evaluator \<Rightarrow> (string \<times> span) list \<Rightarrow> eval_log \<Rightarrow> walk \<Rightarrow> processor \<Rightarrow> bool" where
  "walked env e0 xs log k p \<longleftrightarrow> set (wk_seen k) = sp_SpanID ` snd ` set xs
     \<and> evaluates env e0 xs log p \<and> set (wk_targets k) = fired_traces log"

lemmas walked_defs = walked_def evaluates_def

lemma evaluates_frame:
  "p_evaluator p = p_evaluator q \<Longrightarrow> p_breaker p = p_breaker q \<Longrightarrow> evaluates env e0 xs log p = evaluates env e0 xs log q"
  by (simp add: evaluates_def past_breaker_def)

section \<open>The steps of the walk\<close>

lemma tier_top: "\<not> tierBreaker < tier"
  by (cases tier) (simp_all add: less_trace_tier_def)

lemma observe_tier_mono:
  assumes "observe now t b = (b', tier)" "shouldDrop tid b"
  shows "shouldDrop tid b'"
proof (cases "t = tid")
  case True
  then show ?thesis using assms tier_top
    by (auto simp: shouldDrop_def observe_def Let_def split: option.splits if_splits)
next
  case False
  then show ?thesis using assms observe_other [of tid t now b] by (simp add: shouldDrop_def)
qed

lemma observeSpan_breaker:
  assumes "observeSpan env tid (p, w) = ((p1, w1), d)"
  shows "p_evaluator p1 = p_evaluator p" "d = past_breaker p1 tid" "past_breaker p t \<Longrightarrow> past_breaker p1 t"
  using assms
  by (auto simp: observeSpan_def past_breaker_def Let_def dest: observe_tier_mono split: option.splits prod.splits if_splits)

lemma evaluateSpan_log:
  assumes "evaluateSpan env service sp (p, w) = Inr ((p', w'), r)" "evaluated env e0 log (p_evaluator p)"
  shows "p_breaker p' = p_breaker p"
    "evaluable env (service, sp) \<Longrightarrow> evaluated env e0 (log @ [((service, sp), r)]) (p_evaluator p')"
    "\<not> evaluable env (service, sp) \<Longrightarrow> p' = p \<and> r = None"
proof -
  show "p_breaker p' = p_breaker p" using assms(1) by (cases rule: evaluateSpan_cases) simp_all
  show "evaluated env e0 (log @ [((service, sp), r)]) (p_evaluator p')" if e: "evaluable env (service, sp)"
  proof -
    have "OnRequestComplete (en_arch env) (en_clock env (w_clock w + 2)) (en_clock env (w_clock w + 3)) service
        (span_signal env (en_clock env (w_clock w)) sp)
        (if mapSpanKind (sp_Kind sp) = SignalServer then OnRequestStart (en_clock env (w_clock w + 1)) service (p_evaluator p) else p_evaluator p)
        = Inr (p_evaluator p', r)"
      using assms(1) e by (auto simp: evaluateSpan_def evaluable_def Let_def split: sum.splits if_splits)
    with assms(2) show ?thesis by (rule evaluated_span)
  qed
  show "p' = p \<and> r = None" if "\<not> evaluable env (service, sp)"
    using assms(1) that by (auto simp: evaluateSpan_def evaluable_def Let_def split: sum.splits if_splits)
qed

lemma walked_walkSpan:
  assumes step: "walkSpan env service sp (k, p, w) = Inr (k', p', w')" and w: "walked env e0 xs log k p"
  shows "\<exists>log'. walked env e0 (xs @ [(service, sp)]) log' k' p'"
proof (cases "sp_SpanID sp \<in> set (wk_seen k)")
  case True
  then have "k' = k" "p' = p" using step by (simp_all add: walkSpan_def)
  moreover have "walked env e0 (xs @ [(service, sp)]) log k p"
    using w True by (auto simp: walked_defs fresh_snoc)
  ultimately show ?thesis by blast
next
  case False
  define k1 where "k1 = k\<lparr>wk_seen := sp_SpanID sp # wk_seen k\<rparr>"
  obtain p1 w1 d where o: "observeSpan env (sp_TraceID sp) (p, w) = ((p1, w1), d)" by (metis surj_pair)
  note ob = observeSpan_breaker [OF o]
  have new: "fresh [] (xs @ [(service, sp)]) = fresh [] xs @ [(service, sp)]"
    using w False by (auto simp: walked_defs fresh_snoc)
  have seen: "set (wk_seen k1) = sp_SpanID ` snd ` set (xs @ [(service, sp)])" "wk_targets k1 = wk_targets k"
    using w by (simp_all add: walked_def k1_def)
  have old: "evaluated env e0 log (p_evaluator p1)" "subseq (map fst log) (filter (evaluable env) (fresh [] xs))"
    "\<forall>x\<in>set (fresh [] xs). evaluable env x \<longrightarrow> x \<in> fst ` set log \<or> past_breaker p1 (sp_TraceID (snd x))"
    "set (wk_targets k) = fired_traces log"
    using w ob(1,3) by (auto simp: walked_defs)
  show ?thesis
  proof (cases d)
    case True
    then have e: "k' = k1" "p' = p1" using step False o by (simp_all add: walkSpan_def k1_def Let_def)
    have "walked env e0 (xs @ [(service, sp)]) log k1 p1"
      using seen old True ob(2) by (auto simp: walked_defs new)
    with e show ?thesis by blast
  next
    case d: False
    obtain p2 w2 r where ev: "evaluateSpan env service sp (p1, w1) = Inr ((p2, w2), r)"
      using step False o d by (auto simp: walkSpan_def Let_def split: sum.splits)
    note evl = evaluateSpan_log [OF ev old(1)]
    have res: "p' = p2" "k' = (case r of None \<Rightarrow> k1 | Some _ \<Rightarrow> add_target (sp_TraceID sp) k1)"
      using step False o d ev by (auto simp: walkSpan_def k1_def Let_def split: option.splits)
    have pb: "past_breaker p2 t = past_breaker p1 t" for t using evl(1) by (simp add: past_breaker_def)
    have tgt: "set (wk_seen k') = set (wk_seen k1)"
        "set (wk_targets k') = set (wk_targets k) \<union> (if r = None then {} else {sp_TraceID sp})"
      using res(2) seen(2) by (auto simp: add_target_def split: option.splits)
    show ?thesis
    proof (cases "evaluable env (service, sp)")
      case True
      have "subseq (map fst (log @ [((service, sp), r)])) (filter (evaluable env) (fresh [] (xs @ [(service, sp)])))"
        using old(2) True by (simp add: new)
      then have "walked env e0 (xs @ [(service, sp)]) (log @ [((service, sp), r)]) k' p2"
        using evl(2) [OF True] seen(1) old(3,4) tgt pb by (auto simp: walked_defs new fired_traces_snoc)
      with res(1) show ?thesis by blast
    next
      case skip: False
      have "walked env e0 (xs @ [(service, sp)]) log k' p2"
        using evl(3) [OF skip] seen(1) old tgt pb skip by (simp add: walked_defs new)
      with res(1) show ?thesis by blast
    qed
  qed
qed

lemma walked_walkSpans:
  "walkSpans env service sps (k, p, w) = Inr (k', p', w') \<Longrightarrow> walked env e0 xs log k p
   \<Longrightarrow> \<exists>log'. walked env e0 (xs @ map (Pair service) sps) log' k' p'"
proof (induction sps arbitrary: xs log k p w)
  case Nil
  then show ?case by auto
next
  case (Cons sp sps)
  obtain k1 p1 w1 where one: "walkSpan env service sp (k, p, w) = Inr (k1, p1, w1)" "walkSpans env service sps (k1, p1, w1) = Inr (k', p', w')"
    using Cons.prems(1) by (auto split: sum.splits)
  obtain log1 where "walked env e0 (xs @ [(service, sp)]) log1 k1 p1" using walked_walkSpan [OF one(1) Cons.prems(2)] by blast
  from Cons.IH [OF one(2) this] show ?case by simp
qed

lemma bufferTraces_frame:
  "p_evaluator (fst (bufferTraces env rs tids (p, w))) = p_evaluator p"
  "p_breaker (fst (bufferTraces env rs tids (p, w))) = p_breaker p"
  by (induction tids arbitrary: p w) (simp_all add: Let_def)

lemma walked_walkResources:
  "walkResources env td (k, p, w) = Inr (k', p', w') \<Longrightarrow> walked env e0 xs log k p
   \<Longrightarrow> \<exists>log'. walked env e0 (xs @ batch_spans env td) log' k' p'"
proof (induction td arbitrary: xs log k p w)
  case Nil
  then show ?case by (auto simp: batch_spans_def)
next
  case (Cons rs rss)
  let ?s = "bufferTraces env rs (en_range env (w_ranges w) (traceIDsInResource rs)) (p, w\<lparr>w_ranges := w_ranges w + 1\<rparr>)"
  let ?service = "serviceName (en_api env) (rs_Attributes rs)"
  obtain q v where s: "?s = (q, v)" by fastforce
  obtain k1 p1 w1 where one: "walkResource env rs (k, p, w) = Inr (k1, p1, w1)" "walkResources env rss (k1, p1, w1) = Inr (k', p', w')"
    using Cons.prems(1) by (auto split: sum.splits)
  have "walked env e0 xs log k q"
    using Cons.prems(2) bufferTraces_frame [of env rs "en_range env (w_ranges w) (traceIDsInResource rs)" p "w\<lparr>w_ranges := w_ranges w + 1\<rparr>"]
    unfolding s by (simp add: walked_def evaluates_frame [of q p])
  moreover have "walkSpans env ?service (rs_spans rs) (k, q, v) = Inr (k1, p1, w1)"
    using one(1) s by (simp add: walkResource_def Let_def)
  ultimately obtain log1 where "walked env e0 (xs @ map (Pair ?service) (rs_spans rs)) log1 k1 p1"
    using walked_walkSpans by blast
  from Cons.IH [OF one(2) this] show ?case by (simp add: batch_spans_def)
qed

lemma walked_batch:
  assumes "walkResources env td (\<lparr>wk_seen = [], wk_targets = []\<rparr>, p, w) = Inr (k', p', w')"
  obtains log where "walked env (p_evaluator p) (batch_spans env td) log k' p'"
proof -
  have "walked env (p_evaluator p) [] [] \<lparr>wk_seen = [], wk_targets = []\<rparr> p"
    by (simp add: walked_defs evaluated_none fired_traces_def)
  from walked_walkResources [OF assms this] that show thesis by auto
qed

section \<open>The flush\<close>

lemma flushTrace_frame:
  "p_evaluator (fst (fst (flushTrace env tid s))) = p_evaluator (fst (fst s))"
  "p_breaker (fst (fst (flushTrace env tid s))) = p_breaker (fst (fst s))"
  by (cases s; auto simp: flushTrace_def Let_def split: prod.splits option.splits if_splits)+

lemma flushTraces_frame:
  "p_evaluator (fst (fst (flushTraces env tids s))) = p_evaluator (fst (fst s))"
  "p_breaker (fst (fst (flushTraces env tids s))) = p_breaker (fst (fst s))"
  by (induction env tids s rule: flushTraces.induct) (simp_all add: flushTrace_frame)

lemma ConsumeTraces_buffer:
  assumes "ConsumeTraces env td (p, w) = Inr ((p', w'), err)" "env_ok env" "ring_inv (p_buf p)"
  shows "\<exists>held targets log. evaluates env (p_evaluator p) (batch_spans env td) log p'
    \<and> distinct targets \<and> set targets = fired_traces log
    \<and> (\<forall>tid. suffix (held tid) (content (p_buf p) tid @ parts_of tid td))
    \<and> map fst (w_sent w') = map fst (w_sent w) @ filter (\<lambda>td. td \<noteq> []) (map held targets)
    \<and> (\<forall>tid. content (p_buf p') tid = (if tid \<in> set targets then [] else held tid))"
proof -
  obtain k p1 w1 where walk: "walkResources env td (\<lparr>wk_seen = [], wk_targets = []\<rparr>, p, w) = Inr (k, p1, w1)"
      "((p', w'), err) = finishConsume td (flushTraces env (en_range env (w_ranges w1) (wk_targets k)) ((p1, w1\<lparr>w_ranges := w_ranges w1 + 1\<rparr>), None))"
    using assms(1) by (auto simp: ConsumeTraces_def Let_def split: sum.splits)
  let ?targets = "en_range env (w_ranges w1) (wk_targets k)"
  have "unsent env (p, w) (td_spans td) (p, w)" using assms(2) by (simp add: unsent_def)
  from walk_frame.inv_walkResources [OF this _ walk(1)] have sent: "w_sent w1 = w_sent w" by (simp add: unsent_def)
  obtain ops where ops: "p_buf p1 = ring_run ops (p_buf p)" "\<forall>j. puts_for j ops = parts_of j td"
    using walkResources_buffer [OF assms(2) walk(1)] by blast
  have inv: "ring_inv (p_buf p1)" unfolding ops(1) by (rule ring_inv_run [OF assms(3)])
  have suf: "suffix (content (p_buf p1) tid) (content (p_buf p) tid @ parts_of tid td)" for tid
    using rb.run_suffix [OF assms(3), of ops tid] ops by (simp add: ring_run_def)
  obtain log where log: "walked env (p_evaluator p) (batch_spans env td) log k p1" by (rule walked_batch [OF walk(1)])
  have "targets_ok UNIV k"
    by (rule targets_walkResources [OF walk(1)]) (simp_all add: targets_ok_def)
  then have t: "distinct ?targets" "set ?targets = fired_traces log"
    using env_range_distinct [OF assms(2)] env_range_set [OF assms(2)] log by (simp_all add: targets_ok_def walked_def)
  obtain p2 w2 err2 where f: "flushTraces env ?targets ((p1, w1\<lparr>w_ranges := w_ranges w1 + 1\<rparr>), None) = ((p2, w2), err2)" by (metis surj_pair)
  have same: "p' = p2" "w_sent w' = w_sent w2"
    using walk(2) unfolding f finishConsume_def Let_def prod.case by (auto split: bool.splits option.splits)
  have "p_evaluator p2 = p_evaluator p1" "p_breaker p2 = p_breaker p1"
    using flushTraces_frame [of env ?targets "((p1, w1\<lparr>w_ranges := w_ranges w1 + 1\<rparr>), None)"] f by simp_all
  then have "evaluates env (p_evaluator p) (batch_spans env td) log p'"
    using log same(1) evaluates_frame [of p' p1] by (simp add: walked_def)
  then show ?thesis
    using flushTraces_drains [OF f inv t(1)] same(2) unfolding same(1)
    by (intro exI [of _ "content (p_buf p1)"] exI [of _ ?targets] exI [of _ log]) (simp add: sent t suf)
qed

section \<open>Properties\<close>

text \<open>
  C12: gRPC failures are invisible to the triggers. A server span without an HTTP status whose
  gRPC status is an integer below 200, as all gRPC codes are, is taken as that HTTP status:
  even when the span is marked as failed, it counts as a request that neither failed nor
  succeeded, and leaves the latency window alone. Without the attribute, the same span counts
  as a failure.
\<close>

theorem grpc_failure_not_counted:
  assumes "sp_Kind sp = SpanKindServer" and "sp_Status sp = StatusCodeError"
    and "attr_get (sp_Attributes sp) ''http.response.status_code'' = None"
    and "attr_get (sp_Attributes sp) ''http.status_code'' = None"
    and "attr_get (sp_Attributes sp) ''rpc.grpc.status_code'' = map_option VInt grpc"
    and "pred_option (\<lambda>n. 0 \<le> n \<and> n < 200) grpc"
  shows "recordSignal arch (span_signal env now sp) bucket st =
    st\<lparr>errorWindow := (if grpc = None then incHits bucket (incTotal bucket (errorWindow st)) else incTotal bucket (errorWindow st))\<rparr>"
proof -
  have sig: "sig_Kind (span_signal env now sp) = SignalServer"
      "sig_StatusCode (span_signal env now sp) = (case grpc of None \<Rightarrow> 500 | Some n \<Rightarrow> n)"
    using assms(1-5) by (simp_all add: span_signal_def mapSpanKind_def statusCode_def status_of_key_def split: option.split)
  have "recordIfSuccessLike arch (span_signal env now sp) bucket w = w" for w
    using assms(6) sig(2) by (cases grpc) (simp_all add: recordIfSuccessLike_def)
  then show ?thesis using sig assms(6) by (cases grpc) (simp_all add: recordSignal_def)
qed

definition grpc_span :: span where
  "grpc_span = \<lparr>sp_TraceID = [1], sp_SpanID = [2], sp_Kind = SpanKindServer, sp_StartTimestamp = 0, sp_EndTimestamp = 9,
     sp_Attributes = [(''rpc.grpc.status_code'', VInt 14)], sp_Status = StatusCodeError, sp_rest = []\<rparr>"

theorem grpc_failure_not_counted_witness:
  "\<forall>env now. recordSignal AMD64 (span_signal env now grpc_span) 3 newServiceState
    = newServiceState\<lparr>errorWindow := incTotal 3 (errorWindow newServiceState)\<rparr>"
  using grpc_failure_not_counted [of grpc_span "Some 14" AMD64 _ _ 3 newServiceState]
  by (simp add: grpc_span_def attr_get_def)

end
