(* ===== verification/Interleaving.thy ===== *)
theory Interleaving
  imports Bridge
begin

text \<open>
  The goroutines of a running processor together: any number of \<open>ConsumeTraces\<close> calls, the
  prune loop and the retry loop. Every shared structure is behind its own mutex, so a step
  is one critical section of one goroutine, and they come in any order. The steps of the
  evaluator and of the dead-letter queue are those of their own theories; what a call of
  \<open>ConsumeTraces\<close> holds between draining a trace and the answer of the backend is
  \<open>il_flying\<close>. \<open>il_received\<close>, \<open>il_drained\<close> and \<open>il_delivered\<close> are history.
\<close>

record interleaved =
  il_received :: "span set"
  il_buf :: ring
  il_workers :: "string multiset \<times> evaluator"
  il_breaker :: trace_breaker
  il_dlq :: dlq_sys
  il_flying :: "traces multiset"
  il_drained :: "traces multiset"
  il_delivered :: "traces multiset"

datatype il_event =
    IlReceive traces | IlInsert trace_id resource_spans | IlWorker worker_event | IlObserve trace_id
  | IlDrain trace_id | IlSent traces | IlFailed traces | IlRetry dlq_event | IlPruneBuffer | IlPruneBreaker

inductive il_step :: "goarch \<Rightarrow> telemetry option \<Rightarrow> interleaved \<Rightarrow> il_event \<Rightarrow> interleaved \<Rightarrow> bool"
  for arch tel where
  il_receive: "il_step arch tel s (IlReceive td) (s\<lparr>il_received := il_received s \<union> td_spans td\<rparr>)"
| il_insert: "tid \<in> set (traceIDsInResource rs) \<Longrightarrow> set (rs_spans rs) \<subseteq> il_received s \<Longrightarrow>
    il_step arch tel s (IlInsert tid rs) (s\<lparr>il_buf := fst (ring_Insert now tid (isolateTrace rs tid) (il_buf s))\<rparr>)"
| il_worker: "worker_step arch (il_workers s) l ws \<Longrightarrow> il_step arch tel s (IlWorker l) (s\<lparr>il_workers := ws\<rparr>)"
| il_observe: "il_step arch tel s (IlObserve tid) (s\<lparr>il_breaker := fst (observe now tid (il_breaker s))\<rparr>)"
| il_drain: "ring_Drain tid (il_buf s) = (buf, Some out) \<Longrightarrow> out \<noteq> [] \<Longrightarrow>
    il_step arch tel s (IlDrain tid)
      (s\<lparr>il_buf := buf, il_flying := add_mset out (il_flying s), il_drained := add_mset out (il_drained s)\<rparr>)"
| il_sent: "out \<in># il_flying s \<Longrightarrow>
    il_step arch tel s (IlSent out) (s\<lparr>il_flying := il_flying s - {#out#}, il_delivered := add_mset out (il_delivered s)\<rparr>)"
| il_failed: "out \<in># il_flying s \<Longrightarrow> dlq_step tel (il_dlq s) (DlqEnqueue out) d \<Longrightarrow>
    il_step arch tel s (IlFailed out) (s\<lparr>il_flying := il_flying s - {#out#}, il_dlq := d\<rparr>)"
| il_retry: "dlq_step tel (il_dlq s) l d \<Longrightarrow> (\<forall>td. l \<noteq> DlqEnqueue td) \<Longrightarrow>
    il_step arch tel s (IlRetry l) (s\<lparr>il_dlq := d\<rparr>)"
| il_prune_buffer: "il_step arch tel s IlPruneBuffer (s\<lparr>il_buf := fst (ring_PruneByTime now (il_buf s))\<rparr>)"
| il_prune_breaker: "il_step arch tel s IlPruneBreaker (s\<lparr>il_breaker := fst (br_pruneStale now (il_breaker s))\<rparr>)"

text \<open>A processor that has just started with an empty queue.\<close>

definition il_init :: "config \<Rightarrow> interleaved \<Rightarrow> bool" where
  "il_init c s \<longleftrightarrow> il_received s = {}
     \<and> ring_New \<lparr>opt_MaxSpans = c_MaxBufferSize c, opt_PreAlertWindow = c_PreAlertWindow c\<rparr> = Inr (il_buf s)
     \<and> il_workers s = ({#}, ev_New (trigger_config c)) \<and> dlq_init (il_dlq s) \<and> ds_queue (il_dlq s) = []
     \<and> il_flying s = {#} \<and> il_drained s = {#} \<and> il_delivered s = {#}"

definition il_inv :: "config \<Rightarrow> interleaved \<Rightarrow> bool" where
  "il_inv c s \<longleftrightarrow> ring_ok (c_MaxBufferSize c) (if c_PreAlertWindow c \<le> 0 then 5 * minute else c_PreAlertWindow c) (il_buf s)
     \<and> worker_inv (ev_cfg (ev_New (trigger_config c))) (il_workers s) \<and> dlq_inv (il_dlq s)
     \<and> il_drained s = il_flying s + il_delivered s + mset (ds_enqueued (il_dlq s))
     \<and> (\<forall>tid. of_trace (il_received s) tid (content (il_buf s) tid))
     \<and> (\<forall>td. td \<in># il_drained s \<longrightarrow> one_trace (il_received s) td)"

lemma il_inv_init: "il_init c s \<Longrightarrow> il_inv c s"
proof -
  assume i: "il_init c s"
  then have r: "ring_New \<lparr>opt_MaxSpans = c_MaxBufferSize c, opt_PreAlertWindow = c_PreAlertWindow c\<rparr> = Inr (il_buf s)"
    by (simp add: il_init_def)
  from r [symmetric] have "content (il_buf s) tid = []" for tid by (auto simp: ring_New_def content_def Let_def split: if_splits)
  moreover have "worker_inv (ev_cfg (ev_New (trigger_config c))) ({#}, ev_New (trigger_config c))"
    by (rule workers.inv_start) simp
  ultimately show ?thesis
    using i ring_ok_New [OF r] dlq_inv_init by (auto simp: il_init_def il_inv_def dlq_init_def)
qed

lemma dlq_step_enqueued:
  "dlq_step tel d (DlqEnqueue td) d' \<Longrightarrow> ds_enqueued d' = ds_enqueued d @ [td]"
  "dlq_step tel d l d' \<Longrightarrow> (\<forall>td. l \<noteq> DlqEnqueue td) \<Longrightarrow> ds_enqueued d' = ds_enqueued d"
  by (auto elim: dlq_step.cases)

lemma content_Drain:
  assumes "ring_inv r" "ring_Drain tid r = (buf, Some out)"
  shows "out = content r tid" "\<And>j. content buf j = (if j = tid then [] else content r j)"
  using rb.drn_result [OF assms(1), of tid] rb.cont_drn [OF assms(1), of tid] assms(2) by (auto split: if_splits)

lemma il_inv_drain:
  assumes inv: "il_inv c s" and d: "ring_Drain tid (il_buf s) = (buf, Some out)" "out \<noteq> []"
  shows "il_inv c (s\<lparr>il_buf := buf, il_flying := add_mset out (il_flying s), il_drained := add_mset out (il_drained s)\<rparr>)"
proof -
  have r: "ring_inv (il_buf s)" using inv by (simp add: il_inv_def ring_ok_def)
  note c = content_Drain [OF r d(1)]
  have held: "of_trace (il_received s) j (content (il_buf s) j)" for j using inv by (simp add: il_inv_def)
  have "ring_ok cap win buf" if "ring_ok cap win (il_buf s)" for cap win using ring_ok_Drain [OF that, of tid] d(1) by simp
  moreover have "one_trace (il_received s) out"
    using held [of tid] d(2) c(1) by (auto simp: one_trace_def)
  moreover have "of_trace (il_received s) j (content buf j)" for j
    using held [of j] by (simp add: c(2) of_trace_def)
  ultimately show ?thesis using inv by (simp add: il_inv_def)
qed

lemma il_inv_buffer:
  assumes "il_inv c s" "\<And>cap win. ring_ok cap win (il_buf s) \<Longrightarrow> ring_ok cap win buf"
    "\<And>tid. of_trace (il_received s) tid (content buf tid)"
  shows "il_inv c (s\<lparr>il_buf := buf\<rparr>)"
  using assms by (auto simp: il_inv_def)

interpretation il: invariant_system "il_init c" "il_step arch tel" "il_inv c" for c arch tel
proof unfold_locales
  fix s l t assume inv: "il_inv c s" and step: "il_step arch tel s l t"
  have r: "ring_inv (il_buf s)" using inv by (simp add: il_inv_def ring_ok_def)
  have held: "of_trace (il_received s) tid (content (il_buf s) tid)" for tid using inv by (simp add: il_inv_def)
  from step show "il_inv c t"
  proof cases
    case (il_receive td)
    have le: "il_received s \<subseteq> il_received s \<union> td_spans td" by simp
    have "one_trace (il_received s \<union> td_spans td) x" if "x \<in># il_drained s" for x
      using inv that by (intro one_trace_mono [OF le]) (simp add: il_inv_def)
    then show ?thesis using inv of_trace_mono [OF le held] il_receive by (simp add: il_inv_def)
  next
    case (il_insert tid rs now)
    show ?thesis unfolding il_insert(2)
      by (rule il_inv_buffer [OF inv ring_ok_Insert])
        (simp_all add: of_trace_insert [OF r held] of_trace_isolate [OF il_insert(3,4)])
  next
    case (il_worker l ws)
    have "worker_inv (ev_cfg (ev_New (trigger_config c))) ws"
      using inv by (intro workers.inv_step [OF _ il_worker(3)]) (simp add: il_inv_def)
    then show ?thesis using inv il_worker(2) by (simp add: il_inv_def)
  next
    case il_observe
    then show ?thesis using inv by (simp add: il_inv_def)
  next
    case (il_drain tid buf out)
    then show ?thesis using il_inv_drain [OF inv] by simp
  next
    case (il_sent out)
    then show ?thesis using inv by (simp add: il_inv_def)
  next
    case (il_failed out d)
    then show ?thesis using inv dlq.inv_step [OF _ il_failed(4)] dlq_step_enqueued(1) [OF il_failed(4)] by (simp add: il_inv_def)
  next
    case (il_retry l d)
    then show ?thesis using inv dlq.inv_step [OF _ il_retry(3)] dlq_step_enqueued(2) [OF il_retry(3,4)] by (simp add: il_inv_def)
  next
    case (il_prune_buffer now)
    have "of_trace (il_received s) tid (content (fst (ring_PruneByTime now (il_buf s))) tid)" for tid
      using rb.cont_prune [OF r, of now tid] held [of tid] by auto
    then show ?thesis unfolding il_prune_buffer(2) by (intro il_inv_buffer [OF inv ring_ok_Prune])
  next
    case il_prune_breaker
    then show ?thesis using inv by (simp add: il_inv_def)
  qed
qed (rule il_inv_init)

section \<open>Properties\<close>

text \<open>
  C10: safe under any interleaving. Whatever the number of concurrent \<open>ConsumeTraces\<close> calls and
  however their steps, the prune loop's and the retry loop's interleave, the buffer stays within
  \<open>max_buffer_size\<close>, the evaluator within 4,096 services, the queue and a running retry round
  within 32 batches each; every batch ever drained is one trace of received spans; and each of
  them is still being sent, was delivered at once, is queued or being retried, was delivered by
  a retry, was dropped with a metric, or was cut by a merge: none is lost or doubled elsewhere.
\<close>

theorem interleaving_safe:
  assumes "reaches (il_step arch tel) s0 s" and "il_init c s0"
  shows "ring_Len (il_buf s) \<le> c_MaxBufferSize c \<and> Services (snd (il_workers s)) \<le> 4096
    \<and> dlqSize (ds_queue (il_dlq s)) \<le> 32 \<and> length (in_retry (il_dlq s)) \<le> 32
    \<and> (\<forall>td. td \<in># il_drained s \<longrightarrow> one_trace (il_received s) td)
    \<and> il_drained s = il_flying s + il_delivered s
        + mset (map de_td (in_retry (il_dlq s) @ ds_queue (il_dlq s)))
        + mset (ds_flushed (il_dlq s)) + mset (ds_dropped (il_dlq s)) + mset (ds_merged (il_dlq s))"
proof -
  have inv: "il_inv c s" using assms by (rule il.inv_reaches)
  have "Services (snd (il_workers s)) \<le> MaxServices (ev_cfg (ev_New (trigger_config c)))"
    using inv by (auto simp: il_inv_def worker_inv_def ev_ok_def Services_def order_ok_fcard)
  moreover have "MaxServices (ev_cfg (ev_New (trigger_config c))) = 4096"
    by (simp add: ev_New_def trigger_config_def Let_def defaultMaxServices_def)
  ultimately show ?thesis
    using inv by (auto simp: il_inv_def ring_ok_def ring_Len_def dlq_inv_def dlqSize_def dlqMaxEntries_def)
qed

text \<open>One batch received, buffered and drained, by a processor with the default configuration.\<close>

definition idle_processor :: interleaved where
  "idle_processor = \<lparr>il_received = {}, il_buf = \<lparr>r_maxSpans = c_MaxBufferSize DefaultConfig, r_preAlertWindow = c_PreAlertWindow DefaultConfig,
       r_traces = fmempty, r_order = [], r_count = 0\<rparr>, il_workers = ({#}, ev_New (trigger_config DefaultConfig)),
     il_breaker = newTraceBreaker minute, il_dlq = example_dlq, il_flying = {#}, il_drained = {#}, il_delivered = {#}\<rparr>"

lemma idle_processor_init: "il_init DefaultConfig idle_processor"
  by (simp add: il_init_def idle_processor_def example_dlq_init ring_New_def DefaultConfig_def Let_def) (simp add: example_dlq_def DefaultPreAlertWindow_def DefaultMaxBufferSize_def duration_defs)

definition il_received1 :: interleaved where
  "il_received1 = idle_processor\<lparr>il_received := td_spans [example_rs]\<rparr>"

definition il_buffered1 :: interleaved where
  "il_buffered1 = il_received1\<lparr>il_buf := fst (ring_Insert 0 [1] (isolateTrace example_rs [1]) (il_buf il_received1))\<rparr>"

definition il_drained1 :: interleaved where
  "il_drained1 = il_buffered1\<lparr>il_buf := fst (ring_Drain [1] (il_buf il_buffered1)),
     il_flying := {#[isolateTrace example_rs [1]]#}, il_drained := {#[isolateTrace example_rs [1]]#}\<rparr>"

lemma il_drained1_reaches: "reaches (il_step AMD64 None) idle_processor il_drained1"
proof -
  have 1: "il_step AMD64 None idle_processor (IlReceive [example_rs]) il_received1"
    using il_receive [of AMD64 None idle_processor "[example_rs]"] by (simp add: idle_processor_def il_received1_def)
  have 2: "il_step AMD64 None il_received1 (IlInsert [1] example_rs) il_buffered1" unfolding il_buffered1_def
    by (rule il_insert) (auto simp: traceIDsInResource_def rs_spans_def il_received1_def td_spans_def example_rs_def)
  have 3: "il_step AMD64 None il_buffered1 (IlDrain [1]) il_drained1"
  proof -
    have "snd (ring_Drain [1] (il_buf il_buffered1)) = Some [isolateTrace example_rs [1]]"
      by (simp add: il_buffered1_def il_received1_def idle_processor_def ring_Insert_def ring_put_def entry_append_def new_entry_def zero_time_def
        evictByTimeLocked_def evictByCountLocked_def
        evictByCount_loop.simps ring_Drain_def Let_def isolateTrace_def example_rs_def rs_spanCount_def DefaultConfig_def
        DefaultPreAlertWindow_def DefaultMaxBufferSize_def duration_defs)
    then show ?thesis
      using il_drain [of "[1]" il_buffered1 "fst (ring_Drain [1] (il_buf il_buffered1))" "[isolateTrace example_rs [1]]" AMD64 None]
      by (simp add: il_drained1_def) (simp add: il_buffered1_def il_received1_def idle_processor_def prod_eq_iff)
  qed
  have "reaches (il_step AMD64 None) idle_processor il_received1" using 1 by (rule reaches_step [OF reaches_refl])
  then have "reaches (il_step AMD64 None) idle_processor il_buffered1" using 2 by (rule reaches_step)
  then show ?thesis using 3 by (rule reaches_step)
qed

theorem interleaving_safe_witness:
  "il_drained il_drained1 = {#[isolateTrace example_rs [1]]#} \<and> one_trace (il_received il_drained1) [isolateTrace example_rs [1]]"
proof -
  have "il_drained il_drained1 = {#[isolateTrace example_rs [1]]#}" by (simp add: il_drained1_def)
  with interleaving_safe [OF il_drained1_reaches idle_processor_init] show ?thesis by simp
qed

end
