(* ===== verification/Spec2Isabelle.thy ===== *)
theory Spec2Isabelle
  imports Firing Interleaving
begin

text \<open>
  The Incidentary Bridge, an OpenTelemetry Collector processor (the Go code under \<open>src/\<close>): a
  verification development.

  \<^bold>\<open>The program.\<close> The Bridge sits in a collector's trace pipeline. It buffers every span by trace
  for a pre-alert window, feeds every server and client span to four triggers per service (5xx
  rate, slow successes, retries, in-flight pile-up), and when one fires it drains the trace
  from the buffer and sends it to the Incidentary backend. A batch that cannot be sent waits
  in a dead-letter queue of 32 entries, which a background loop retries every tick and which is
  saved to a file on shutdown and restored on start. A circuit breaker stops evaluating
  the spans of oversized traces. All batches also go on, unchanged, to the next consumer.

  \<^bold>\<open>Theories and sources.\<close> Paths are relative to \<open>src/\<close>; \<open>P/\<close> is \<open>processor/incidentaryprocessor/\<close>.
  The names of the definitions are those of the code, with the type's short name in front
  where two types share a method.
  \<^item> \<open>Prelude\<close>: Go's integers, durations, results with panics (\<open>go_result\<close>), finite maps
    for Go maps, step systems and their invariants (locale \<open>invariant_system\<close>). \<open>Go_Float\<close>:
    \<open>float64\<close> arithmetic with rounding, and the fused multiply-add of arm64. \<open>Go_Net\<close>: the URL
    and IP parsing of the standard library. \<open>Pdata\<close>: resource, scope and span records.
  \<^item> \<open>Ring\<close>: \<open>internal/buffer/ring.go\<close>. \<open>Insert\<close>, \<open>Drain\<close>, \<open>PruneByTime\<close> and both evictions, with
    an abstract buffer (a list of traces) that they refine.
  \<^item> \<open>Windows\<close>, \<open>Triggers\<close>, \<open>Evaluator\<close>: \<open>internal/triggers/four_triggers.go\<close>. The reused ten-bucket
    windows, the latency average and the retry hash table; the four trigger functions; the map
    of services with its least-recently-used order, \<open>OnRequestStart\<close>, \<open>OnRequestComplete\<close>, \<open>PruneStale\<close>.
  \<^item> \<open>Trace_Breaker\<close>: \<open>P/trace_breaker.go\<close>. \<open>Telemetry\<close>: \<open>P/internal/metadata/telemetry.go\<close>, the SDK being
    a log of increments. \<open>Config\<close>: \<open>P/config.go\<close>, defaults, \<open>Validate\<close> and the endpoint guard.
    \<open>Forward\<close>: \<open>internal/forward/client.go\<close>. \<open>Dlq_Persister\<close>: \<open>P/dlq_persister.go\<close>, with the file
    system and its faults explicit.
  \<^item> \<open>Spans\<close>, \<open>Dlq\<close>, \<open>Processor\<close>: \<open>P/processor.go\<close>. The pure helpers; the queue and its retry
    rounds, which append to the log of sends; construction, \<open>Start\<close>, \<open>Shutdown\<close>, \<open>ConsumeTraces\<close>, one
    tick of each background loop, and the moments inside a retry tick (\<open>duringRetry\<close>).
    \<open>Processor\<close> also has \<open>P/factory.go\<close> and \<open>cmd/incidentaryprocessor/main.go\<close>.
  \<^item> \<open>Bridge\<close>, \<open>Firing\<close>, \<open>Interleaving\<close> and this theory: what holds of the whole.

  \<^bold>\<open>State.\<close> \<open>processor\<close> has the fields of \<open>tracesProcessor\<close>; \<open>world\<close> is what its operations change
  outside: the sends made and their results, the batches passed on, the metrics, the files.
  \<open>env\<close> holds what is not in the repository, as functions: the core ingest client
  (\<open>en_newCore\<close>, \<open>en_post\<close>), the JSON and protobuf codecs, \<open>AsString\<close> and \<open>AsTime\<close> of pdata, the name
  server; and the choices of the run-time system: the \<open>n\<close>-th clock reading, the order of the
  \<open>n\<close>-th \<open>range\<close> over a map, the failures of file operations. \<open>env_ok\<close> asks only that clocks
  are not before 1970 and that a range visits each key once. A run is \<open>bridge_life\<close>: create,
  start, then any sequence of consumed batches and ticks.

  \<^bold>\<open>What is shown.\<close> For single components: representation invariants and bounds (ring, evaluator,
  queue), refinement of the abstract buffer, exactness of the windows against the
  last ten seconds and of the float thresholds against integers, what retries and reasons
  mean, the tiers of the breaker, conservation of queued batches and their metrics under
  interleaving, the file format's round trip and its behaviour when cut, the endpoint guard
  against the blocks of forbidden addresses, and exactly what it and \<open>Validate\<close> accept.
  For the whole: the locales \<open>span_invariant\<close>, \<open>walk_invariant\<close>, \<open>proc_invariant\<close> and
  \<open>proc_total\<close> of \<open>Bridge\<close> are the contract between the elementary steps and a run: an
  invariant of the steps is one of every run, and steps that cannot panic make runs that cannot.
  Their interpretations give the bounds (\<open>bounds\<close>), the separation of traces (\<open>batches\<close>)
  and what the walk leaves alone (\<open>walk_frame\<close>, \<open>buffer_frame\<close>). \<open>Firing\<close> relates the walk to the log of
  the evaluations it makes. \<open>Interleaving\<close> composes the critical sections of concurrent \<open>ConsumeTraces\<close>
  calls and both loops into one step relation, with its invariant.
  The findings among them are theorems too: gRPC failures that no trigger sees, retries that a
  timeout of zero disables, a shutdown that loses the round in flight, a pile-up trigger that
  sequential input cannot fire, batches that can be saved and not loaded, what passes the
  endpoint guard and the validation although it should not (zoned literals, NaN).

  \<^bold>\<open>Bounds.\<close> Those of the code: \<open>max_buffer_size\<close> spans, 4,096 services, 32 queued batches, five
  attempts, 256 retry slots, 64 MB a batch and 1,000,000 records in a file. No fuel is used: every loop of the
  code is structural or has a measure. Counters are integers; durations and times are
  integers with Go's saturating \<open>Sub\<close>; hashes are 64-bit words; the platform's \<open>int\<close>
  has 64 bits.

  \<^bold>\<open>Not modelled.\<close> Log output; the inside of the core ingest client (HTTP, its own retries), of
  the SDK, the collector and the codecs, which are libraries; contexts beyond the deadline a
  retry gets; mutexes as such (a critical section is one step); the release of a dead
  slice's memory. Charts, Dockerfile and workflows are configuration.
\<close>

section \<open>Example inputs\<close>

text \<open>A codec that knows one batch, of one span, and its entries in a queue.\<close>

definition example_marshal :: "traces \<Rightarrow> string + byte list" where
  "example_marshal td = (if td = [example_rs] then Inr [42] else Inl ''unsupported'')"

definition example_unmarshal :: "byte list \<Rightarrow> string + traces" where
  "example_unmarshal bs = (if bs = [42] then Inr [example_rs] else Inl ''malformed'')"

definition queued_entry :: "nat \<Rightarrow> dlq_entry" where
  "queued_entry n = \<lparr>de_td = [example_rs], de_enqueueAt = int n, de_attempts = int n\<rparr>"

definition queued_entry_tried :: "nat \<Rightarrow> dlq_entry" where
  "queued_entry_tried n = (queued_entry n)\<lparr>de_attempts := int n + 1\<rparr>"

lemma queued_good: "n < 5 \<Longrightarrow> good_record example_unmarshal (queued_entry n, [42])"
  by (simp add: good_record_def example_unmarshal_def queued_entry_def maxPayload_def min_i64_def max_i64_def)

text \<open>Backends by the deadline they are given; a clock that advances; ranges in the given order.\<close>

definition backend_deadline :: "duration option \<Rightarrow> string option" where
  "backend_deadline d = (case d of None \<Rightarrow> None | Some t \<Rightarrow> if t \<le> 0 then Some ''context deadline exceeded'' else None)"

definition example_env :: "(duration option \<Rightarrow> string option) \<Rightarrow> env" where
  "example_env backend = \<lparr>en_arch = AMD64, en_api = \<lparr>api_AsString = (\<lambda>v. case v of VStr x \<Rightarrow> x | _ \<Rightarrow> []), api_AsTime = sint\<rparr>,
     en_lookup = (\<lambda>_. None), en_clock = (\<lambda>n. int n), en_range = (\<lambda>n tids. tids), en_newCore = (\<lambda>_. None),
     en_marshalJSON = (\<lambda>_. Inr []), en_post = (\<lambda>cc n d body. backend d),
     en_marshalProto = example_marshal, en_unmarshalProto = example_unmarshal,
     en_faults = (\<lambda>_. None), en_tmpPath = ''tmp'', en_openFault = None\<rparr>"

definition backend_down :: "duration option \<Rightarrow> string option" where
  "backend_down d = Some ''connection refused''"

definition example_world :: world where
  "example_world = \<lparr>w_clock = 0, w_ranges = 0, w_sent = [], w_passed = [], w_sdk = example_sdk, w_fs = fmempty\<rparr>"

definition example_config :: "duration \<Rightarrow> config" where
  "example_config timeout = DefaultConfig\<lparr>c_Forward := (c_Forward DefaultConfig)\<lparr>fw_IncidentaryToken := ''token'', fw_Timeout := timeout\<rparr>,
     c_PersistPath := ''dlq''\<rparr>"

lemma example_env_ok: "env_ok (example_env backend)"
  by (simp add: env_ok_def example_env_def)

lemma example_blank: "blank_world example_world" "fmlookup (w_fs example_world) path = None"
  by (simp_all add: blank_world_def example_world_def example_sdk_def)

lemma example_config_fields [simp]:
  "c_PersistPath (example_config t) = ''dlq''" "fw_Timeout (c_Forward (example_config t)) = t"
  "fw_IncidentaryEndpoint (c_Forward (example_config t)) = DefaultForwardEndpoint"
  "fw_IncidentaryToken (c_Forward (example_config t)) = ''token''" "\<not> fw_AllowInsecure (c_Forward (example_config t))"
  "fw_PassThrough (c_Forward (example_config t))"
  by (simp_all add: example_config_def DefaultConfig_def)

lemma example_created:
  assumes "0 \<le> t"
  obtains p where "newTracesProcessor (example_env backend) None (example_config t) nxt = Inr (Inr p)"
proof -
  have v: "Validate (en_lookup (example_env backend)) (example_config t) = None"
    unfolding example_config_def example_env_def using default_config_valid [OF assms] by simp
  have "ring_New \<lparr>opt_MaxSpans = c_MaxBufferSize (example_config t), opt_PreAlertWindow = c_PreAlertWindow (example_config t)\<rparr> \<noteq> Inl e" for e
    using valid_positive [OF v] by (simp add: ring_New_def Let_def)
  then obtain buf where r: "ring_New \<lparr>opt_MaxSpans = c_MaxBufferSize (example_config t), opt_PreAlertWindow = c_PreAlertWindow (example_config t)\<rparr> = Inr buf"
    by (metis old.sum.exhaust)
  have "\<exists>fwd. NewClient (new_core (example_env backend)) (forward_config (example_config t)) = Inr fwd"
    by (simp add: NewClient_def forward_config_def splitEndpoint_def default_endpoint_url default_fields new_core_def example_env_def Let_def)
  then show thesis using that v r by (auto simp: newTracesProcessor_def Let_def)
qed

lemma example_life:
  assumes "0 \<le> t"
  obtains p w where "bridge_life (example_env backend) None (example_config t) nxt ops example_world = Inr (Inr (p, w))"
proof -
  obtain p0 where p0: "newTracesProcessor (example_env backend) None (example_config t) nxt = Inr (Inr p0)" by (rule example_created [OF assms])
  obtain r where r: "bridge_life (example_env backend) None (example_config t) nxt ops example_world = Inr r"
    using life_total [OF example_env_ok example_blank(1)] by blast
  then have "\<exists>s. r = Inr s" using p0 by (auto simp: bridge_life_def split: sum.splits)
  with r that show thesis by (metis surj_pair)
qed

text \<open>A world in which an earlier process left two batches.\<close>

definition example_file_world :: world where
  "example_file_world = example_world\<lparr>w_fs := fmupd ''dlq'' (file_bytes [(queued_entry 1, [42]), (queued_entry 2, [42])]) fmempty\<rparr>"

lemma example_file_blank: "blank_world example_file_world"
  using example_blank(1) by (simp add: blank_world_def example_file_world_def)

lemma example_restored:
  "restored (example_env backend) (example_config t) (w_fs example_file_world) = [queued_entry 1, queued_entry 2]"
proof -
  have "loadBytes example_unmarshal (file_bytes [(queued_entry 1, [42]), (queued_entry 2, [42])]) = ([queued_entry 1, queued_entry 2], None)"
    using loadBytes_file [of example_unmarshal "[(queued_entry 1, [42]), (queued_entry 2, [42])]" "[]"] queued_good [of 1] queued_good [of 2]
    by (simp add: maxCount_def)
  then show ?thesis by (simp add: restored_def loadDLQ_def example_file_world_def example_env_def dlqMaxEntries_def)
qed

lemma example_restart:
  assumes "0 \<le> t"
  obtains p w where "bridge_life (example_env backend) None (example_config t) nxt [] example_file_world = Inr (Inr (p, w))"
    "p_dlq p = [queued_entry 1, queued_entry 2]"
proof -
  obtain p0 where p0: "newTracesProcessor (example_env backend) None (example_config t) nxt = Inr (Inr p0)" by (rule example_created [OF assms])
  obtain r k where "Start (example_env backend) (p0, example_file_world) =
      Inr (p0\<lparr>p_tickers := True, p_tel := r, p_dlq := restored (example_env backend) (example_config t) (w_fs example_file_world)\<rparr>, example_file_world\<lparr>w_sdk := k\<rparr>)"
    by (rule Start_created [OF p0])
  with p0 that show thesis by (simp add: bridge_life_def example_restored)
qed

section \<open>The processor as a whole\<close>

text \<open>
  C1: bounded memory and no panic. Whatever configuration it is given and whatever it
  consumes, in any sequence with the prune and retry ticks, a processor is refused or runs without
  a panic; its buffer counts exactly the spans it holds, at most \<open>max_buffer_size\<close>, its
  evaluator tracks at most 4,096 services and its dead-letter queue at most 32 batches, also
  when a queue file was restored.
\<close>

theorem bridge_bounded:
  assumes "env_ok env" and "blank_world w0"
  shows "\<exists>r. bridge_life env telSet c nxt ops w0 = Inr r \<and>
    (case r of Inl err \<Rightarrow> True
     | Inr (p, w) \<Rightarrow> 0 \<le> ring_Len (p_buf p) \<and> ring_Len (p_buf p) \<le> c_MaxBufferSize c
         \<and> ring_Len (p_buf p) = buf_total (ring_abs (p_buf p))
         \<and> Services (p_evaluator p) \<le> 4096 \<and> dlqSize (p_dlq p) \<le> 32)"
proof -
  obtain r where r: "bridge_life env telSet c nxt ops w0 = Inr r" using life_total [OF assms] by blast
  show ?thesis
  proof (cases r)
    case (Inr s)
    obtain p w where s: "s = (p, w)" by fastforce
    obtain p0 where p0: "newTracesProcessor env telSet c nxt = Inr (Inr p0)" "within env p0 (consumed ops) (p, w)"
      by (rule life_within [OF assms]) (use r Inr s in simp)
    from within_bounds [OF p0(2)] created(2) [OF p0(1)] show ?thesis using r Inr s by simp
  qed (use r in simp)
qed

theorem bridge_bounded_witness:
  "\<exists>p w. bridge_life (example_env backend_down) None (example_config second) None [Consume [example_rs], PruneTick, RetryTick] example_world = Inr (Inr (p, w))
    \<and> dlqSize (p_dlq p) \<le> 32"
proof -
  obtain p w where l: "bridge_life (example_env backend_down) None (example_config second) None [Consume [example_rs], PruneTick, RetryTick] example_world = Inr (Inr (p, w))"
    by (rule example_life [of second]) (simp add: second_def)
  then show ?thesis
    using bridge_bounded [OF example_env_ok example_blank(1), of backend_down None "example_config second" None "[Consume [example_rs], PruneTick, RetryTick]"]
    by auto
qed

text \<open>
  C4: what leaves the processor. Starting without a queue file, every batch ever sent to the
  backend, and every batch waiting in the dead-letter queue, is non-empty and holds spans of
  exactly one trace, all of which the processor has received.
\<close>

theorem sends_single_traces:
  assumes "env_ok env" and "blank_world w0" and "fmlookup (w_fs w0) (c_PersistPath c) = None"
    and "bridge_life env telSet c nxt ops w0 = Inr (Inr (p, w))"
  shows "\<forall>td \<in> fst ` set (w_sent w) \<union> de_td ` set (p_dlq p). td \<noteq> []
    \<and> (\<exists>tid. \<forall>rs\<in>set td. rs_spans rs \<noteq> [] \<and> (\<forall>sp\<in>set (rs_spans rs). sp_TraceID sp = tid \<and> sp \<in> consumed ops))"
  using life_separated [OF assms] by (auto simp: separated_def one_trace_def of_trace_def)

theorem sends_single_traces_witness:
  "\<exists>p w. bridge_life (example_env backend_down) None (example_config second) None [Consume [example_rs]] example_world = Inr (Inr (p, w))
    \<and> (\<forall>td\<in>fst ` set (w_sent w). td \<noteq> [])"
proof -
  obtain p w where l: "bridge_life (example_env backend_down) None (example_config second) None [Consume [example_rs]] example_world = Inr (Inr (p, w))"
    by (rule example_life [of second]) (simp add: second_def)
  from sends_single_traces [OF example_env_ok example_blank l] l show ?thesis by blast
qed

text \<open>
  C9: processed one batch after the other, spans never pile up. Whatever is consumed, the
  metric of fired triggers never counts an in-flight pile-up, of any severity: each span is
  started and completed at once.
\<close>

theorem no_pileup_when_sequential:
  assumes "env_ok env" and "blank_world w0" and "bridge_life env telSet c nxt ops w0 = Inr (Inr (p, w))"
  shows "counter_value (TriggerFiredTotal t) [(''trigger'', ''in_flight_pileup''), (''severity'', sev)] (w_sdk w) = 0"
proof -
  obtain p0 where "within env p0 (consumed ops) (p, w)" by (rule life_within [OF assms])
  then have "quiet (w_sdk w)" by (simp add: within_def)
  then show ?thesis by (force simp: counter_value_def quiet_def filter_empty_conv)
qed

theorem no_pileup_when_sequential_witness:
  "\<exists>p w. bridge_life (example_env backend_down) None (example_config second) None [Consume [example_rs, example_rs]] example_world = Inr (Inr (p, w))
    \<and> counter_value ''t'' [(''trigger'', ''in_flight_pileup''), (''severity'', ''mild'')] (w_sdk w) = 0"
proof -
  obtain p w where l: "bridge_life (example_env backend_down) None (example_config second) None [Consume [example_rs, example_rs]] example_world = Inr (Inr (p, w))"
    by (rule example_life [of second]) (simp add: second_def)
  from no_pileup_when_sequential [OF example_env_ok example_blank(1) l, of "\<lparr>DLQEnqueuedTotal = ''e'', DLQDroppedTotal = ''d'', DLQFlushedTotal = ''f'',
      CircuitBreakerOpenTotal = ''c'', TriggerFiredTotal = ''t'', DLQSize = ''s'', dlqSizeRegistration = None\<rparr>" "''mild''"] l
  show ?thesis by auto
qed

text \<open>
  C2: the contract of \<open>ConsumeTraces\<close>. In any reachable state it sends some batches, and the
  failed ones among them, in order, join the end of the dead-letter queue, which keeps its 32
  newest. With \<open>pass_through\<close> and a next consumer, the next consumer gets the batch exactly as
  received, once, and its answer is the result, whatever happened to the sends; otherwise
  nothing is passed on, and the result is the last failure, or success if there was none.
\<close>

theorem consume_contract:
  assumes "env_ok env" and "blank_world w0" and "bridge_life env telSet c nxt ops w0 = Inr (Inr (p, w))"
    and "ConsumeTraces env td (p, w) = Inr ((p', w'), err)"
  shows "\<exists>new. w_sent w' = w_sent w @ new
    \<and> (let failures = filter (\<lambda>x. snd x \<noteq> None) new in
       map de_td (p_dlq p') = last_n 32 (map de_td (p_dlq p) @ map fst failures)
       \<and> (case (fw_PassThrough (c_Forward c), nxt) of
            (True, Some f) \<Rightarrow> w_passed w' = w_passed w @ [td] \<and> err = map_option NextErr (f (length (w_passed w)) td)
          | _ \<Rightarrow> w_passed w' = w_passed w
              \<and> err = (if failures = [] then None else map_option ForwardErr (snd (last failures)))))"
proof -
  obtain p0 where p0: "newTracesProcessor env telSet c nxt = Inr (Inr p0)" "within env p0 (consumed ops) (p, w)"
    by (rule life_within [OF assms(1-3)])
  have c: "p_cfg p = c" "p_next p = nxt" using p0(2) created(2,4) [OF p0(1)] by (simp_all add: within_def)
  have f: "failed = (\<lambda>x. snd x \<noteq> None)" by (simp add: fun_eq_iff failed_def)
  from ConsumeTraces_effect [OF assms(4,1) p0(2)] show ?thesis
    unfolding c f dlqMaxEntries_def Let_def .
qed

theorem consume_contract_witness:
  "\<exists>p w p' w' err. bridge_life (example_env backend_down) None (example_config second) (Some (\<lambda>n td. Some ''refused'')) [] example_file_world = Inr (Inr (p, w))
    \<and> ConsumeTraces (example_env backend_down) [example_rs] (p, w) = Inr ((p', w'), err)
    \<and> w_passed w' = w_passed w @ [[example_rs]] \<and> err = Some (NextErr ''refused'')"
proof -
  obtain p w where l: "bridge_life (example_env backend_down) None (example_config second) (Some (\<lambda>n td. Some ''refused'')) [] example_file_world = Inr (Inr (p, w))"
    by (rule example_restart [of second]) (simp add: second_def)
  obtain p' w' err where c: "ConsumeTraces (example_env backend_down) [example_rs] (p, w) = Inr ((p', w'), err)"
    using life_consume [OF example_env_ok example_file_blank l, of "[example_rs]"] by auto
  show ?thesis using consume_contract [OF example_env_ok example_file_blank l c] l c by (auto simp: Let_def)
qed

text \<open>
  C3: what \<open>ConsumeTraces\<close> evaluates, buffers and flushes, in any reachable state. It
  evaluates, in order and from the evaluator's state before the call, the first server or
  client span of each span id that has a service and a sane duration, except those whose
  trace has passed the hard breaker. Every resource is cut into its traces and each part inserted once, in
  order, so that what is held of a trace before the flush is a contiguous suffix of what was
  held and of the new parts. The flushed traces are exactly those of the spans whose
  evaluation fired, each once: each is sent as one batch, all that is held of it in
  order, and is gone from the buffer afterwards; what is held of the other traces stays.
\<close>

theorem consume_buffers_and_flushes:
  assumes "env_ok env" and "blank_world w0" and "bridge_life env telSet c nxt ops w0 = Inr (Inr (p, w))"
    and "ConsumeTraces env td (p, w) = Inr ((p', w'), err)"
  shows "\<exists>held targets log. evaluates env (p_evaluator p) (batch_spans env td) log p'
    \<and> distinct targets \<and> set targets = fired_traces log
    \<and> (\<forall>tid. suffix (held tid) (content (p_buf p) tid @ parts_of tid td))
    \<and> map fst (w_sent w') = map fst (w_sent w) @ filter (\<lambda>td. td \<noteq> []) (map held targets)
    \<and> (\<forall>tid. content (p_buf p') tid = (if tid \<in> set targets then [] else held tid))"
proof -
  obtain p0 where "within env p0 (consumed ops) (p, w)" by (rule life_within [OF assms(1-3)])
  then have "ring_inv (p_buf p)" by (simp add: within_def ring_ok_def)
  from ConsumeTraces_buffer [OF assms(4,1) this] show ?thesis .
qed

theorem consume_buffers_and_flushes_witness:
  "\<exists>p w p' w' err. bridge_life (example_env backend_down) None (example_config second) None [] example_world = Inr (Inr (p, w))
    \<and> ConsumeTraces (example_env backend_down) [example_rs] (p, w) = Inr ((p', w'), err)
    \<and> suffix (content (p_buf p') [1]) (content (p_buf p) [1] @ parts_of [1] [example_rs])"
proof -
  obtain p w where l: "bridge_life (example_env backend_down) None (example_config second) None [] example_world = Inr (Inr (p, w))"
    by (rule example_life [of second]) (simp add: second_def)
  obtain p' w' err where c: "ConsumeTraces (example_env backend_down) [example_rs] (p, w) = Inr ((p', w'), err)"
    using life_consume [OF example_env_ok example_blank(1) l, of "[example_rs]"] by auto
  obtain held targets where
      "\<forall>tid. suffix (held tid) (content (p_buf p) tid @ parts_of tid [example_rs])"
      "\<forall>tid. content (p_buf p') tid = (if tid \<in> set targets then [] else held tid)"
    using consume_buffers_and_flushes [OF example_env_ok example_blank(1) l c] by blast
  then have "suffix (content (p_buf p') [1]) (content (p_buf p) [1] @ parts_of [1] [example_rs])" by simp
  with l c show ?thesis by blast
qed

text \<open>
  C5: where the token goes. Without \<open>allow_insecure\<close>, the client of a running processor
  posts, with the configured token (never an empty one), to the base address https and the
  endpoint's host, as the processor surface, with a positive timeout; the host is no IP
  literal of a forbidden block, nor \<open>localhost\<close>.
\<close>

theorem client_is_guarded:
  assumes "env_ok env" and "blank_world w0" and "bridge_life env telSet c nxt ops w0 = Inr (Inr (p, w))"
    and "\<not> fw_AllowInsecure (c_Forward c)"
  shows "\<exists>u d. url_Parse (fw_IncidentaryEndpoint (c_Forward c)) = Inr u
    \<and> cc_BaseURL (p_fwd p) = ''https://'' @ u_Host u \<and> u_Host u \<noteq> []
    \<and> cc_APIKey (p_fwd p) = fw_IncidentaryToken (c_Forward c) \<and> cc_APIKey (p_fwd p) \<noteq> []
    \<and> cc_Surface (p_fwd p) = ''processor'' \<and> cc_HTTPClient (p_fwd p) = TimeoutClient d \<and> 0 < d
    \<and> (case ParseIP (url_Hostname u) of Some ip \<Rightarrow> public_ip ip | None \<Rightarrow> url_Hostname u \<noteq> ''localhost'')"
proof -
  obtain p0 where p0: "newTracesProcessor env telSet c nxt = Inr (Inr p0)" "within env p0 (consumed ops) (p, w)"
    by (rule life_within [OF assms(1-3)])
  have fwd: "p_fwd p = p_fwd p0" using p0(2) by (simp add: within_def)
  have "validateForwardEndpoint (en_lookup env) (fw_IncidentaryEndpoint (c_Forward c)) False = None"
    using created(1) [OF p0(1)] assms(4) by (simp add: Validate_None)
  then obtain u where u: "url_Parse (fw_IncidentaryEndpoint (c_Forward c)) = Inr u" "u_Scheme u = ''https''"
      "\<not> snd (isBlockedHost (en_lookup env) (url_Hostname u))"
    by (auto simp: validateForwardEndpoint_def Let_def split: sum.splits if_splits)
  obtain u' cc where cc: "url_Parse (fc_Endpoint (forward_config c)) = Inr u'" "u_Host u' \<noteq> []" "core_for (forward_config c) u' cc"
      "new_core env cc = Inr (p_fwd p0)" "fc_APIKey (forward_config c) \<noteq> []"
    by (rule NewClient_Inr [OF created(6) [OF p0(1)]])
  have "p_fwd p0 = cc" using cc(4) by (simp add: new_core_def split: option.splits)
  moreover have "u' = u" using cc(1) u(1) by (simp add: forward_config_def)
  moreover have "case ParseIP (url_Hostname u) of Some ip \<Rightarrow> public_ip ip | None \<Rightarrow> url_Hostname u \<noteq> ''localhost''"
    using u(3) by (auto simp: isBlockedHost_iff split: option.splits)
  ultimately show ?thesis using u cc fwd by (auto simp: core_for_def forward_config_def)
qed

theorem client_is_guarded_witness:
  "\<exists>p w. bridge_life (example_env backend_down) None (example_config second) None [] example_world = Inr (Inr (p, w))
    \<and> cc_BaseURL (p_fwd p) = ''https://api.incidentary.com'' \<and> cc_APIKey (p_fwd p) = ''token''"
proof -
  obtain p w where l: "bridge_life (example_env backend_down) None (example_config second) None [] example_world = Inr (Inr (p, w))"
    by (rule example_life [of second]) (simp add: second_def)
  from client_is_guarded [OF example_env_ok example_blank(1) l] l show ?thesis by (auto simp: default_endpoint_url)
qed

text \<open>
  C6: a restart keeps the queue or the file. Shutting down and starting a new process with
  the same configuration always starts; its dead-letter queue is then exactly the old one, in
  order, with times and attempts, unless a system call failed during the save, and then at
  worst it is what the file from before the shutdown gives.
\<close>

theorem restart_keeps_queue:
  assumes "newTracesProcessor env telSet c nxt = Inr (Inr p1)"
    and "p_cfg p = c" and "c_PersistPath c \<noteq> []" and "en_tmpPath env \<noteq> c_PersistPath c" and "\<not> p_stopped p"
    and "length (p_dlq p) \<le> 32" and "en_openFault env = None"
    and "list_all (\<lambda>e. \<exists>buf. en_marshalProto env (de_td e) = Inr buf \<and> good_record (en_unmarshalProto env) (e, buf)) (p_dlq p)"
  shows "\<exists>p2 w2. Start env (p1, snd (fst (Shutdown env (p, w)))) = Inr (p2, w2) \<and>
    (p_dlq p2 = p_dlq p
     \<or> (\<exists>step. en_faults env step \<noteq> None)
       \<and> p_dlq p2 = take 32 (fst (loadDLQ (en_unmarshalProto env) None (c_PersistPath c) (w_fs w))))"
proof -
  let ?w = "snd (fst (Shutdown env (p, w)))"
  obtain fs err where s: "saveDLQ (en_marshalProto env) (en_faults env) (en_tmpPath env) (c_PersistPath c) (p_dlq p) (w_fs w) = (fs, err)"
    by fastforce
  have "w_fs ?w = fs" using assms(2,3,5) s by (simp add: Shutdown_def Let_def)
  moreover have "loadDLQ (en_unmarshalProto env) None (c_PersistPath c) fs = (p_dlq p, None)
      \<or> (\<exists>step. en_faults env step \<noteq> None) \<and> fmlookup fs (c_PersistPath c) = fmlookup (w_fs w) (c_PersistPath c)"
    using assms(6) by (intro save_then_load [OF assms(3,4) _ assms(8) s]) (simp add: maxCount_def)
  ultimately have "restored env c (w_fs ?w) = p_dlq p
      \<or> (\<exists>step. en_faults env step \<noteq> None)
        \<and> restored env c (w_fs ?w) = take 32 (fst (loadDLQ (en_unmarshalProto env) None (c_PersistPath c) (w_fs w)))"
    using assms(3,6,7) by (auto simp: restored_def dlqMaxEntries_def loadDLQ_def)
  moreover obtain t k where "Start env (p1, ?w) =
      Inr (p1\<lparr>p_tickers := True, p_tel := t, p_dlq := restored env c (w_fs ?w)\<rparr>, ?w\<lparr>w_sdk := k\<rparr>)"
    by (rule Start_created [OF assms(1)])
  ultimately show ?thesis by simp
qed

theorem restart_keeps_queue_witness:
  "\<exists>p1 p2 w2. newTracesProcessor (example_env backend_down) None (example_config second) None = Inr (Inr p1)
    \<and> Start (example_env backend_down) (p1, snd (fst (Shutdown (example_env backend_down) (p1\<lparr>p_dlq := [queued_entry 1, queued_entry 3]\<rparr>, example_world)))) = Inr (p2, w2)
    \<and> p_dlq p2 = [queued_entry 1, queued_entry 3]"
proof -
  obtain p1 where p1: "newTracesProcessor (example_env backend_down) None (example_config second) None = Inr (Inr p1)"
    by (rule example_created [of second]) (simp add: second_def)
  let ?p = "p1\<lparr>p_dlq := [queued_entry 1, queued_entry 3]\<rparr>"
  have cfg: "p_cfg ?p = example_config second" "\<not> p_stopped ?p" using created(2,8) [OF p1] by simp_all
  have env: "en_tmpPath (example_env backend_down) \<noteq> c_PersistPath (example_config second)" "en_openFault (example_env backend_down) = None"
    "c_PersistPath (example_config second) \<noteq> []" "length (p_dlq ?p) \<le> 32" "en_faults (example_env backend_down) = (\<lambda>_. None)"
    by (simp_all add: example_env_def)
  have "list_all (\<lambda>e. \<exists>buf. en_marshalProto (example_env backend_down) (de_td e) = Inr buf
      \<and> good_record (en_unmarshalProto (example_env backend_down)) (e, buf)) (p_dlq ?p)"
    using queued_good [of 1] queued_good [of 3] by (simp add: example_env_def example_marshal_def) (simp add: queued_entry_def)
  from restart_keeps_queue [OF p1 cfg(1) env(3,1) cfg(2) env(4,2) this, of example_world] show ?thesis using p1 env(5) by auto
qed

text \<open>
  C7: recovery. In any reachable state, if every queued batch can be encoded and the backend
  takes it within the configured timeout, the next retry tick empties the dead-letter queue,
  and has delivered all of it, oldest first.
\<close>

theorem dlq_recovers:
  assumes "env_ok env" and "blank_world w0" and "bridge_life env telSet c nxt ops w0 = Inr (Inr (p, w))"
    and "\<forall>e\<in>set (p_dlq p). \<exists>body. en_marshalJSON env (de_td e) = Inr body
       \<and> (\<forall>n. en_post env (p_fwd p) n (Some (fw_Timeout (c_Forward c))) body = None)"
  shows "p_dlq (fst (retryTick env (p, w))) = []
    \<and> w_sent (snd (retryTick env (p, w))) = w_sent w @ map (\<lambda>e. (de_td e, None)) (p_dlq p)"
proof -
  obtain p0 where p0: "newTracesProcessor env telSet c nxt = Inr (Inr p0)" "within env p0 (consumed ops) (p, w)"
    by (rule life_within [OF assms(1-3)])
  have c: "p_cfg p = c" "length (p_dlq p) \<le> dlqMaxEntries" using p0(2) created(2) [OF p0(1)] by (simp_all add: within_def)
  have ok: "retry_send env p i td = None" if "td \<in> de_td ` set (p_dlq p)" for i td
    using assms(4) that c(1) by (fastforce simp: retry_send_def send_now_def SendTraces_ok)
  show ?thesis using retry_send_all [OF ok] c(2) by (simp add: retryTick_simps)
qed

theorem dlq_recovers_witness:
  "\<exists>p w. bridge_life (example_env (\<lambda>_. None)) None (example_config second) None [] example_file_world = Inr (Inr (p, w))
    \<and> p_dlq p = [queued_entry 1, queued_entry 2] \<and> p_dlq (fst (retryTick (example_env (\<lambda>_. None)) (p, w))) = []
    \<and> w_sent (snd (retryTick (example_env (\<lambda>_. None)) (p, w))) = w_sent w @ [([example_rs], None), ([example_rs], None)]"
proof -
  obtain p w where l: "bridge_life (example_env (\<lambda>_. None)) None (example_config second) None [] example_file_world = Inr (Inr (p, w))"
      "p_dlq p = [queued_entry 1, queued_entry 2]"
    by (rule example_restart [of second]) (simp add: second_def)
  have "\<forall>e\<in>set (p_dlq p). \<exists>body. en_marshalJSON (example_env (\<lambda>_. None)) (de_td e) = Inr body
     \<and> (\<forall>n. en_post (example_env (\<lambda>_. None)) (p_fwd p) n (Some (fw_Timeout (c_Forward (example_config second)))) body = None)"
    by (simp add: example_env_def)
  from dlq_recovers [OF example_env_ok example_file_blank l(1) this] l show ?thesis
    by (intro exI [of _ p] exI [of _ w]) (simp add: queued_entry_def)
qed

text \<open>
  C8: a timeout of zero disables the retries. Zero is a valid timeout and means 30 seconds to
  the forwarder, but the retry loop uses it as the deadline of each attempt, which has then
  passed before the attempt is made: in any reachable state, every attempt for a batch with
  spans fails in the next five ticks, and after them the whole queue has been given up.
\<close>

theorem zero_timeout_never_delivers:
  assumes "env_ok env" and "blank_world w0"
    and "bridge_life env telSet c nxt ops w0 = Inr (Inr (p, w))" and "fw_Timeout (c_Forward c) = 0"
    and "\<forall>cc n d body. d \<le> 0 \<longrightarrow> en_post env cc n (Some d) body \<noteq> None"
  shows "p_dlq (fst ((retryTick env ^^ 5) (p, w))) = []
    \<and> (\<forall>x\<in>set (drop (length (w_sent w)) (w_sent (snd ((retryTick env ^^ 5) (p, w))))). snd x \<noteq> None \<or> rss_spanCount (fst x) = 0)"
proof -
  obtain p0 where p0: "newTracesProcessor env telSet c nxt = Inr (Inr p0)" "within env p0 (consumed ops) (p, w)"
    by (rule life_within [OF assms(1-3)])
  have c: "p_cfg p = c" "length (p_dlq p) \<le> dlqMaxEntries" "\<forall>e\<in>set (p_dlq p). 0 \<le> de_attempts e"
    using p0(2) created(2) [OF p0(1)] by (simp_all add: within_def)
  have "p_dlq (fst ((retryTick env ^^ 5) (p, w))) = []"
    unfolding retry_ticks_rounds using c(2,3) by (intro drain_rounds_empty) auto
  moreover have "\<exists>new. w_sent (snd ((retryTick env ^^ 5) (p, w))) = w_sent w @ new \<and> (\<forall>x\<in>set new. snd x \<noteq> None \<or> rss_spanCount (fst x) = 0)"
    using c(1) assms(4,5) by (intro retry_ticks_expired) auto
  ultimately show ?thesis by auto
qed

theorem zero_timeout_never_delivers_witness:
  "\<exists>p w. bridge_life (example_env backend_deadline) None (example_config 0) None [] example_file_world = Inr (Inr (p, w))
    \<and> p_dlq p = [queued_entry 1, queued_entry 2]
    \<and> p_dlq (fst ((retryTick (example_env backend_deadline) ^^ 5) (p, w))) = []"
proof -
  obtain p w where l: "bridge_life (example_env backend_deadline) None (example_config 0) None [] example_file_world = Inr (Inr (p, w))"
      "p_dlq p = [queued_entry 1, queued_entry 2]"
    by (rule example_restart [of 0]) simp
  have "\<forall>cc n d body. d \<le> 0 \<longrightarrow> en_post (example_env backend_deadline) cc n (Some d) body \<noteq> None"
    by (simp add: example_env_def backend_deadline_def)
  from zero_timeout_never_delivers [OF example_env_ok example_file_blank l(1) _ this] l show ?thesis by simp
qed

text \<open>
  C11: a shutdown during a retry round loses the round. In any reachable state, let a retry
  round have taken the queue and made the first \<open>j\<close> attempts, whatever their results, and then
  the processor be shut down, with no system call failing. Left alone, the round would put
  back every entry whose attempt fails and is not its fifth. But the shutdown saves the
  emptied queue: \<open>saveDLQ\<close> and \<open>Shutdown\<close> report success, the queue file is gone, and a new
  start with the same configuration has an empty queue; only the first \<open>j\<close> batches were tried.
\<close>

theorem shutdown_during_retry:
  assumes "env_ok env" and "blank_world w0" and "bridge_life env telSet c nxt ops w0 = Inr (Inr (p, w))"
    and "c_PersistPath c \<noteq> []" and "\<forall>step. en_faults env step = None"
    and "Shutdown env (duringRetry env j (p, w)) = ((p', w'), result)"
  shows "fst (drainDLQOnce (p_tel p) (retry_send env p) (p_dlq p, w_sdk w, w_sent w)) =
      map (\<lambda>(i, e). e\<lparr>de_attempts := de_attempts e + 1\<rparr>)
        (filter (\<lambda>(i, e). retry_send env p i (de_td e) \<noteq> None \<and> de_attempts e + 1 < 5) (List.enumerate (length (w_sent w)) (p_dlq p)))
    \<and> w_sent w' = w_sent w
        @ map (\<lambda>(i, e). (de_td e, retry_send env p i (de_td e))) (List.enumerate (length (w_sent w)) (take j (p_dlq p)))
    \<and> result = None
    \<and> saveDLQ (en_marshalProto env) (en_faults env) (en_tmpPath env) (c_PersistPath c) (p_dlq (fst (duringRetry env j (p, w)))) (w_fs w)
        = (w_fs w', None)
    \<and> fmlookup (w_fs w') (c_PersistPath c) = None
    \<and> (\<exists>p2 w2. bridge_life env telSet c nxt [] w' = Inr (Inr (p2, w2)) \<and> p_dlq p2 = [])"
proof -
  obtain p0 where p0: "newTracesProcessor env telSet c nxt = Inr (Inr p0)" "within env p0 (consumed ops) (p, w)"
    by (rule life_within [OF assms(1-3)])
  have c: "p_cfg p = c" "length (p_dlq p) \<le> dlqMaxEntries" "\<not> p_stopped p"
    using p0(2) created(2,8) [OF p0(1)] by (simp_all add: within_def)
  obtain k where d: "duringRetry env j (p, w) = (p\<lparr>p_dlq := []\<rparr>,
      w\<lparr>w_sdk := k, w_sent := w_sent w @ round_sends (retry_send env p) (length (w_sent w)) (take j (p_dlq p))\<rparr>)"
    by (rule duringRetry_cases)
  have w': "w_fs w' = fmdrop (c_PersistPath c) (w_fs w)" "result = None"
      "w_sent w' = w_sent w @ round_sends (retry_send env p) (length (w_sent w)) (take j (p_dlq p))"
    using assms(4-6) c(1,3) unfolding d by (auto simp: Shutdown_def saveDLQ_def os_Remove_def)
  obtain t k' where "Start env (p0, w') =
      Inr (p0\<lparr>p_tickers := True, p_tel := t, p_dlq := restored env c (w_fs w')\<rparr>, w'\<lparr>w_sdk := k'\<rparr>)"
    by (rule Start_created [OF p0(1)])
  then have "\<exists>p2 w2. bridge_life env telSet c nxt [] w' = Inr (Inr (p2, w2)) \<and> p_dlq p2 = []"
    using p0(1) w'(1) by (simp add: bridge_life_def restored_def loadDLQ_def)
  moreover have "saveDLQ (en_marshalProto env) (en_faults env) (en_tmpPath env) (c_PersistPath c) (p_dlq (fst (duringRetry env j (p, w)))) (w_fs w)
      = (w_fs w', None)"
    using assms(4,5) w'(1) by (simp add: d saveDLQ_def os_Remove_def)
  ultimately show ?thesis
    using w' drainDLQOnce_queue [OF c(2)] by (simp add: survivors_filter round_sends_def)
qed

theorem shutdown_during_retry_witness:
  "\<exists>p w p' w'. bridge_life (example_env backend_down) None (example_config second) None [] example_file_world = Inr (Inr (p, w))
    \<and> Shutdown (example_env backend_down) (duringRetry (example_env backend_down) 1 (p, w)) = ((p', w'), None)
    \<and> fst (drainDLQOnce (p_tel p) (retry_send (example_env backend_down) p) (p_dlq p, w_sdk w, w_sent w)) = [queued_entry_tried 1, queued_entry_tried 2]
    \<and> w_sent w' = w_sent w @ [([example_rs], retry_send (example_env backend_down) p (length (w_sent w)) [example_rs])]
    \<and> fmlookup (w_fs w') ''dlq'' = None"
proof -
  obtain p w where l: "bridge_life (example_env backend_down) None (example_config second) None [] example_file_world = Inr (Inr (p, w))"
      "p_dlq p = [queued_entry 1, queued_entry 2]"
    by (rule example_restart [of second]) (simp add: second_def)
  obtain p' w' result where s: "Shutdown (example_env backend_down) (duringRetry (example_env backend_down) 1 (p, w)) = ((p', w'), result)"
    by (metis surj_pair)
  have env: "c_PersistPath (example_config second) \<noteq> []" "\<forall>step. en_faults (example_env backend_down) step = None"
    by (simp_all add: example_env_def)
  have refused: "retry_send (example_env backend_down) p n [example_rs] \<noteq> None" for n
    by (simp add: retry_send_def send_now_def SendTraces_ok example_env_def backend_down_def rs_spanCount_def example_rs_def)
  from shutdown_during_retry [OF example_env_ok example_file_blank l(1) env s] l s refused show ?thesis
    by (intro exI [of _ p] exI [of _ w] exI [of _ p'] exI [of _ w'])
      (simp add: queued_entry_def queued_entry_tried_def)
qed

end
